(* ===== verification/Prelude.thy ===== *)
theory Prelude
  imports Main "HOL-Library.Word" "HOL-Library.List_Lexorder" "HOL-Library.Char_ord"
begin

text \<open>
  Shared vocabulary of the development: the machine integers of the Rust sources, results
  with errors and panics as values, the maps of the standard library as association lists,
  decimal printing, and the generic lemmas the component theories rest on.

  Integers keep their width: \<open>u64\<close>, \<open>i64\<close> and \<open>usize\<close> are \<open>64 word\<close>,
  so \<open>+\<close> and \<open>-\<close> wrap around as they do in a build without overflow checks
  (the release profile of the crate); comparisons of words are the unsigned ones.
\<close>

subsection \<open>Collections of facts\<close>

named_theorems model_defs \<open>defining equations of non-recursive operations\<close>
named_theorems state_frames \<open>fields an operation leaves unchanged\<close>
named_theorems invar_intros \<open>operations that keep an invariant\<close>

subsection \<open>Machine integers\<close>

type_synonym u8 = "8 word"
type_synonym u64 = "64 word"
type_synonym i64 = "64 word"
type_synonym usize = "64 word"

subsection \<open>Results, errors and panics\<close>

text \<open>
  \<open>Ok\<close> and \<open>Err\<close> are the constructors of Rust's \<open>Result\<close>; \<open>Panic\<close> is the
  outcome of \<open>todo!\<close>, \<open>unimplemented!\<close>, \<open>unreachable!\<close> and of slicing out of range.
\<close>

datatype ('a, 'e) result = Ok 'a | Err 'e | Panic string

fun is_ok :: "('a, 'e) result \<Rightarrow> bool" where
  "is_ok (Ok _) = True"
| "is_ok _ = False"

fun is_panic :: "('a, 'e) result \<Rightarrow> bool" where
  "is_panic (Panic _) = True"
| "is_panic _ = False"


text \<open>The \<open>?\<close> operator on a computation that also updates a state.\<close>

fun and_then ::
  "'s \<times> ('a, 'e) result \<Rightarrow> ('s \<Rightarrow> 'a \<Rightarrow> 's \<times> ('b, 'e) result) \<Rightarrow> 's \<times> ('b, 'e) result" where
  "and_then (s, Ok x) f = f s x"
| "and_then (s, Err e) f = (s, Err e)"
| "and_then (s, Panic msg) f = (s, Panic msg)"

fun map_err :: "('e \<Rightarrow> 'f) \<Rightarrow> ('a, 'e) result \<Rightarrow> ('a, 'f) result" where
  "map_err f (Ok x) = Ok x"
| "map_err f (Err e) = Err (f e)"
| "map_err f (Panic msg) = Panic msg"

subsection \<open>Decimal printing\<close>

definition digit :: "nat \<Rightarrow> char" where
  "digit d = char_of (48 + d)"

fun show_nat :: "nat \<Rightarrow> string" where
  "show_nat n = (if n < 10 then [digit n] else show_nat (n div 10) @ [digit (n mod 10)])"

declare show_nat.simps [simp del]

definition show_u64 :: "u64 \<Rightarrow> string" where
  "show_u64 w = show_nat (unat w)"

definition show_i64 :: "i64 \<Rightarrow> string" where
  "show_i64 w = (if sint w < 0 then ''-'' @ show_nat (nat (- sint w)) else show_nat (nat (sint w)))"

subsection \<open>HashMap and BTreeMap\<close>

text \<open>
  A \<open>HashMap\<close> is an association list with distinct keys; its list order stands for the
  unspecified iteration order, and no theorem depends on it. \<open>BTreeMap\<close> iterates in
  ascending key order, which \<open>bt_insert\<close> keeps.
\<close>

definition hm_get :: "('k \<times> 'v) list \<Rightarrow> 'k \<Rightarrow> 'v option" where
  "hm_get m k = map_of m k"

definition hm_remove :: "'k \<Rightarrow> ('k \<times> 'v) list \<Rightarrow> ('k \<times> 'v) list" where
  "hm_remove k m = filter (\<lambda>p. fst p \<noteq> k) m"

definition hm_insert :: "'k \<Rightarrow> 'v \<Rightarrow> ('k \<times> 'v) list \<Rightarrow> ('k \<times> 'v) list" where
  "hm_insert k v m = (k, v) # hm_remove k m"

definition hm_contains :: "('k \<times> 'v) list \<Rightarrow> 'k \<Rightarrow> bool" where
  "hm_contains m k = (k \<in> fst ` set m)"

definition hm_wf :: "('k \<times> 'v) list \<Rightarrow> bool" where
  "hm_wf m = distinct (map fst m)"

fun bt_insert :: "'k::linorder \<Rightarrow> 'v \<Rightarrow> ('k \<times> 'v) list \<Rightarrow> ('k \<times> 'v) list" where
  "bt_insert k v [] = [(k, v)]"
| "bt_insert k v ((k', v') # m) =
     (if k < k' then (k, v) # (k', v') # m
      else if k = k' then (k, v) # m
      else (k', v') # bt_insert k v m)"

definition bt_wf :: "('k::linorder \<times> 'v) list \<Rightarrow> bool" where
  "bt_wf m = sorted_wrt (<) (map fst m)"

subsection \<open>Code outside the repository\<close>

text \<open>
  What the crate takes from third-party packages enters the model as one parameter: the byte
  units of \<open>ubyte\<close>, the matcher of \<open>regex\<close>, the formatter of \<open>dyn-fmt\<close>, and the
  local-time formatter of \<open>chrono\<close>. \<open>hash_first\<close> is the first key in the iteration
  order of a \<open>HashMap\<close>, which the standard library leaves unspecified; \<open>backon_delay n\<close> is
  the \<open>n\<close>-th delay (in milliseconds) of the exponential backoff that \<open>backon\<close> builds.
\<close>

type_synonym SystemTime = int

record extern =
  ubyte_MB :: u64
  ubyte_GB :: u64
  regex_is_match :: "string \<Rightarrow> string \<Rightarrow> bool"
  dyn_fmt :: "string \<Rightarrow> string list \<Rightarrow> string"
  chrono_fmt :: "SystemTime \<Rightarrow> string"
  hash_first :: "string list \<Rightarrow> string option"
  backon_delay :: "nat \<Rightarrow> nat option"

text \<open>The documented values of the decimal byte units.\<close>

definition ubyte_documented :: "extern \<Rightarrow> bool" where
  "ubyte_documented x = (ubyte_MB x = 1000000 \<and> ubyte_GB x = 1000000000)"

text \<open>Iterating a non-empty map yields one of its keys first; an empty one yields nothing.\<close>

definition hash_first_ok :: "extern \<Rightarrow> bool" where
  "hash_first_ok x = (\<forall>ks. case hash_first x ks of None \<Rightarrow> ks = [] | Some k \<Rightarrow> k \<in> set ks)"

text \<open>An environment in which both hold: the first key in list order, and formatters that copy.\<close>

definition ex_extern :: extern where
  "ex_extern = \<lparr>ubyte_MB = 1000000, ubyte_GB = 1000000000, regex_is_match = (\<lambda>_ _. True),
     dyn_fmt = (\<lambda>f _. f), chrono_fmt = (\<lambda>_. []),
     hash_first = (\<lambda>ks. case ks of [] \<Rightarrow> None | k # _ \<Rightarrow> Some k),
     backon_delay = (\<lambda>n. Some (min 30000 (500 * 2 ^ n)))\<rparr>"


subsection \<open>Lemmas on results\<close>

lemma ex_extern_ok: "hash_first_ok ex_extern" "ubyte_documented ex_extern"
  by (auto simp: hash_first_ok_def ubyte_documented_def ex_extern_def split: list.splits)

lemma is_ok_iff: "is_ok r \<longleftrightarrow> (\<exists>x. r = Ok x)"
  by (cases r) auto

lemma and_then_cases:
  assumes "and_then p f = (s', r)"
  obtains (Ok) s x where "p = (s, Ok x)" and "f s x = (s', r)"
  | (Err) e where "p = (s', Err e)" and "r = Err e"
  | (Panic) msg where "p = (s', Panic msg)" and "r = Panic msg"
  using assms by (cases p; cases "snd p") auto

lemma and_then_eq_Ok:
  "and_then p f = (s', Ok y) \<longleftrightarrow> (\<exists>s x. p = (s, Ok x) \<and> f s x = (s', Ok y))"
  by (cases p rule: prod.exhaust; cases "snd p") auto

lemma and_then_fst_cases:
  "fst (and_then p f) = (case snd p of Ok x \<Rightarrow> fst (f (fst p) x) | _ \<Rightarrow> fst p)"
  by (cases p rule: prod.exhaust; cases "snd p") auto

lemma map_err_simps_iff [simp]:
  "map_err f r = Ok x \<longleftrightarrow> r = Ok x"
  "map_err f r = Panic m \<longleftrightarrow> r = Panic m"
  "is_ok (map_err f r) = is_ok r"
  by (cases r; simp)+

subsection \<open>Lemmas on maps\<close>

lemma hm_get_insert [simp]: "hm_get (hm_insert k v m) k' = (if k' = k then Some v else hm_get m k')"
  by (induction m) (auto simp: hm_get_def hm_insert_def hm_remove_def)

lemma hm_get_remove [simp]: "hm_get (hm_remove k m) k' = (if k' = k then None else hm_get m k')"
  by (induction m) (auto simp: hm_get_def hm_remove_def)

lemma hm_get_Nil [simp]: "hm_get [] k = None"
  by (simp add: hm_get_def)

lemma hm_get_Cons [simp]: "hm_get ((k, v) # m) k' = (if k' = k then Some v else hm_get m k')"
  by (auto simp: hm_get_def)

lemma hm_contains_iff: "hm_contains m k \<longleftrightarrow> hm_get m k \<noteq> None"
  by (simp add: hm_contains_def hm_get_def map_of_eq_None_iff)

lemma hm_contains_simps [simp]:
  "hm_contains [] k = False"
  "hm_contains (hm_insert k' v m) k \<longleftrightarrow> k = k' \<or> hm_contains m k"
  "hm_contains (hm_remove k' m) k \<longleftrightarrow> k \<noteq> k' \<and> hm_contains m k"
  by (auto simp: hm_contains_iff)

lemma hm_wf_simps [simp]:
  "hm_wf []"
  "hm_wf m \<Longrightarrow> hm_wf (hm_remove k m)"
  "hm_wf m \<Longrightarrow> hm_wf (hm_insert k v m)"
  by (auto simp: hm_wf_def hm_insert_def hm_remove_def distinct_map_filter)

lemma hm_keys_of_get: "hm_get m k = Some v \<Longrightarrow> k \<in> fst ` set m"
  by (auto simp: hm_get_def dest: map_of_SomeD intro: rev_image_eqI)

lemma bt_insert_keys: "fst ` set (bt_insert k v m) = insert k (fst ` set m)"
  by (induction k v m rule: bt_insert.induct) auto

lemma bt_insert_wf [simp]: "bt_wf m \<Longrightarrow> bt_wf (bt_insert k v m)"
proof (induction k v m rule: bt_insert.induct)
  case (2 k v k' v' m)
  then have wf: "bt_wf m" and less: "\<forall>x \<in> fst ` set m. k' < x"
    by (auto simp: bt_wf_def)
  show ?case
  proof (cases "k' < k")
    case True
    with 2 wf less show ?thesis
      by (auto simp: bt_wf_def bt_insert_keys)
  next
    case False
    with 2 less show ?thesis
      by (fastforce simp: bt_wf_def)
  qed
qed (simp add: bt_wf_def)

lemma bt_remove_wf [simp]: "bt_wf m \<Longrightarrow> bt_wf (hm_remove k m)"
  by (auto simp: bt_wf_def hm_remove_def sorted_wrt_map intro: sorted_wrt_filter)

lemma bt_get_insert [simp]:
  "bt_wf m \<Longrightarrow> hm_get (bt_insert k v m) k' = (if k' = k then Some v else hm_get m k')"
  by (induction k v m rule: bt_insert.induct) (auto simp: bt_wf_def)

subsection \<open>Lemmas on words\<close>

lemma unat_plus_one: "unat (w + 1 :: u64) = (if w = - 1 then 0 else Suc (unat w))"
proof (cases "w = - 1")
  case False
  then have "1 + w \<noteq> 0" by (metis add.commute add_eq_0_iff minus_minus)
  with False show ?thesis by (metis add.commute unatSuc)
qed simp

lemma unat_plus_one_small: "Suc (unat w) < 2 ^ 64 \<Longrightarrow> unat (w + 1 :: u64) = Suc (unat w)"
  by (auto simp: unat_plus_one unsigned_minus_1_eq_mask mask_eq_exp_minus_1)

lemma unat_of_nat_u64: "n < 2 ^ 64 \<Longrightarrow> unat (of_nat n :: u64) = n"
  by (simp add: unat_of_nat take_bit_nat_eq_self)

end
