(* ===== verification/Types.thy ===== *)
theory Types
  imports Prelude
begin

text \<open>
  The value types of \<open>src/types\<close> and \<open>src/datatypes/option.rs\<close>: identifiers, the
  lifecycle state machine's states, checkpoints, operation identifiers and notifications.
\<close>

subsection \<open>Uid (types/uid.rs)\<close>

datatype Uid = Uid (uid_str: string)

type_synonym Cuid = Uid
type_synonym Duid = Uid

definition UID_LEN :: nat where
  "UID_LEN = 16"

definition Uid_new_nil :: Uid where
  "Uid_new_nil = Uid ''0000000000000000''"

definition is_ascii_alphanumeric :: "char \<Rightarrow> bool" where
  "is_ascii_alphanumeric c =
     ((CHR ''0'' \<le> c \<and> c \<le> CHR ''9'') \<or> (CHR ''a'' \<le> c \<and> c \<le> CHR ''z'') \<or>
      (CHR ''A'' \<le> c \<and> c \<le> CHR ''Z''))"

definition Uid_validate :: "string \<Rightarrow> bool" where
  "Uid_validate s =
     (length s = UID_LEN \<and>
      list_all (\<lambda>c. c = CHR ''-'' \<or> c = CHR ''_'' \<or> is_ascii_alphanumeric c) s)"

definition Uid_try_from :: "string \<Rightarrow> (Uid, string) result" where
  "Uid_try_from value =
     (if Uid_validate value then Ok (Uid value) else Err ''Invalid UID format'')"

definition Uid_display :: "Uid \<Rightarrow> string" where
  "Uid_display u = uid_str u"

text \<open>The derived order of the Rust type is the lexicographic order of its string.\<close>

instantiation Uid :: linorder
begin

definition less_eq_Uid :: "Uid \<Rightarrow> Uid \<Rightarrow> bool" where
  "less_eq_Uid u v = (uid_str u \<le> uid_str v)"

definition less_Uid :: "Uid \<Rightarrow> Uid \<Rightarrow> bool" where
  "less_Uid u v = (uid_str u < uid_str v)"

instance
  by standard (auto simp: less_eq_Uid_def less_Uid_def Uid.expand)

end

subsection \<open>DataType and DatatypeState (types/datatype.rs)\<close>

datatype DataType = Type_Counter | Type_Variable | Type_Map

fun DataType_display :: "DataType \<Rightarrow> string" where
  "DataType_display Type_Counter = ''Counter''"
| "DataType_display Type_Variable = ''Variable''"
| "DataType_display Type_Map = ''Map''"

datatype DatatypeState =
  Creating | Subscribing | SubscribingOrCreating | Subscribed | Unsubscribing | Deleting | Disabled

definition DatatypeState_default :: DatatypeState where
  "DatatypeState_default = Creating"

fun DatatypeState_display :: "DatatypeState \<Rightarrow> string" where
  "DatatypeState_display Creating = ''Creating''"
| "DatatypeState_display Subscribing = ''Subscribing''"
| "DatatypeState_display SubscribingOrCreating = ''SubscribingOrCreating''"
| "DatatypeState_display Subscribed = ''Subscribed''"
| "DatatypeState_display Unsubscribing = ''Unsubscribing''"
| "DatatypeState_display Deleting = ''Deleting''"
| "DatatypeState_display Disabled = ''Disabled''"

fun is_read_writable :: "DatatypeState \<Rightarrow> bool" where
  "is_read_writable Creating = True"
| "is_read_writable SubscribingOrCreating = True"
| "is_read_writable Subscribed = True"
| "is_read_writable _ = False"

definition is_readonly_state :: "DatatypeState \<Rightarrow> bool" where
  "is_readonly_state s = (\<not> is_read_writable s)"

subsection \<open>CheckPoint (types/checkpoint.rs)\<close>

record CheckPoint =
  cp_sseq :: u64
  cp_cseq :: u64

definition CheckPoint_new :: "u64 \<Rightarrow> u64 \<Rightarrow> CheckPoint" where
  "CheckPoint_new sseq cseq = \<lparr>cp_sseq = sseq, cp_cseq = cseq\<rparr>"

definition CheckPoint_default :: CheckPoint where
  "CheckPoint_default = \<lparr>cp_sseq = 0, cp_cseq = 0\<rparr>"

definition check_with :: "CheckPoint \<Rightarrow> CheckPoint \<Rightarrow> CheckPoint" where
  "check_with self other =
     self\<lparr>cp_cseq := max (cp_cseq self) (cp_cseq other),
          cp_sseq := max (cp_sseq self) (cp_sseq other)\<rparr>"

definition CheckPoint_display :: "CheckPoint \<Rightarrow> string" where
  "CheckPoint_display cp =
     ''(s:'' @ show_u64 (cp_sseq cp) @ '', c:'' @ show_u64 (cp_cseq cp) @ '')''"

subsection \<open>OperationId (types/operation\_id.rs)\<close>

record OperationId =
  oid_lamport :: u64
  oid_cuid :: Cuid
  oid_cseq :: u64

definition OperationId_new_with_cuid :: "Cuid \<Rightarrow> OperationId" where
  "OperationId_new_with_cuid cuid = \<lparr>oid_lamport = 0, oid_cuid = cuid, oid_cseq = 0\<rparr>"

definition OperationId_new :: OperationId where
  "OperationId_new = \<lparr>oid_lamport = 0, oid_cuid = Uid_new_nil, oid_cseq = 0\<rparr>"

definition next_lamport :: "OperationId \<Rightarrow> OperationId \<times> u64" where
  "next_lamport o1 =
     (let o2 = o1\<lparr>oid_lamport := oid_lamport o1 + 1\<rparr> in (o2, oid_lamport o2))"

definition prev_lamport :: "OperationId \<Rightarrow> OperationId \<times> u64" where
  "prev_lamport o1 =
     (let o2 = (if oid_lamport o1 > 0 then o1\<lparr>oid_lamport := oid_lamport o1 - 1\<rparr> else o1)
      in (o2, oid_lamport o2))"

definition next_cseq :: "OperationId \<Rightarrow> OperationId \<times> u64" where
  "next_cseq o1 = (let o2 = o1\<lparr>oid_cseq := oid_cseq o1 + 1\<rparr> in (o2, oid_cseq o2))"

definition OperationId_next :: "OperationId \<Rightarrow> bool \<Rightarrow> OperationId" where
  "OperationId_next o1 is_new_tx =
     (let o2 = (if is_new_tx then o1\<lparr>oid_cseq := oid_cseq o1 + 1\<rparr> else o1)
      in o2\<lparr>oid_lamport := oid_lamport o2 + 1\<rparr>)"

definition prev_cseq :: "OperationId \<Rightarrow> OperationId \<times> u64" where
  "prev_cseq o1 =
     (let o2 = (if oid_cseq o1 > 0 then o1\<lparr>oid_cseq := oid_cseq o1 - 1\<rparr> else o1)
      in (o2, oid_cseq o2))"

definition OperationId_sync :: "OperationId \<Rightarrow> OperationId \<Rightarrow> OperationId" where
  "OperationId_sync self other =
     (let o2 = self\<lparr>oid_lamport := max (oid_lamport self) (oid_lamport other)\<rparr>
      in if oid_cuid other = oid_cuid o2
         then o2\<lparr>oid_cseq := max (oid_cseq o2) (oid_cseq other)\<rparr> else o2)"

definition OperationId_display :: "OperationId \<Rightarrow> string" where
  "OperationId_display o1 =
     show_u64 (oid_lamport o1) @ '':'' @ Uid_display (oid_cuid o1) @ '':'' @ show_u64 (oid_cseq o1)"

datatype Ordering = Less | Equal | Greater

definition Uid_cmp :: "Uid \<Rightarrow> Uid \<Rightarrow> Ordering" where
  "Uid_cmp u v = (if u < v then Less else if u = v then Equal else Greater)"

definition OperationId_partial_cmp :: "OperationId \<Rightarrow> OperationId \<Rightarrow> Ordering option" where
  "OperationId_partial_cmp self other =
     (if oid_lamport self > oid_lamport other then Some Greater
      else if oid_lamport self < oid_lamport other then Some Less
      else Some (Uid_cmp (oid_cuid self) (oid_cuid other)))"

subsection \<open>Notification (types/notification.rs)\<close>

record Notification =
  ntf_cuid :: Cuid
  ntf_duid :: Duid
  ntf_sseq :: u64
  ntf_safe :: u64

definition Notification_new :: "Cuid \<Rightarrow> Duid \<Rightarrow> u64 \<Rightarrow> u64 \<Rightarrow> Notification" where
  "Notification_new cuid duid sseq safe =
     \<lparr>ntf_cuid = cuid, ntf_duid = duid, ntf_sseq = sseq, ntf_safe = safe\<rparr>"

subsection \<open>DatatypeOption (datatypes/option.rs, defaults.rs)\<close>

definition DEFAULT_MAX_MEM_SIZE_OF_PUSH_BUFFER :: "extern \<Rightarrow> u64" where
  "DEFAULT_MAX_MEM_SIZE_OF_PUSH_BUFFER x = 100 * ubyte_MB x"

definition LOWER_MAX_MEM_SIZE_OF_PUSH_BUFFER :: "extern \<Rightarrow> u64" where
  "LOWER_MAX_MEM_SIZE_OF_PUSH_BUFFER x = ubyte_MB x"

definition UPPER_MAX_MEM_SIZE_OF_PUSH_BUFFER :: "extern \<Rightarrow> u64" where
  "UPPER_MAX_MEM_SIZE_OF_PUSH_BUFFER x = ubyte_GB x"

definition DEFAULT_MAX_TRANSMISSION_SIZE :: "extern \<Rightarrow> u64" where
  "DEFAULT_MAX_TRANSMISSION_SIZE x = 4 * ubyte_MB x"

record DatatypeOption =
  max_mem_size_of_push_buffer :: u64

text \<open>\<open>u64::clamp\<close> of the standard library.\<close>

definition clamp_u64 :: "u64 \<Rightarrow> u64 \<Rightarrow> u64 \<Rightarrow> u64" where
  "clamp_u64 v lo hi = (if v < lo then lo else if v > hi then hi else v)"

definition DatatypeOption_new :: "extern \<Rightarrow> u64 \<Rightarrow> DatatypeOption" where
  "DatatypeOption_new x max_size_of_push_buffer =
     \<lparr>max_mem_size_of_push_buffer =
        clamp_u64 max_size_of_push_buffer
          (LOWER_MAX_MEM_SIZE_OF_PUSH_BUFFER x) (UPPER_MAX_MEM_SIZE_OF_PUSH_BUFFER x)\<rparr>"

definition DatatypeOption_default :: "extern \<Rightarrow> DatatypeOption" where
  "DatatypeOption_default x = DatatypeOption_new x (DEFAULT_MAX_MEM_SIZE_OF_PUSH_BUFFER x)"

lemmas option_defs =
  DatatypeOption_new_def DatatypeOption_default_def clamp_u64_def
  DEFAULT_MAX_MEM_SIZE_OF_PUSH_BUFFER_def LOWER_MAX_MEM_SIZE_OF_PUSH_BUFFER_def
  UPPER_MAX_MEM_SIZE_OF_PUSH_BUFFER_def DEFAULT_MAX_TRANSMISSION_SIZE_def

subsection \<open>Checkpoints form a join semilattice\<close>

locale sync_join =
  fixes join :: "'c \<Rightarrow> 'c \<Rightarrow> 'c" and le :: "'c \<Rightarrow> 'c \<Rightarrow> bool"
  assumes le_join: "le a (join a b)" and le_join': "le b (join a b)"
    and join_least: "le a c \<Longrightarrow> le b c \<Longrightarrow> le (join a b) c"
    and le_refl: "le a a"
    and le_antisym: "le a b \<Longrightarrow> le b a \<Longrightarrow> a = b"
    and le_trans: "le a b \<Longrightarrow> le b c \<Longrightarrow> le a c"
begin

lemma join_commute: "join a b = join b a"
  by (intro le_antisym join_least le_join le_join')

lemma join_assoc: "join (join a b) c = join a (join b c)"
  by (intro le_antisym join_least)
    (rule le_join le_join' le_trans [OF le_join le_join] le_trans [OF le_join' le_join]
      le_trans [OF le_join le_join'] le_trans [OF le_join' le_join'])+

lemma join_absorb: "le b a \<Longrightarrow> join a b = a"
  by (intro le_antisym join_least le_join le_refl)

lemma join_idem: "join (join a b) b = join a b"
  by (rule join_absorb) (rule le_join')

text \<open>Acknowledgements may be delivered late, twice, or in any order.\<close>

lemma fold_join_above: "le a (foldl join a bs)"
  by (induction bs rule: rev_induct) (auto intro: le_refl le_trans [OF _ le_join])

lemma fold_join_mem: "b \<in> set bs \<Longrightarrow> le b (foldl join a bs)"
  by (induction bs rule: rev_induct) (auto intro: le_join' le_trans [OF _ le_join])

lemma fold_join_least: "le a c \<Longrightarrow> (\<And>b. b \<in> set bs \<Longrightarrow> le b c) \<Longrightarrow> le (foldl join a bs) c"
  by (induction bs rule: rev_induct) (auto intro: join_least)

lemma fold_join_set_cong: "set bs = set cs \<Longrightarrow> foldl join a bs = foldl join a cs"
  by (rule le_antisym; rule fold_join_least) (auto intro: fold_join_above fold_join_mem)

end

definition cp_le :: "CheckPoint \<Rightarrow> CheckPoint \<Rightarrow> bool" where
  "cp_le a b = (cp_sseq a \<le> cp_sseq b \<and> cp_cseq a \<le> cp_cseq b)"

interpretation cpj: sync_join check_with cp_le
  by unfold_locales (auto simp: check_with_def cp_le_def)

lemma check_with_simps [simp]:
  "cp_sseq (check_with a b) = max (cp_sseq a) (cp_sseq b)"
  "cp_cseq (check_with a b) = max (cp_cseq a) (cp_cseq b)"
  by (simp_all add: check_with_def)

lemma CheckPoint_default_simps [simp]:
  "cp_sseq CheckPoint_default = 0" "cp_cseq CheckPoint_default = 0"
  by (simp_all add: CheckPoint_default_def)

lemma OperationId_next_simps [simp]:
  "oid_cuid (OperationId_next o1 b) = oid_cuid o1"
  "oid_lamport (OperationId_next o1 b) = oid_lamport o1 + 1"
  "oid_cseq (OperationId_next o1 b) = (if b then oid_cseq o1 + 1 else oid_cseq o1)"
  by (simp_all add: OperationId_next_def)

lemma OperationId_new_simps [simp]:
  "oid_cuid (OperationId_new_with_cuid c) = c"
  "oid_lamport (OperationId_new_with_cuid c) = 0"
  "oid_cseq (OperationId_new_with_cuid c) = 0"
  by (simp_all add: OperationId_new_with_cuid_def)

text \<open>
  Acknowledgements may come late, twice and in any order. The checkpoint a replica ends up with
  depends only on the set of checkpoints it has been told, it is at least each of them, and it never
  goes down.
\<close>

lemma checkpoint_delivery_order:
  assumes "set acks = set acks'"
  shows "foldl check_with cp acks = foldl check_with cp acks' \<and> cp_le cp (foldl check_with cp acks) \<and>
    (\<forall>a \<in> set acks'. cp_le a (foldl check_with cp acks))"
  using cpj.fold_join_set_cong [OF assms] cpj.fold_join_above cpj.fold_join_mem assms by auto

lemma checkpoint_delivery_order_witness:
  "foldl check_with CheckPoint_default [CheckPoint_new 3 1, CheckPoint_new 1 2] =
   foldl check_with CheckPoint_default [CheckPoint_new 1 2, CheckPoint_new 3 1, CheckPoint_new 1 2] \<and>
   cp_le (CheckPoint_new 1 2) (foldl check_with CheckPoint_default [CheckPoint_new 3 1, CheckPoint_new 1 2])"
  using checkpoint_delivery_order [of "[CheckPoint_new 3 1, CheckPoint_new 1 2]"
      "[CheckPoint_new 1 2, CheckPoint_new 3 1, CheckPoint_new 1 2]" CheckPoint_default] by auto

end
