(* ===== verification/Operations.thy ===== *)
theory Operations
  imports Types
begin

text \<open>
  Operations and transactions (\<open>src/operations\<close>): the bodies, the operation with its
  Lamport time and wall-clock stamp, the transaction that groups operations under one client
  sequence number, and the memory accounting of \<open>MemoryMeasurable\<close>.
\<close>

subsection \<open>Operation bodies (operations/body.rs)\<close>

text \<open>
  \<open>Delay4Test\<close> exists in the test configuration of the crate only; it is the one body
  whose execution can fail.
\<close>

datatype Delay4TestBody = Delay4TestBody (duration_ms: u64) (success: bool)

datatype CounterIncreaseBody = CounterIncreaseBody (delta: i64)

datatype SnapshotBody = SnapshotBody (data: "u8 list")

datatype OperationBody =
  Delay4Test Delay4TestBody
| CounterIncrease CounterIncreaseBody
| Snapshot SnapshotBody

definition Delay4TestBody_run :: "Delay4TestBody \<Rightarrow> (unit, unit) result" where
  "Delay4TestBody_run b = (if success b then Ok () else Err ())"

definition Delay4TestBody_size :: "Delay4TestBody \<Rightarrow> u64" where
  "Delay4TestBody_size b = 8 + 1"

definition CounterIncreaseBody_size :: "CounterIncreaseBody \<Rightarrow> u64" where
  "CounterIncreaseBody_size b = 8"

definition SnapshotBody_size :: "SnapshotBody \<Rightarrow> u64" where
  "SnapshotBody_size b = of_nat (length (data b))"

fun OperationBody_size :: "OperationBody \<Rightarrow> u64" where
  "OperationBody_size (Delay4Test b) = Delay4TestBody_size b"
| "OperationBody_size (CounterIncrease b) = CounterIncreaseBody_size b"
| "OperationBody_size (Snapshot b) = SnapshotBody_size b"

fun OperationBody_display :: "OperationBody \<Rightarrow> string" where
  "OperationBody_display (Delay4Test b) = ''Delay4Test''"
| "OperationBody_display (CounterIncrease b) =
     ''CounterIncrease(delta='' @ show_i64 (delta b) @ '')''"
| "OperationBody_display (Snapshot b) = ''Snapshot(size:'' @ show_nat (length (data b)) @ '')''"

subsection \<open>Operation (operations/mod.rs)\<close>

record Operation =
  op_lamport :: u64
  op_body :: OperationBody
  op_at :: SystemTime

definition Operation_new :: "SystemTime \<Rightarrow> OperationBody \<Rightarrow> Operation" where
  "Operation_new now body = \<lparr>op_lamport = 0, op_body = body, op_at = now\<rparr>"

definition new_counter_increase :: "SystemTime \<Rightarrow> i64 \<Rightarrow> Operation" where
  "new_counter_increase now d = Operation_new now (CounterIncrease (CounterIncreaseBody d))"

definition new_snapshot :: "SystemTime \<Rightarrow> u8 list \<Rightarrow> Operation" where
  "new_snapshot now body = Operation_new now (Snapshot (SnapshotBody body))"

definition new_delay_for_test :: "SystemTime \<Rightarrow> u64 \<Rightarrow> bool \<Rightarrow> Operation" where
  "new_delay_for_test now ms succ = Operation_new now (Delay4Test (Delay4TestBody ms succ))"

definition set_lamport :: "Operation \<Rightarrow> u64 \<Rightarrow> Operation" where
  "set_lamport op lamport = op\<lparr>op_lamport := lamport\<rparr>"

text \<open>\<open>size_of::<u64>()\<close> is 8; \<open>size_of::<SystemTime>()\<close> is 16 on 64-bit Unix.\<close>

definition Operation_size :: "Operation \<Rightarrow> u64" where
  "Operation_size op = (8 + 16) + OperationBody_size (op_body op)"

definition Operation_display :: "extern \<Rightarrow> Operation \<Rightarrow> string" where
  "Operation_display x op =
     show_u64 (op_lamport op) @ ''.'' @ OperationBody_display (op_body op) @ '' '' @
     chrono_fmt x (op_at op) @ '')''"

subsection \<open>Transaction (operations/transaction.rs)\<close>

text \<open>
  The constant part: a \<open>Vec\<close> header (24), the client id (16), an optional \<open>String\<close>
  header (24), two sequence numbers (8 each) and a flag (1).
\<close>

definition TRANSACTION_CONSTANT_SIZE :: u64 where
  "TRANSACTION_CONSTANT_SIZE = 24 + of_nat UID_LEN + 24 + 8 + 8 + 1"

record Transaction =
  tx_cuid :: Cuid
  tx_cseq :: u64
  tx_sseq :: u64
  tx_tag :: "string option"
  tx_event :: bool
  tx_operations :: "Operation list"

definition Transaction_new :: "Cuid \<Rightarrow> u64 \<Rightarrow> Transaction" where
  "Transaction_new cuid cseq =
     \<lparr>tx_cuid = cuid, tx_cseq = cseq, tx_sseq = 0, tx_tag = None, tx_event = False,
      tx_operations = []\<rparr>"

definition Transaction_new_with_cuid :: "Cuid \<Rightarrow> Transaction" where
  "Transaction_new_with_cuid cuid =
     \<lparr>tx_cuid = cuid, tx_cseq = 0, tx_sseq = 0, tx_tag = None, tx_event = False,
      tx_operations = []\<rparr>"

definition get_op_id :: "Transaction \<Rightarrow> OperationId" where
  "get_op_id tx = (OperationId_new_with_cuid (tx_cuid tx))\<lparr>oid_cseq := tx_cseq tx\<rparr>"

definition set_tag :: "Transaction \<Rightarrow> string option \<Rightarrow> Transaction" where
  "set_tag tx tag = tx\<lparr>tx_tag := tag\<rparr>"

definition set_event :: "Transaction \<Rightarrow> bool \<Rightarrow> Transaction" where
  "set_event tx event = tx\<lparr>tx_event := event\<rparr>"

definition push_operation :: "Transaction \<Rightarrow> Operation \<Rightarrow> Transaction" where
  "push_operation tx op = tx\<lparr>tx_operations := tx_operations tx @ [op]\<rparr>"

definition Transaction_size :: "Transaction \<Rightarrow> u64" where
  "Transaction_size tx =
     (let op_size = sum_list (map Operation_size (tx_operations tx));
          tag_size = (case tx_tag tx of Some s \<Rightarrow> of_nat (length s) | None \<Rightarrow> 0)
      in TRANSACTION_CONSTANT_SIZE + tag_size + op_size)"

text \<open>The two symbols are printed as their UTF-8 bytes.\<close>

definition Transaction_display :: "extern \<Rightarrow> Transaction \<Rightarrow> string" where
  "Transaction_display x tx =
     (let tag_arg = (case tx_tag tx of
                       Some tag \<Rightarrow> [CHR 0xF0, CHR 0x9F, CHR 0x94, CHR 0x96] @ '':'' @ tag
                     | None \<Rightarrow> '''');
          event_arg = (if tx_event tx then '' '' @ [CHR 0xE2, CHR 0x9C, CHR 0x85] @ '' '' else '' '');
          lamport_arg =
            (case tx_operations tx of
               [] \<Rightarrow> ''[]''
             | [first] \<Rightarrow> ''['' @ Operation_display x first @ '']''
             | first # rest \<Rightarrow>
                 ''['' @ Operation_display x first @ ''-'' @ Operation_display x (last rest) @ '']'')
      in ''TX('' @ tag_arg @ event_arg @ Uid_display (tx_cuid tx) @ '':'' @
         show_u64 (tx_cseq tx) @ '':'' @ show_u64 (tx_sseq tx) @ '':'' @ lamport_arg @ '')'')"

subsection \<open>Lemmas\<close>

lemma set_lamport_simps [simp]:
  "op_lamport (set_lamport op l) = l"
  "op_body (set_lamport op l) = op_body op"
  "op_at (set_lamport op l) = op_at op"
  by (simp_all add: set_lamport_def)

lemma Operation_size_lamport [simp]:
  "Operation_size (set_lamport op l) = Operation_size op"
  "Operation_size (op\<lparr>op_lamport := l\<rparr>) = Operation_size op"
  by (simp_all add: Operation_size_def)

lemma Transaction_new_simps [simp]:
  "tx_cuid (Transaction_new c n) = c" "tx_cseq (Transaction_new c n) = n"
  "tx_sseq (Transaction_new c n) = 0" "tx_operations (Transaction_new c n) = []"
  "tx_tag (Transaction_new c n) = None"
  by (simp_all add: Transaction_new_def)

lemma push_operation_simps [simp]:
  "tx_cuid (push_operation tx op) = tx_cuid tx" "tx_cseq (push_operation tx op) = tx_cseq tx"
  "tx_sseq (push_operation tx op) = tx_sseq tx" "tx_tag (push_operation tx op) = tx_tag tx"
  "tx_operations (push_operation tx op) = tx_operations tx @ [op]"
  by (simp_all add: push_operation_def)

lemma set_tag_simps [simp]:
  "tx_cuid (set_tag tx t) = tx_cuid tx" "tx_cseq (set_tag tx t) = tx_cseq tx"
  "tx_sseq (set_tag tx t) = tx_sseq tx" "tx_operations (set_tag tx t) = tx_operations tx"
  "tx_tag (set_tag tx t) = t"
  by (simp_all add: set_tag_def)

lemma Transaction_size_new: "Transaction_size (Transaction_new c n) = TRANSACTION_CONSTANT_SIZE"
  by (simp add: Transaction_size_def Transaction_new_def)

lemma Transaction_size_push:
  "Transaction_size (push_operation tx op) = Transaction_size tx + Operation_size op"
  by (simp add: Transaction_size_def push_operation_def Let_def)

lemma Transaction_size_frame [simp]:
  "Transaction_size (tx\<lparr>tx_sseq := n\<rparr>) = Transaction_size tx"
  "Transaction_size (tx\<lparr>tx_event := b\<rparr>) = Transaction_size tx"
  by (simp_all add: Transaction_size_def)

subsection \<open>Transactions, split by client\<close>

definition own :: "Cuid \<Rightarrow> Transaction list \<Rightarrow> Transaction list" where
  "own cuid txs = filter (\<lambda>t. tx_cuid t = cuid) txs"

abbreviation foreign :: "Cuid \<Rightarrow> Transaction list \<Rightarrow> Transaction list" where
  "foreign cuid txs \<equiv> filter (\<lambda>t. tx_cuid t \<noteq> cuid) txs"

lemma own_append [simp]: "own c (xs @ ys) = own c xs @ own c ys"
  by (simp add: own_def)

lemma own_Nil [simp]: "own u [] = []"
  by (simp add: own_def)

lemma own_length_split: "length (own u xs) + length (filter (\<lambda>t. tx_cuid t \<noteq> u) xs) = length xs"
  by (induction xs) (auto simp: own_def)

lemma own_take: "own u (take n xs) = take (length (own u (take n xs))) (own u xs)"
  by (metis append_eq_conv_conj append_take_drop_id own_append)

lemma own_between:
  assumes "s \<le> n"
  shows "own u (take n xs) = own u (take s xs) @ own u (drop s (take n xs))"
  using assms by (metis append_take_drop_id min.absorb1 own_append take_take)

lemma own_take_le: "length (own u (take n xs)) \<le> length (own u xs)"
  by (metis append_take_drop_id le_add1 length_append own_append)

text \<open>The transactions of the others between two places of the order, and what they add.\<close>

lemma foreign_between:
  assumes "s \<le> n" "n \<le> length xs"
  shows "length (filter (\<lambda>t. tx_cuid t \<noteq> u) (drop s (take n xs))) +
      (length (own u (take n xs)) - length (own u (take s xs))) = n - s"
    and "length (own u (take s xs)) \<le> length (own u (take n xs))"
proof -
  have "length (own u (drop s (take n xs))) + length (filter (\<lambda>t. tx_cuid t \<noteq> u) (drop s (take n xs))) = n - s"
    using own_length_split [of u "drop s (take n xs)"] assms by simp
  then show "length (filter (\<lambda>t. tx_cuid t \<noteq> u) (drop s (take n xs))) +
      (length (own u (take n xs)) - length (own u (take s xs))) = n - s"
    by (simp add: own_between [OF assms(1)])
  show "length (own u (take s xs)) \<le> length (own u (take n xs))" by (simp add: own_between [OF assms(1)])
qed

end
