(* ===== verification/Errors.thy ===== *)
theory Errors
  imports Types
begin

text \<open>
  The error taxonomy (\<open>src/errors\<close>) and its routing: every error that reaches the event
  loop or the commit path is paired with one \<open>RecoveryAction\<close>.
\<close>

subsection \<open>Datatype errors (errors/datatypes.rs)\<close>

datatype InternalReason =
  Deserialize string
| ExecuteOperation string
| EventLoopFailure string
| NonSequentialCseq
| GetPushingTransactions

datatype ServerRejectReason =
  Rejected_CreateFailed string
| Rejected_ResourceNotFound string
| Rejected_MissingSubscription string
| Rejected_ProtocolViolation string

datatype DatatypeError =
  TransactionFailed string
| Internal string
| Disallowed string
| NotWritable string
| ReadonlyViolation
| SyncFailed string
| PushBufferExceededMaxMemSize
| ServerRejected ServerRejectReason

datatype RecoveryAction =
  NotifyOnly | RetryWithBackOff | RollbackTransaction | Resubscribe | ResubscribeWithBackOff | Disable

record DatatypeErrorWithAction =
  dewa_error :: DatatypeError
  dewa_recovery :: RecoveryAction

definition DatatypeErrorWithAction_new ::
  "DatatypeError \<Rightarrow> RecoveryAction \<Rightarrow> DatatypeErrorWithAction" where
  "DatatypeErrorWithAction_new e r = \<lparr>dewa_error = e, dewa_recovery = r\<rparr>"

fun InternalReason_display :: "InternalReason \<Rightarrow> string" where
  "InternalReason_display (Deserialize m) = ''deserialize: '' @ m"
| "InternalReason_display (ExecuteOperation m) = ''execute operation: '' @ m"
| "InternalReason_display (EventLoopFailure m) = ''event loop: '' @ m"
| "InternalReason_display NonSequentialCseq = ''non-sequential cseq in push buffer''"
| "InternalReason_display GetPushingTransactions = ''failed to get pushing transactions''"

definition into_error :: "InternalReason \<Rightarrow> DatatypeError" where
  "into_error r = Internal (InternalReason_display r)"

text \<open>
  The routing of an error; the variants that are only ever returned to API callers make
  \<open>mapping\<close> panic.
\<close>

fun DatatypeError_mapping :: "DatatypeError \<Rightarrow> (DatatypeErrorWithAction, unit) result" where
  "DatatypeError_mapping (SyncFailed m) =
     Ok (DatatypeErrorWithAction_new (SyncFailed m) RetryWithBackOff)"
| "DatatypeError_mapping (Internal m) = Ok (DatatypeErrorWithAction_new (Internal m) Disable)"
| "DatatypeError_mapping (ServerRejected r) =
     Ok (DatatypeErrorWithAction_new (ServerRejected r) Disable)"
| "DatatypeError_mapping ReadonlyViolation =
     Ok (DatatypeErrorWithAction_new ReadonlyViolation Disable)"
| "DatatypeError_mapping PushBufferExceededMaxMemSize =
     Ok (DatatypeErrorWithAction_new PushBufferExceededMaxMemSize RollbackTransaction)"
| "DatatypeError_mapping _ =
     Panic ''must not be routed through DatatypeError::mapping()''"

text \<open>\<open>Err(e.mapping())\<close>, and its use under \<open>map_err\<close>.\<close>

definition routed :: "DatatypeError \<Rightarrow> ('a, DatatypeErrorWithAction) result" where
  "routed e = (case DatatypeError_mapping e of
                 Ok d \<Rightarrow> Err d | Err _ \<Rightarrow> Panic '''' | Panic m \<Rightarrow> Panic m)"

fun route_err :: "('a, DatatypeError) result \<Rightarrow> ('a, DatatypeErrorWithAction) result" where
  "route_err (Ok v) = Ok v"
| "route_err (Err e) = routed e"
| "route_err (Panic m) = Panic m"

fun InternalReason_mapping :: "InternalReason \<Rightarrow> (DatatypeErrorWithAction, unit) result" where
  "InternalReason_mapping NonSequentialCseq =
     Ok (DatatypeErrorWithAction_new (into_error NonSequentialCseq) RollbackTransaction)"
| "InternalReason_mapping r = DatatypeError_mapping (into_error r)"

definition routed_reason :: "InternalReason \<Rightarrow> ('a, DatatypeErrorWithAction) result" where
  "routed_reason r = (case InternalReason_mapping r of
                        Ok d \<Rightarrow> Err d | Err _ \<Rightarrow> Panic '''' | Panic m \<Rightarrow> Panic m)"

text \<open>Equality of errors compares the discriminant only; the codes are the declared ones.\<close>

fun DatatypeError_code :: "DatatypeError \<Rightarrow> int" where
  "DatatypeError_code (TransactionFailed _) = 201"
| "DatatypeError_code (Internal _) = 202"
| "DatatypeError_code (Disallowed _) = 205"
| "DatatypeError_code (NotWritable _) = 206"
| "DatatypeError_code ReadonlyViolation = 207"
| "DatatypeError_code (SyncFailed _) = 210"
| "DatatypeError_code PushBufferExceededMaxMemSize = 211"
| "DatatypeError_code (ServerRejected _) = 213"

definition DatatypeError_eq :: "DatatypeError \<Rightarrow> DatatypeError \<Rightarrow> bool" where
  "DatatypeError_eq a b = (DatatypeError_code a = DatatypeError_code b)"

subsection \<open>Wire errors (errors/push\_pull.rs)\<close>

datatype PushPullError =
  PPE_ProtocolViolation string
| PPE_ReadonlyViolation
| PPE_CreateFailed string
| PPE_ResourceNotFound string
| PPE_MissingSubscription string
| PPE_ServerInternalError string

fun PushPullError_to_datatype_error :: "PushPullError \<Rightarrow> DatatypeError" where
  "PushPullError_to_datatype_error (PPE_ProtocolViolation m) =
     ServerRejected (Rejected_ProtocolViolation m)"
| "PushPullError_to_datatype_error PPE_ReadonlyViolation = ReadonlyViolation"
| "PushPullError_to_datatype_error (PPE_CreateFailed m) = ServerRejected (Rejected_CreateFailed m)"
| "PushPullError_to_datatype_error (PPE_ResourceNotFound m) =
     ServerRejected (Rejected_ResourceNotFound m)"
| "PushPullError_to_datatype_error (PPE_MissingSubscription m) =
     ServerRejected (Rejected_MissingSubscription m)"
| "PushPullError_to_datatype_error (PPE_ServerInternalError m) = SyncFailed m"

fun PushPullError_display :: "PushPullError \<Rightarrow> string" where
  "PushPullError_display (PPE_ProtocolViolation m) =
     ''[PushPullError] protocol violation - '' @ m"
| "PushPullError_display PPE_ReadonlyViolation =
     ''[PushPullError] readonly client attempted write operation''"
| "PushPullError_display (PPE_CreateFailed m) = ''[PushPullError] fail to create - '' @ m"
| "PushPullError_display (PPE_ResourceNotFound m) = ''[PushPullError] resource not found - '' @ m"
| "PushPullError_display (PPE_MissingSubscription m) =
     ''[PushPullError] client's datatype is not subscribed on this server - '' @ m"
| "PushPullError_display (PPE_ServerInternalError m) =
     ''[PushPullError] server internal error - '' @ m"

subsection \<open>Connectivity errors (errors/connectivity.rs)\<close>

datatype ConnectivityError = TimedOut string

fun ConnectivityError_display :: "ConnectivityError \<Rightarrow> string" where
  "ConnectivityError_display (TimedOut m) = ''[ConnectivityError] connection timed out: '' @ m"

fun ConnectivityError_to_datatype_error :: "ConnectivityError \<Rightarrow> DatatypeError" where
  "ConnectivityError_to_datatype_error (TimedOut m) =
     SyncFailed (ConnectivityError_display (TimedOut m))"

subsection \<open>Client errors (errors/clients.rs)\<close>

datatype ClientError =
  InvalidCollectionName string
| FailedToSubscribeOrCreateDatatype string

fun ClientError_code :: "ClientError \<Rightarrow> int" where
  "ClientError_code (InvalidCollectionName _) = 100"
| "ClientError_code (FailedToSubscribeOrCreateDatatype _) = 101"

definition ClientError_eq :: "ClientError \<Rightarrow> ClientError \<Rightarrow> bool" where
  "ClientError_eq a b = (ClientError_code a = ClientError_code b)"

subsection \<open>Lemmas\<close>

lemma routed_simps [simp]:
  "routed (SyncFailed m) = Err (DatatypeErrorWithAction_new (SyncFailed m) RetryWithBackOff)"
  "routed (Internal m) = Err (DatatypeErrorWithAction_new (Internal m) Disable)"
  "routed (ServerRejected r) = Err (DatatypeErrorWithAction_new (ServerRejected r) Disable)"
  "routed ReadonlyViolation = Err (DatatypeErrorWithAction_new ReadonlyViolation Disable)"
  "routed PushBufferExceededMaxMemSize =
     Err (DatatypeErrorWithAction_new PushBufferExceededMaxMemSize RollbackTransaction)"
  "routed (into_error i) = Err (DatatypeErrorWithAction_new (into_error i) Disable)"
  by (simp_all add: routed_def into_error_def)

lemma routed_reason_simps [simp]:
  "routed_reason NonSequentialCseq =
     Err (DatatypeErrorWithAction_new (into_error NonSequentialCseq) RollbackTransaction)"
  by (simp add: routed_reason_def)

lemma routed_neq_Ok [simp]: "routed e \<noteq> Ok v"
  by (cases e) (auto simp: routed_def)

lemma route_err_Ok [simp]: "route_err r = Ok v \<longleftrightarrow> r = Ok v"
  by (cases r) auto

lemma dewa_simps [simp]:
  "dewa_error (DatatypeErrorWithAction_new e r) = e"
  "dewa_recovery (DatatypeErrorWithAction_new e r) = r"
  by (simp_all add: DatatypeErrorWithAction_new_def)

lemma route_err_Err:
  "route_err (r :: ('a, DatatypeError) result) = Err d \<longleftrightarrow>
     (\<exists>e. r = Err e \<and> (routed e :: ('a, DatatypeErrorWithAction) result) = Err d)"
  by (cases r) auto

end
