(* ===== verification/Crdts.thy ===== *)
theory Crdts
  imports Operations Errors "HOL-Library.Multiset"
begin

unbundle bit_operations_syntax

text \<open>
  The CRDT layer (\<open>src/datatypes/crdts\<close>): the counter, the dispatching \<open>Crdt\<close>
  wrapper, their byte-level snapshots, and the two contracts the layers above rely on,
  reversibility (rollback by inverse operations) and commutativity (convergence).
\<close>

subsection \<open>CounterCrdt (crdts/counter\_crdt.rs)\<close>

datatype ReturnType = Return_None | Return_Counter i64

record CounterCrdt =
  cnt_value :: i64

definition CounterCrdt_default :: CounterCrdt where
  "CounterCrdt_default = \<lparr>cnt_value = 0\<rparr>"

definition CounterCrdt_increase_by :: "CounterCrdt \<Rightarrow> i64 \<Rightarrow> CounterCrdt \<times> i64" where
  "CounterCrdt_increase_by c v =
     (let c' = c\<lparr>cnt_value := cnt_value c + v\<rparr> in (c', cnt_value c'))"

fun CounterCrdt_execute_common_operation ::
  "CounterCrdt \<Rightarrow> Operation \<Rightarrow> CounterCrdt \<times> (ReturnType, DatatypeError) result" where
  "CounterCrdt_execute_common_operation c op =
     (case op_body op of
        CounterIncrease body \<Rightarrow>
          (let (c', ret) = CounterCrdt_increase_by c (delta body) in (c', Ok (Return_Counter ret)))
      | _ \<Rightarrow> (c, Panic ''not implemented''))"

fun CounterCrdt_execute_inverse_operation ::
  "CounterCrdt \<Rightarrow> Operation \<Rightarrow> CounterCrdt \<times> (ReturnType, DatatypeError) result" where
  "CounterCrdt_execute_inverse_operation c op =
     (case op_body op of
        CounterIncrease body \<Rightarrow>
          (let (c', ret) = CounterCrdt_increase_by c (- delta body) in (c', Ok (Return_Counter ret)))
      | _ \<Rightarrow> (c, Panic ''not implemented''))"

text \<open>\<open>i64::to_le_bytes\<close> and \<open>i64::from_le_bytes\<close> of the standard library.\<close>

definition to_le_bytes :: "i64 \<Rightarrow> u8 list" where
  "to_le_bytes w = map (\<lambda>i. ucast (drop_bit (8 * i) w)) [0..<8]"

definition from_le_bytes :: "u8 list \<Rightarrow> i64" where
  "from_le_bytes bs = foldr (\<lambda>b acc. ucast b OR push_bit 8 acc) bs 0"

definition CounterCrdt_to_bytes :: "CounterCrdt \<Rightarrow> u8 list" where
  "CounterCrdt_to_bytes c = to_le_bytes (cnt_value c)"

definition CounterCrdt_from_bytes :: "u8 list \<Rightarrow> CounterCrdt" where
  "CounterCrdt_from_bytes bs = \<lparr>cnt_value = from_le_bytes bs\<rparr>"

subsection \<open>Crdt (crdts/mod.rs)\<close>

datatype Crdt = Crdt_Counter CounterCrdt

fun Crdt_new :: "DataType \<Rightarrow> (Crdt, unit) result" where
  "Crdt_new Type_Counter = Ok (Crdt_Counter CounterCrdt_default)"
| "Crdt_new _ = Panic ''invalid type''"

fun Crdt_lift ::
  "(CounterCrdt \<Rightarrow> Operation \<Rightarrow> CounterCrdt \<times> (ReturnType, DatatypeError) result) \<Rightarrow>
   Crdt \<Rightarrow> Operation \<Rightarrow> Crdt \<times> (ReturnType, DatatypeError) result" where
  "Crdt_lift f (Crdt_Counter c) op = (let (c', r) = f c op in (Crdt_Counter c', r))"

fun run_delay :: "Delay4TestBody \<Rightarrow> (ReturnType, DatatypeError) result" where
  "run_delay body =
     (case Delay4TestBody_run body of
        Ok _ \<Rightarrow> Ok Return_None
      | Err _ \<Rightarrow> Err (into_error (ExecuteOperation ''''))
      | Panic m \<Rightarrow> Panic m)"

definition Crdt_execute_local_operation ::
  "Crdt \<Rightarrow> Operation \<Rightarrow> Crdt \<times> (ReturnType, DatatypeError) result" where
  "Crdt_execute_local_operation self op =
     (case op_body op of
        Delay4Test body \<Rightarrow> (self, run_delay body)
      | _ \<Rightarrow> Crdt_lift CounterCrdt_execute_common_operation self op)"

definition Crdt_execute_remote_operation ::
  "Crdt \<Rightarrow> Operation \<Rightarrow> Crdt \<times> (ReturnType, DatatypeError) result" where
  "Crdt_execute_remote_operation self op =
     (case op_body op of
        Delay4Test body \<Rightarrow> (self, run_delay body)
      | _ \<Rightarrow> Crdt_lift CounterCrdt_execute_common_operation self op)"

definition Crdt_execute_inverse_operation ::
  "Crdt \<Rightarrow> Operation \<Rightarrow> Crdt \<times> (ReturnType, DatatypeError) result" where
  "Crdt_execute_inverse_operation self op =
     Crdt_lift CounterCrdt_execute_inverse_operation self op"

fun Crdt_serialize :: "Crdt \<Rightarrow> u8 list" where
  "Crdt_serialize (Crdt_Counter c) = CounterCrdt_to_bytes c"

fun Crdt_deserialize :: "Crdt \<Rightarrow> u8 list \<Rightarrow> Crdt \<times> (unit, DatatypeError) result" where
  "Crdt_deserialize (Crdt_Counter c) serialized =
     (if length serialized \<noteq> 8
      then (Crdt_Counter c,
            Err (into_error (Deserialize
              (''counter crdt: expected 8 bytes, got '' @ show_nat (length serialized)))))
      else (Crdt_Counter (CounterCrdt_from_bytes serialized), Ok ()))"

subsection \<open>What the layers above use\<close>

fun crdt_value :: "Crdt \<Rightarrow> i64" where
  "crdt_value (Crdt_Counter c) = cnt_value c"

definition counter_op :: "Operation \<Rightarrow> bool" where
  "counter_op op = (case op_body op of CounterIncrease _ \<Rightarrow> True | _ \<Rightarrow> False)"

definition op_delta :: "Operation \<Rightarrow> i64" where
  "op_delta op = (case op_body op of CounterIncrease b \<Rightarrow> delta b | _ \<Rightarrow> 0)"

definition ops_delta :: "Operation list \<Rightarrow> i64" where
  "ops_delta ops = sum_list (map op_delta ops)"

definition crdt_apply :: "Operation \<Rightarrow> Crdt \<Rightarrow> Crdt" where
  "crdt_apply op c = fst (Crdt_execute_remote_operation c op)"

definition crdt_undo :: "Operation \<Rightarrow> Crdt \<Rightarrow> Crdt" where
  "crdt_undo op c = fst (Crdt_execute_inverse_operation c op)"

subsection \<open>Contract: operations that can be undone\<close>

locale reversible_ops =
  fixes run :: "'op \<Rightarrow> 's \<Rightarrow> 's" and undo :: "'op \<Rightarrow> 's \<Rightarrow> 's" and ok :: "'op \<Rightarrow> bool"
  assumes undo_run: "ok op \<Longrightarrow> undo op (run op s) = s"
begin

lemma undo_all: "list_all ok ops \<Longrightarrow> fold undo (rev ops) (fold run ops s) = s"
  by (induction ops arbitrary: s) (auto simp: undo_run)

end

subsection \<open>Contract: operations that commute\<close>

locale commutative_ops =
  fixes run :: "'op \<Rightarrow> 's \<Rightarrow> 's"
  assumes run_commute: "run a (run b s) = run b (run a s)"
begin

lemma fold_run_one: "fold run xs (run a s) = run a (fold run xs s)"
proof (induction xs arbitrary: s)
  case (Cons x xs)
  have "fold run (x # xs) (run a s) = fold run xs (run a (run x s))"
    by (simp add: run_commute [of x a])
  then show ?case by (simp add: Cons.IH)
qed simp

lemma fold_run_mset: "mset xs = mset ys \<Longrightarrow> fold run xs s = fold run ys s"
proof (induction xs arbitrary: ys s)
  case (Cons x xs)
  then have "x \<in> set ys" by (metis list.set_intros(1) mset_eq_setD)
  then obtain us vs where ys: "ys = us @ x # vs" by (meson split_list)
  with Cons.prems have "mset xs = mset (us @ vs)" by simp
  then have "fold run xs (run x s) = fold run (us @ vs) (run x s)" by (rule Cons.IH)
  with ys show ?case by (simp add: fold_run_one)
qed simp

end

locale replicated_ops = reversible_ops run undo ok + commutative_ops run
  for run :: "'op \<Rightarrow> 's \<Rightarrow> 's" and undo and ok
begin

text \<open>
  Undoing local operations is sound even when remote operations were applied in between:
  only the local ones are taken back.
\<close>

lemma undo_all_interleaved:
  assumes "list_all ok ls" and "mset zs = mset ls + mset rs"
  shows "fold undo (rev ls) (fold run zs s) = fold run rs s"
proof -
  have "fold run zs s = fold run (rs @ ls) s"
    using assms(2) by (intro fold_run_mset) simp
  with undo_all [OF assms(1)] show ?thesis by simp
qed

end

subsection \<open>The counter satisfies both contracts\<close>

lemma crdt_value_apply [simp]: "crdt_value (crdt_apply op c) = crdt_value c + op_delta op"
  by (cases c) (auto simp: crdt_apply_def Crdt_execute_remote_operation_def op_delta_def
      CounterCrdt_increase_by_def split: OperationBody.splits)

lemma crdt_value_undo:
  "counter_op op \<Longrightarrow> crdt_value (crdt_undo op c) = crdt_value c - op_delta op"
  by (cases c) (auto simp: crdt_undo_def Crdt_execute_inverse_operation_def op_delta_def
      counter_op_def CounterCrdt_increase_by_def split: OperationBody.splits)

lemma crdt_eq_iff: "c = c' \<longleftrightarrow> crdt_value c = crdt_value c'"
  by (cases c; cases c') auto

interpretation counter: replicated_ops crdt_apply crdt_undo counter_op
  by unfold_locales (auto simp: crdt_eq_iff crdt_value_undo)

lemma crdt_value_fold [simp]: "crdt_value (fold crdt_apply ops c) = crdt_value c + ops_delta ops"
  by (induction ops arbitrary: c) (auto simp: ops_delta_def add.assoc)

lemma ops_delta_simps [simp]:
  "ops_delta [] = 0" "ops_delta (xs @ ys) = ops_delta xs + ops_delta ys"
  "ops_delta (x # xs) = op_delta x + ops_delta xs"
  by (simp_all add: ops_delta_def)

lemma op_delta_set_lamport [simp]:
  "op_delta (set_lamport op l) = op_delta op" "counter_op (set_lamport op l) = counter_op op"
  by (simp_all add: op_delta_def counter_op_def)

lemma counter_op_new [simp]:
  "counter_op (new_counter_increase t d)" "op_delta (new_counter_increase t d) = d"
  by (simp_all add: counter_op_def op_delta_def new_counter_increase_def Operation_new_def)

lemma crdt_execute_counter_op:
  assumes "counter_op op"
  shows "Crdt_execute_local_operation c op =
           (crdt_apply op c, Ok (Return_Counter (crdt_value (crdt_apply op c))))"
    and "Crdt_execute_remote_operation c op =
           (crdt_apply op c, Ok (Return_Counter (crdt_value (crdt_apply op c))))"
    and "Crdt_execute_inverse_operation c op =
           (crdt_undo op c, Ok (Return_Counter (crdt_value (crdt_undo op c))))"
  using assms
  by (cases c; auto simp: Crdt_execute_local_operation_def Crdt_execute_remote_operation_def
      Crdt_execute_inverse_operation_def crdt_apply_def crdt_undo_def counter_op_def
      CounterCrdt_increase_by_def split: OperationBody.splits)+

subsection \<open>Byte-level snapshots\<close>

lemma bit_from_le_bytes:
  "bit (from_le_bytes bs) n \<longleftrightarrow> n < 64 \<and> n div 8 < length bs \<and> bit (bs ! (n div 8)) (n mod 8)"
proof (induction bs arbitrary: n)
  case (Cons b bs)
  have hd: "bit (from_le_bytes (b # bs)) n \<longleftrightarrow>
      n < 64 \<and> (bit b n \<or> 8 \<le> n \<and> bit (from_le_bytes bs) (n - 8))"
    by (auto simp: from_le_bytes_def bit_or_iff bit_push_bit_iff bit_ucast_iff)
  show ?case
  proof (cases "n < 8")
    case True
    then show ?thesis by (auto simp: hd)
  next
    case False
    then have "\<not> bit b n" using bit_imp_le_length [of b n] by auto
    moreover have "n div 8 = Suc ((n - 8) div 8)" and "n mod 8 = (n - 8) mod 8"
      using False by (simp_all add: le_div_geq le_mod_geq)
    ultimately show ?thesis using False by (auto simp: hd Cons.IH)
  qed
qed (simp add: from_le_bytes_def)

lemma to_le_bytes_length [simp]: "length (to_le_bytes w) = 8"
  by (simp add: to_le_bytes_def)

lemma bit_to_le_bytes:
  "i < 8 \<Longrightarrow> bit (to_le_bytes w ! i) j \<longleftrightarrow> j < 8 \<and> bit w (8 * i + j)"
  by (auto simp: to_le_bytes_def bit_ucast_iff bit_drop_bit_eq)

lemma from_to_le_bytes [simp]: "from_le_bytes (to_le_bytes w) = w"
proof (rule bit_eqI)
  fix n
  assume "possible_bit TYPE(64 word) n"
  then have n: "n < 64" by (simp add: possible_bit_word)
  then have "n div 8 < 8" by auto
  then show "bit (from_le_bytes (to_le_bytes w)) n = bit w n"
    using n by (simp add: bit_from_le_bytes bit_to_le_bytes)
qed

lemma to_from_le_bytes:
  assumes "length bs = 8"
  shows "to_le_bytes (from_le_bytes bs) = bs"
proof (rule nth_equalityI)
  fix i
  assume "i < length (to_le_bytes (from_le_bytes bs))"
  then have i: "i < 8" by simp
  show "to_le_bytes (from_le_bytes bs) ! i = bs ! i"
  proof (rule bit_eqI)
    fix j
    assume "possible_bit TYPE(8 word) j"
    then have j: "j < 8" by (simp add: possible_bit_word)
    with i have "8 * i + j < 64" and "(8 * i + j) div 8 = i" and "(8 * i + j) mod 8 = j" by auto
    then show "bit (to_le_bytes (from_le_bytes bs) ! i) j = bit (bs ! i) j"
      using i j assms by (simp add: bit_to_le_bytes bit_from_le_bytes)
  qed
qed (simp add: assms)

text \<open>
  C28: Snapshots round trip. What a counter serializes is read back as the same counter, whatever the
  state of the reader; every 8 bytes are the serialization of what is read from them; and anything
  else is refused with an error that leaves the reader unchanged.
\<close>

theorem counter_snapshot_roundtrip:
  "Crdt_deserialize c (Crdt_serialize c') = (c', Ok ()) \<and>
   (case Crdt_deserialize c bs of (d, r) \<Rightarrow>
      if length bs = 8 then r = Ok () \<and> Crdt_serialize d = bs else d = c \<and> (\<exists>e. r = Err e))"
  by (cases c; cases c')
    (auto simp: CounterCrdt_to_bytes_def CounterCrdt_from_bytes_def to_from_le_bytes)

end
