(* ===== verification/Push_Buffer.thy ===== *)
theory Push_Buffer
  imports Crdts
begin

text \<open>
  The memory-limited buffer of committed transactions that the server has not acknowledged
  (\<open>src/datatypes/push_buffer.rs\<close>), its invariant, and the contract its clients use.
\<close>

subsection \<open>MemoryPushBuffer\<close>

record MemoryPushBuffer =
  pb_transaction :: "Transaction list"
  pb_mem_size :: u64
  pb_option :: DatatypeOption
  pb_first_cseq :: u64
  pb_last_cseq :: u64

definition MemoryPushBuffer_new :: "DatatypeOption \<Rightarrow> MemoryPushBuffer" where
  "MemoryPushBuffer_new opt =
     \<lparr>pb_transaction = [], pb_mem_size = 0, pb_option = opt, pb_first_cseq = 0,
      pb_last_cseq = 0\<rparr>"

fun need_to_deque :: "Transaction option \<Rightarrow> u64 \<Rightarrow> bool" where
  "need_to_deque (Some tx) cseq = (tx_cseq tx \<le> cseq)"
| "need_to_deque None cseq = False"

definition enqueue ::
  "MemoryPushBuffer \<Rightarrow> Transaction \<Rightarrow>
   MemoryPushBuffer \<times> (unit, DatatypeErrorWithAction) result" where
  "enqueue self tx =
     (if pb_last_cseq self \<noteq> 0 \<and> pb_last_cseq self + 1 \<noteq> tx_cseq tx
      then (self, routed_reason NonSequentialCseq)
      else if pb_mem_size self + Transaction_size tx > max_mem_size_of_push_buffer (pb_option self)
      then (self, routed PushBufferExceededMaxMemSize)
      else (let s1 = (if pb_first_cseq self = 0 then self\<lparr>pb_first_cseq := tx_cseq tx\<rparr> else self);
                s2 = s1\<lparr>pb_last_cseq := tx_cseq tx\<rparr>;
                s3 = s2\<lparr>pb_mem_size := pb_mem_size s2 + Transaction_size tx\<rparr>
            in (s3\<lparr>pb_transaction := pb_transaction s3 @ [tx]\<rparr>, Ok ())))"

text \<open>The loop over the buffered transactions from the first one to push.\<close>

fun collect_pushing :: "u64 \<Rightarrow> u64 \<Rightarrow> Transaction list \<Rightarrow> Transaction list \<times> u64" where
  "collect_pushing max_mem_size total_size [] = ([], total_size)"
| "collect_pushing max_mem_size total_size (tx # txs) =
     (if total_size + Transaction_size tx > max_mem_size then ([], total_size)
      else (let (popped, total) = collect_pushing max_mem_size (total_size + Transaction_size tx) txs
            in (tx # popped, total)))"

definition get_pushing_transactions ::
  "MemoryPushBuffer \<Rightarrow> u64 \<Rightarrow> u64 \<Rightarrow> (Transaction list \<times> u64, DatatypeError) result" where
  "get_pushing_transactions self cseq max_mem_size =
     (if cseq = 0 \<or> cseq < pb_first_cseq self then Err (into_error GetPushingTransactions)
      else (let index = unat (cseq - pb_first_cseq self)
            in if length (pb_transaction self) \<le> index then Ok ([], 0)
               else Ok (collect_pushing max_mem_size 0 (drop index (pb_transaction self)))))"

text \<open>One round of the loop of \<open>deque\<close>: pop the front and move \<open>first_cseq\<close>.\<close>

definition deque_front :: "MemoryPushBuffer \<Rightarrow> MemoryPushBuffer" where
  "deque_front self =
     (case pb_transaction self of
        [] \<Rightarrow> self
      | tx # rest \<Rightarrow>
          (let s1 = self\<lparr>pb_transaction := rest, pb_mem_size := pb_mem_size self - Transaction_size tx\<rparr>
           in case rest of
                front # _ \<Rightarrow> s1\<lparr>pb_first_cseq := tx_cseq front\<rparr>
              | [] \<Rightarrow> s1\<lparr>pb_last_cseq := 0, pb_first_cseq := 0\<rparr>))"

definition front_tx :: "MemoryPushBuffer \<Rightarrow> Transaction option" where
  "front_tx self = (case pb_transaction self of [] \<Rightarrow> None | tx # _ \<Rightarrow> Some tx)"

function deque_loop ::
  "MemoryPushBuffer \<Rightarrow> u64 \<Rightarrow> Transaction list \<Rightarrow> MemoryPushBuffer \<times> Transaction list" where
  "deque_loop self upto_cseq ret =
     (if \<not> need_to_deque (front_tx self) upto_cseq then (self, ret)
      else deque_loop (deque_front self) upto_cseq (ret @ take 1 (pb_transaction self)))"
  by pat_completeness auto
termination
  by (relation "measure (\<lambda>(self, _, _). length (pb_transaction self))")
    (auto simp: front_tx_def deque_front_def Let_def split: list.splits)

declare deque_loop.simps [simp del]

definition deque :: "MemoryPushBuffer \<Rightarrow> u64 \<Rightarrow> MemoryPushBuffer \<times> Transaction list" where
  "deque self upto_cseq =
     (if upto_cseq < pb_first_cseq self then (self, [])
      else if upto_cseq > pb_last_cseq self
      then (self\<lparr>pb_transaction := [], pb_mem_size := 0, pb_first_cseq := 0, pb_last_cseq := 0\<rparr>,
            pb_transaction self)
      else deque_loop self upto_cseq [])"

definition PushBuffer_display :: "MemoryPushBuffer \<Rightarrow> string" where
  "PushBuffer_display self =
     ''PushBuffer(mem_size: '' @ show_u64 (pb_mem_size self) @ '', cseq: #'' @
     show_u64 (pb_first_cseq self) @ ''-#'' @ show_u64 (pb_last_cseq self) @ '' ['' @
     show_nat (length (pb_transaction self)) @ ''])''"

subsection \<open>Invariant\<close>

text \<open>
  The transactions carry consecutive sequence numbers from \<open>first_cseq\<close> to \<open>last_cseq\<close>,
  none of them 0, and the accounted memory is the sum of their sizes.
\<close>

fun consec :: "u64 \<Rightarrow> Transaction list \<Rightarrow> bool" where
  "consec c [] = True"
| "consec c (tx # txs) = (tx_cseq tx = c \<and> consec (c + 1) txs)"

definition pb_total :: "Transaction list \<Rightarrow> u64" where
  "pb_total txs = sum_list (map Transaction_size txs)"

definition pb_inv :: "MemoryPushBuffer \<Rightarrow> bool" where
  "pb_inv b =
     (pb_mem_size b = pb_total (pb_transaction b) \<and>
      (if pb_transaction b = [] then pb_first_cseq b = 0 \<and> pb_last_cseq b = 0
       else pb_first_cseq b \<noteq> 0 \<and> consec (pb_first_cseq b) (pb_transaction b) \<and>
            unat (pb_first_cseq b) + length (pb_transaction b) \<le> 2 ^ 64 \<and>
            unat (pb_last_cseq b) = unat (pb_first_cseq b) + length (pb_transaction b) - 1))"

text \<open>
  The memory bound, over the unbounded sizes: no wrap-around hides an overfull buffer.
\<close>

definition pb_bounded :: "MemoryPushBuffer \<Rightarrow> bool" where
  "pb_bounded b =
     (sum_list (map (\<lambda>t. unat (Transaction_size t)) (pb_transaction b)) = unat (pb_mem_size b) \<and>
      pb_mem_size b \<le> max_mem_size_of_push_buffer (pb_option b))"

subsection \<open>Contract of a push buffer\<close>

locale push_queue =
  fixes inv :: "'b \<Rightarrow> bool"
    and txs :: "'b \<Rightarrow> Transaction list"
    and enq :: "'b \<Rightarrow> Transaction \<Rightarrow> 'b \<times> (unit, DatatypeErrorWithAction) result"
    and get :: "'b \<Rightarrow> u64 \<Rightarrow> u64 \<Rightarrow> (Transaction list \<times> u64, DatatypeError) result"
    and deq :: "'b \<Rightarrow> u64 \<Rightarrow> 'b \<times> Transaction list"
  assumes enq_ok: "inv b \<Longrightarrow> tx_cseq tx \<noteq> 0 \<Longrightarrow> enq b tx = (b', Ok ()) \<Longrightarrow>
      inv b' \<and> txs b' = txs b @ [tx]"
    and enq_fail: "enq b tx = (b', r) \<Longrightarrow> r \<noteq> Ok () \<Longrightarrow> b' = b"
    and ascending: "inv b \<Longrightarrow> sorted_wrt (<) (map tx_cseq (txs b))"
    and get_ok: "inv b \<Longrightarrow> get b c n = Ok (ts, m) \<Longrightarrow>
      \<exists>k. ts = take k (filter (\<lambda>t. c \<le> tx_cseq t) (txs b))"
    and deq_ok: "inv b \<Longrightarrow> deq b c = (b', ts) \<Longrightarrow>
      inv b' \<and> ts = filter (\<lambda>t. tx_cseq t \<le> c) (txs b) \<and>
      txs b' = filter (\<lambda>t. c < tx_cseq t) (txs b)"
begin

lemma deq_partition:
  assumes "inv b" and "deq b c = (b', ts)"
  shows "ts @ txs b' = txs b"
proof -
  have "sorted_wrt (<) (map tx_cseq xs) \<Longrightarrow>
      filter (\<lambda>t. tx_cseq t \<le> c) xs @ filter (\<lambda>t. c < tx_cseq t) xs = xs" for xs
  proof (induction xs)
    case (Cons x xs)
    show ?case
    proof (cases "tx_cseq x \<le> c")
      case False
      with Cons.prems have "\<forall>t \<in> set xs. c < tx_cseq t" by auto
      then have "filter (\<lambda>t. tx_cseq t \<le> c) xs = []" and "filter (\<lambda>t. c < tx_cseq t) xs = xs"
        by (auto simp: filter_empty_conv filter_id_conv)
      with False show ?thesis by simp
    qed (use Cons in auto)
  qed simp
  with assms deq_ok ascending show ?thesis by metis
qed

text \<open>Dropping what the server acknowledged never changes what is pushed next.\<close>

lemma deq_keeps_unacked:
  assumes "inv b" and "deq b c = (b', ts)" and "c < d"
  shows "filter (\<lambda>t. d \<le> tx_cseq t) (txs b') = filter (\<lambda>t. d \<le> tx_cseq t) (txs b)"
proof -
  have "txs b' = filter (\<lambda>t. c < tx_cseq t) (txs b)" using assms(1,2) deq_ok by blast
  moreover have "(c < tx_cseq t \<and> d \<le> tx_cseq t) = (d \<le> tx_cseq t)" for t
    using assms(3) by auto
  ultimately show ?thesis by (auto intro: filter_cong)
qed

lemma get_ascending:
  assumes "inv b" and "get b c n = Ok (ts, m)"
  shows "sorted_wrt (<) (map tx_cseq ts) \<and> (\<forall>t \<in> set ts. c \<le> tx_cseq t)"
proof -
  obtain k where "ts = take k (filter (\<lambda>t. c \<le> tx_cseq t) (txs b))"
    using get_ok [OF assms] by blast
  with ascending [OF assms(1)] show ?thesis
    by (auto simp: sorted_wrt_map sorted_wrt_filter sorted_wrt_take dest: in_set_takeD)
qed

end

subsection \<open>Lemmas on consecutive runs\<close>

lemma consec_append: "consec c (xs @ ys) \<longleftrightarrow> consec c xs \<and> consec (c + of_nat (length xs)) ys"
  by (induction xs arbitrary: c) (auto simp: algebra_simps)

lemma consec_tail_bound:
  fixes c :: u64
  assumes "unat c + length (x # xs) \<le> 2 ^ 64" and "xs \<noteq> []"
  shows "unat (c + 1) = Suc (unat c)" and "unat (c + 1) + length xs \<le> 2 ^ 64"
proof -
  obtain y ys where "xs = y # ys" using assms(2) by (cases xs) auto
  then have "Suc (unat c) < 2 ^ 64" using assms(1) by simp
  then show *: "unat (c + 1) = Suc (unat c)" by (rule unat_plus_one_small)
  show "unat (c + 1) + length xs \<le> 2 ^ 64" using assms(1) by (simp add: *)
qed

lemma consec_ge:
  "consec c xs \<Longrightarrow> unat c + length xs \<le> 2 ^ 64 \<Longrightarrow> t \<in> set xs \<Longrightarrow> c \<le> tx_cseq t"
proof (induction xs arbitrary: c)
  case (Cons x xs)
  show ?case
  proof (cases "t = x")
    case False
    then have t: "t \<in> set xs" and ne: "xs \<noteq> []" using Cons.prems by auto
    have "c + 1 \<le> tx_cseq t"
      using Cons consec_tail_bound(2) [OF Cons.prems(2) ne] t by simp
    moreover have "c \<le> c + 1"
      using consec_tail_bound(1) [OF Cons.prems(2) ne] by (simp add: word_le_nat_alt)
    ultimately show ?thesis by (rule order_trans [rotated])
  qed (use Cons in simp)
qed simp

lemma consec_less:
  assumes "consec c (x # xs)" and "unat c + length (x # xs) \<le> 2 ^ 64" and "t \<in> set xs"
  shows "c < tx_cseq t"
proof -
  have ne: "xs \<noteq> []" using assms(3) by auto
  have "c + 1 \<le> tx_cseq t"
    by (rule consec_ge [OF _ consec_tail_bound(2) [OF assms(2) ne] assms(3)]) (use assms(1) in simp)
  moreover have "c < c + 1"
    using consec_tail_bound(1) [OF assms(2) ne] by (simp add: word_less_nat_alt)
  ultimately show ?thesis by (rule order_less_le_trans [rotated])
qed

lemma consec_sorted:
  "consec c xs \<Longrightarrow> unat c + length xs \<le> 2 ^ 64 \<Longrightarrow> sorted_wrt (<) (map tx_cseq xs)"
proof (induction xs arbitrary: c)
  case (Cons x xs)
  show ?case
  proof (cases "xs = []")
    case False
    have "sorted_wrt (<) (map tx_cseq xs)"
      by (rule Cons.IH [OF _ consec_tail_bound(2) [OF Cons.prems(2) False]]) (use Cons.prems(1) in simp)
    with Cons.prems consec_less show ?thesis by auto
  qed simp
qed simp

lemma filter_ge_drop:
  "consec c xs \<Longrightarrow> unat c + length xs \<le> 2 ^ 64 \<Longrightarrow> c \<le> d \<Longrightarrow>
   filter (\<lambda>t. d \<le> tx_cseq t) xs = drop (unat (d - c)) xs"
proof (induction xs arbitrary: c)
  case (Cons x xs)
  show ?case
  proof (cases "d = c")
    case True
    then have "\<forall>t \<in> set (x # xs). d \<le> tx_cseq t" using Cons.prems consec_ge by blast
    then show ?thesis using True by (simp add: filter_id_conv)
  next
    case False
    with Cons.prems(3) have less: "c < d" by simp
    then have le: "c + 1 \<le> d" by (rule inc_le)
    have eq: "unat (d - c) = Suc (unat (d - (c + 1)))"
      using less le by unat_arith
    have tl: "filter (\<lambda>t. d \<le> tx_cseq t) xs = drop (unat (d - (c + 1))) xs"
    proof (cases "xs = []")
      case ne: False
      show ?thesis
        by (rule Cons.IH [OF _ consec_tail_bound(2) [OF Cons.prems(2) ne] le])
          (use Cons.prems(1) in simp)
    qed simp
    have "\<not> d \<le> tx_cseq x" using less Cons.prems(1) by simp
    with tl show ?thesis by (simp add: eq)
  qed
qed simp

lemma collect_pushing_take: "\<exists>k. fst (collect_pushing m t xs) = take k xs"
proof (induction xs arbitrary: t)
  case (Cons x xs)
  show ?case
  proof (cases "m < t + Transaction_size x")
    case True
    then show ?thesis by (auto intro: exI [of _ 0])
  next
    case False
    obtain k where "fst (collect_pushing m (t + Transaction_size x) xs) = take k xs"
      using Cons.IH by blast
    with False show ?thesis
      by (auto simp: case_prod_beta Let_def intro!: exI [of _ "Suc k"])
  qed
qed simp

subsection \<open>The buffer keeps its invariant and meets the contract\<close>

lemma pb_inv_new [simp]: "pb_inv (MemoryPushBuffer_new opt)"
  by (simp add: pb_inv_def MemoryPushBuffer_new_def pb_total_def)

lemma pb_total_simps [simp]:
  "pb_total [] = 0" "pb_total (t # ts) = Transaction_size t + pb_total ts"
  "pb_total (xs @ ys) = pb_total xs + pb_total ys"
  by (simp_all add: pb_total_def)

lemma enqueue_Ok_iff:
  "enqueue b tx = (b', Ok ()) \<longleftrightarrow>
     (pb_last_cseq b = 0 \<or> pb_last_cseq b + 1 = tx_cseq tx) \<and>
     pb_mem_size b + Transaction_size tx \<le> max_mem_size_of_push_buffer (pb_option b) \<and>
     b' = b\<lparr>pb_transaction := pb_transaction b @ [tx],
           pb_mem_size := pb_mem_size b + Transaction_size tx,
           pb_first_cseq := (if pb_first_cseq b = 0 then tx_cseq tx else pb_first_cseq b),
           pb_last_cseq := tx_cseq tx\<rparr>"
  by (auto simp: enqueue_def Let_def not_less)

lemma enqueue_outcome:
  "(\<exists>b'. enqueue b tx = (b', Ok ())) \<or>
   enqueue b tx =
     (b, Err (DatatypeErrorWithAction_new (into_error NonSequentialCseq) RollbackTransaction)) \<or>
   enqueue b tx =
     (b, Err (DatatypeErrorWithAction_new PushBufferExceededMaxMemSize RollbackTransaction))"
  by (simp add: enqueue_def Let_def)

lemma enqueue_cases:
  obtains (ok) b' where "enqueue b tx = (b', Ok ())"
  | (failed) e where "enqueue b tx = (b, Err (DatatypeErrorWithAction_new e RollbackTransaction))"
      and "e = into_error NonSequentialCseq \<or> e = PushBufferExceededMaxMemSize"
  using enqueue_outcome [of b tx] by blast

lemma pb_inv_nonempty_last:
  assumes "pb_inv b" and "pb_transaction b \<noteq> []"
  shows "pb_last_cseq b \<noteq> 0"
    and "pb_last_cseq b + 1 = pb_first_cseq b + of_nat (length (pb_transaction b))"
proof -
  let ?n = "length (pb_transaction b)"
  have last: "unat (pb_last_cseq b) = unat (pb_first_cseq b) + ?n - 1" and "pb_first_cseq b \<noteq> 0"
    and n: "0 < ?n" using assms by (auto simp: pb_inv_def)
  then have "0 < unat (pb_first_cseq b)" by (simp add: unat_gt_0)
  with last n have "unat (pb_last_cseq b) \<noteq> 0" by linarith
  then show "pb_last_cseq b \<noteq> 0" by auto
  have "of_nat (Suc (unat (pb_last_cseq b))) = (of_nat (unat (pb_first_cseq b) + ?n) :: u64)"
    using last n by simp
  then show "pb_last_cseq b + 1 = pb_first_cseq b + of_nat ?n"
    by (simp add: algebra_simps)
qed

lemma pb_inv_enqueue [invar_intros]:
  assumes inv: "pb_inv b" and nz: "tx_cseq tx \<noteq> 0" and ok: "enqueue b tx = (b', Ok ())"
  shows "pb_inv b'"
proof (cases "pb_transaction b = []")
  case True
  then have z: "pb_first_cseq b = 0" "pb_last_cseq b = 0" "pb_mem_size b = 0"
    using inv by (auto simp: pb_inv_def)
  have "unat (tx_cseq tx) < 2 ^ 64" using unsigned_less [of "tx_cseq tx"] by simp
  with True z nz ok show ?thesis by (auto simp: enqueue_Ok_iff pb_inv_def)
next
  case False
  note last = pb_inv_nonempty_last [OF inv False]
  let ?n = "length (pb_transaction b)"
  from inv False have first: "pb_first_cseq b \<noteq> 0" "consec (pb_first_cseq b) (pb_transaction b)"
    "unat (pb_last_cseq b) = unat (pb_first_cseq b) + ?n - 1" "pb_mem_size b = pb_total (pb_transaction b)"
    by (auto simp: pb_inv_def)
  have seq: "pb_last_cseq b + 1 = tx_cseq tx" using ok last by (auto simp: enqueue_Ok_iff)
  then have "unat (tx_cseq tx) = Suc (unat (pb_last_cseq b))"
    using nz by (metis unat_plus_one add.commute add_eq_0_iff minus_minus)
  then have len: "unat (tx_cseq tx) = unat (pb_first_cseq b) + ?n" using first False by (cases ?n) auto
  moreover have "unat (tx_cseq tx) < 2 ^ 64" using unsigned_less [of "tx_cseq tx"] by simp
  moreover have "tx_cseq tx = pb_first_cseq b + of_nat ?n" using seq last by simp
  ultimately show ?thesis using ok first
    by (auto simp: enqueue_Ok_iff pb_inv_def consec_append)
qed

lemma pb_inv_deque_front:
  assumes "pb_inv b" and "pb_transaction b = tx # rest"
  shows "pb_inv (deque_front b)" and "pb_transaction (deque_front b) = rest"
proof -
  show "pb_transaction (deque_front b) = rest"
    using assms by (auto simp: deque_front_def Let_def split: list.splits)
  show "pb_inv (deque_front b)"
  proof (cases rest)
    case Nil
    then show ?thesis using assms by (auto simp: pb_inv_def deque_front_def)
  next
    case (Cons y ys)
    let ?c = "pb_first_cseq b"
    from assms Cons have c: "consec ?c (tx # rest)" "unat ?c + length (tx # rest) \<le> 2 ^ 64" "rest \<noteq> []"
      and lst: "unat (pb_last_cseq b) = unat ?c + length (tx # rest) - 1"
      and mem: "pb_mem_size b = pb_total (tx # rest)"
      by (auto simp: pb_inv_def)
    note t = consec_tail_bound [OF c(2,3)]
    have "tx_cseq y = ?c + 1" using c Cons by simp
    moreover from this t(1) have "tx_cseq y \<noteq> 0" by auto
    ultimately show ?thesis using assms Cons c lst mem t
      by (auto simp: pb_inv_def deque_front_def)
  qed
qed

lemma deque_loop_correct:
  "pb_inv b \<Longrightarrow> deque_loop b u ret = (b', ts) \<Longrightarrow>
   pb_inv b' \<and> ts = ret @ filter (\<lambda>t. tx_cseq t \<le> u) (pb_transaction b) \<and>
   pb_transaction b' = filter (\<lambda>t. u < tx_cseq t) (pb_transaction b)"
proof (induction b u ret rule: deque_loop.induct)
  case (1 b u ret)
  show ?case
  proof (cases "need_to_deque (front_tx b) u")
    case False
    then have eq: "b' = b" "ts = ret" using "1.prems"(2) by (auto simp: deque_loop.simps [of b])
    have gt: "\<forall>t \<in> set (pb_transaction b). u < tx_cseq t"
    proof (cases "pb_transaction b")
      case (Cons x xs)
      with "1.prems"(1) have c: "consec (pb_first_cseq b) (x # xs)"
        "unat (pb_first_cseq b) + length (x # xs) \<le> 2 ^ 64" by (auto simp: pb_inv_def)
      have "u < pb_first_cseq b" using False Cons c(1) by (auto simp: front_tx_def)
      with Cons consec_ge [OF c] show ?thesis by (auto intro: order_less_le_trans)
    qed simp
    then have "filter (\<lambda>t. tx_cseq t \<le> u) (pb_transaction b) = []"
      and "filter (\<lambda>t. u < tx_cseq t) (pb_transaction b) = pb_transaction b"
      by (auto simp: filter_empty_conv filter_id_conv leD)
    with eq "1.prems"(1) show ?thesis by simp
  next
    case True
    then obtain x xs where b: "pb_transaction b = x # xs" and x: "tx_cseq x \<le> u"
      by (cases "pb_transaction b") (auto simp: front_tx_def)
    have "deque_loop (deque_front b) u (ret @ take 1 (pb_transaction b)) = (b', ts)"
      using "1.prems"(2) True by (simp add: deque_loop.simps [of b])
    from "1.IH" [OF _ pb_inv_deque_front(1) [OF "1.prems"(1) b] this]
    show ?thesis using True b x pb_inv_deque_front(2) [OF "1.prems"(1) b] by auto
  qed
qed

lemma consec_le_last:
  assumes "consec c xs" and "unat c + length xs \<le> 2 ^ 64"
    and "unat (l :: u64) = unat c + length xs - 1" and "t \<in> set xs"
  shows "tx_cseq t \<le> l"
  using assms
proof (induction xs arbitrary: c)
  case (Cons x xs)
  show ?case
  proof (cases "t \<in> set xs")
    case True
    then have ne: "xs \<noteq> []" by auto
    note b = consec_tail_bound [OF Cons.prems(2) ne]
    show ?thesis
      by (rule Cons.IH [OF _ b(2) _ True]) (use Cons.prems b(1) in simp_all)
  qed (use Cons.prems in \<open>auto simp: word_le_nat_alt\<close>)
qed simp

lemma get_pushing_prefix:
  assumes inv: "pb_inv b" and get: "get_pushing_transactions b c n = Ok (ts, m)"
  shows "\<exists>k. ts = take k (filter (\<lambda>t. c \<le> tx_cseq t) (pb_transaction b))"
proof (cases "pb_transaction b = []")
  case True
  with get show ?thesis by (auto simp: get_pushing_transactions_def Let_def split: if_splits)
next
  case False
  let ?i = "unat (c - pb_first_cseq b)"
  from get have le: "pb_first_cseq b \<le> c"
    by (auto simp: get_pushing_transactions_def split: if_splits)
  have eq: "filter (\<lambda>t. c \<le> tx_cseq t) (pb_transaction b) = drop ?i (pb_transaction b)"
    by (rule filter_ge_drop [OF _ _ le]) (use inv False in \<open>auto simp: pb_inv_def\<close>)
  obtain k where k: "fst (collect_pushing n 0 (drop ?i (pb_transaction b))) =
      take k (drop ?i (pb_transaction b))"
    using collect_pushing_take by blast
  have "ts = [] \<or> ts = fst (collect_pushing n 0 (drop ?i (pb_transaction b)))"
    using get by (auto simp: get_pushing_transactions_def Let_def split: if_splits)
  with k eq show ?thesis by (metis take0)
qed

lemma pb_inv_deque:
  assumes inv: "pb_inv b" and d: "deque b u = (b', ts)"
  shows "pb_inv b' \<and> ts = filter (\<lambda>t. tx_cseq t \<le> u) (pb_transaction b) \<and>
         pb_transaction b' = filter (\<lambda>t. u < tx_cseq t) (pb_transaction b)"
proof (cases "pb_transaction b")
  case Nil
  with inv d show ?thesis
    by (auto simp: deque_def pb_inv_def deque_loop.simps [of b] front_tx_def split: if_splits)
next
  case (Cons x xs)
  let ?c = "pb_first_cseq b"
  from inv Cons have c: "consec ?c (pb_transaction b)"
    "unat ?c + length (pb_transaction b) \<le> 2 ^ 64"
    and lst: "unat (pb_last_cseq b) = unat ?c + length (pb_transaction b) - 1"
    by (auto simp: pb_inv_def)
  have "u < ?c \<Longrightarrow> \<forall>t \<in> set (pb_transaction b). u < tx_cseq t"
    using consec_ge [OF c] by (auto intro: order_less_le_trans)
  then have none: "u < ?c \<Longrightarrow> filter (\<lambda>t. tx_cseq t \<le> u) (pb_transaction b) = [] \<and>
      filter (\<lambda>t. u < tx_cseq t) (pb_transaction b) = pb_transaction b"
    by (auto simp: filter_empty_conv filter_id_conv leD)
  have upper: "tx_cseq t \<le> pb_last_cseq b" if "t \<in> set (pb_transaction b)" for t
    using c lst that by (rule consec_le_last)
  then have all: "pb_last_cseq b < u \<Longrightarrow> filter (\<lambda>t. tx_cseq t \<le> u) (pb_transaction b) = pb_transaction b \<and>
      filter (\<lambda>t. u < tx_cseq t) (pb_transaction b) = []"
    by (auto simp: filter_empty_conv filter_id_conv dest!: upper)
  show ?thesis using inv d none all deque_loop_correct [OF inv, of u "[]" b' ts]
    by (auto simp: deque_def pb_inv_def split: if_splits)
qed

interpretation pq: push_queue pb_inv pb_transaction enqueue get_pushing_transactions deque
proof (unfold_locales, goal_cases)
  case (1 b tx b')
  then show ?case by (auto intro: pb_inv_enqueue simp: enqueue_Ok_iff)
next
  case (2 b tx b' r)
  then show ?case by (cases rule: enqueue_cases [of b tx]) auto
next
  case (3 b)
  then show ?case by (cases "pb_transaction b = []") (auto simp: pb_inv_def intro: consec_sorted)
next
  case (4 b c n ts m)
  show ?case by (rule get_pushing_prefix [OF 4])
next
  case (5 b c b' ts)
  then show ?case by (rule pb_inv_deque)
qed

subsection \<open>What a push takes out of the buffer\<close>

lemma collect_pushing_total: "snd (collect_pushing m t xs) = t + pb_total (fst (collect_pushing m t xs))"
  by (induction xs arbitrary: t) (auto simp: case_prod_beta Let_def algebra_simps)

lemma collect_pushing_within: "t \<le> m \<Longrightarrow> snd (collect_pushing m t xs) \<le> m"
  by (induction xs arbitrary: t) (auto simp: case_prod_beta Let_def)

lemma collect_pushing_maximal:
  "fst (collect_pushing m t xs) = xs \<or>
   (\<exists>us x vs. xs = us @ x # vs \<and> fst (collect_pushing m t xs) = us \<and>
      m < snd (collect_pushing m t xs) + Transaction_size x)"
proof (induction xs arbitrary: t)
  case (Cons x xs)
  show ?case
  proof (cases "m < t + Transaction_size x")
    case True
    then show ?thesis by auto
  next
    case False
    let ?r = "collect_pushing m (t + Transaction_size x) xs"
    have step: "fst (collect_pushing m t (x # xs)) = x # fst ?r"
      "snd (collect_pushing m t (x # xs)) = snd ?r"
      using False by (simp_all add: case_prod_beta Let_def)
    from Cons.IH [of "t + Transaction_size x"] show ?thesis
    proof (elim disjE exE conjE)
      fix us y vs
      assume "xs = us @ y # vs" "fst ?r = us" "m < snd ?r + Transaction_size y"
      then show ?thesis unfolding step by (intro disjI2 exI [of _ "x # us"]) auto
    qed (unfold step, simp)
  qed
qed simp

subsection \<open>Properties\<close>

definition ex_tx :: "u64 \<Rightarrow> i64 \<Rightarrow> Transaction" where
  "ex_tx n d = push_operation (Transaction_new Uid_new_nil n) (new_counter_increase 0 d)"

definition ex_buffer :: MemoryPushBuffer where
  "ex_buffer =
     fst (enqueue (fst (enqueue (MemoryPushBuffer_new \<lparr>max_mem_size_of_push_buffer = 300\<rparr>)
       (ex_tx 1 5))) (ex_tx 2 7))"

lemma ex_tx_simps [simp]:
  "Transaction_size (ex_tx n d) = 113" "tx_cseq (ex_tx n d) = n" "tx_sseq (ex_tx n d) = 0"
  "tx_cuid (ex_tx n d) = Uid_new_nil" "tx_operations (ex_tx n d) = [new_counter_increase 0 d]"
  by (simp_all add: ex_tx_def Transaction_size_push Transaction_size_new TRANSACTION_CONSTANT_SIZE_def
      UID_LEN_def Operation_size_def new_counter_increase_def Operation_new_def
      CounterIncreaseBody_size_def)

lemma ex_buffer_eq:
  "ex_buffer =
     \<lparr>pb_transaction = [ex_tx 1 5, ex_tx 2 7], pb_mem_size = 226,
      pb_option = \<lparr>max_mem_size_of_push_buffer = 300\<rparr>, pb_first_cseq = 1, pb_last_cseq = 2\<rparr>"
  by (simp add: ex_buffer_def enqueue_def MemoryPushBuffer_new_def)

lemma ex_buffer_inv: "pb_inv ex_buffer" "pb_bounded ex_buffer"
  by (simp_all add: ex_buffer_eq pb_inv_def pb_bounded_def)

text \<open>
  C24: Pushing. For a well-formed buffer and a sequence number within its reach,
  \<open>get_pushing_transactions\<close> succeeds and returns a prefix of the transactions numbered
  from \<open>cseq\<close> on; the reported size is the sum of their sizes and stays within the
  transmission limit; and the prefix is maximal: it is everything, or the next transaction
  would exceed the limit.
\<close>

theorem get_pushing_transactions_correct:
  assumes inv: "pb_inv b" and c: "cseq \<noteq> 0" "pb_first_cseq b \<le> cseq"
  shows "\<exists>ts rest.
    get_pushing_transactions b cseq max_size = Ok (ts, pb_total ts) \<and>
    ts @ rest = filter (\<lambda>t. cseq \<le> tx_cseq t) (pb_transaction b) \<and>
    pb_total ts \<le> max_size \<and>
    (rest = [] \<or> max_size < pb_total ts + Transaction_size (hd rest))"
proof (cases "pb_transaction b = []")
  case True
  with inv c show ?thesis
    by (auto simp: get_pushing_transactions_def Let_def)
next
  case False
  let ?xs = "drop (unat (cseq - pb_first_cseq b)) (pb_transaction b)"
  have eq: "filter (\<lambda>t. cseq \<le> tx_cseq t) (pb_transaction b) = ?xs"
    by (rule filter_ge_drop [OF _ _ c(2)]) (use inv False in \<open>auto simp: pb_inv_def\<close>)
  let ?r = "collect_pushing max_size 0 ?xs"
  have get: "get_pushing_transactions b cseq max_size = Ok (fst ?r, snd ?r)"
    using c by (auto simp: get_pushing_transactions_def Let_def not_less)
  note facts = collect_pushing_total [of max_size 0 ?xs] collect_pushing_within [of 0 max_size ?xs]
  from collect_pushing_maximal [of max_size 0 ?xs] show ?thesis
  proof (elim disjE exE conjE)
    assume "fst ?r = ?xs"
    then show ?thesis using get eq facts by (intro exI [of _ ?xs] exI [of _ "[]"]) auto
  next
    fix us x vs
    assume "?xs = us @ x # vs" "fst ?r = us" "max_size < snd ?r + Transaction_size x"
    then show ?thesis using get eq facts by (intro exI [of _ us] exI [of _ "x # vs"]) auto
  qed
qed

theorem get_pushing_transactions_correct_witness:
  "pb_inv ex_buffer \<and>
   (\<exists>ts rest.
     get_pushing_transactions ex_buffer 2 113 = Ok (ts, pb_total ts) \<and>
     ts @ rest = filter (\<lambda>t. 2 \<le> tx_cseq t) (pb_transaction ex_buffer) \<and>
     pb_total ts \<le> 113 \<and> (rest = [] \<or> 113 < pb_total ts + Transaction_size (hd rest)))"
proof -
  have "(2 :: u64) \<noteq> 0" and "pb_first_cseq ex_buffer \<le> 2" by (simp_all add: ex_buffer_eq)
  from get_pushing_transactions_correct [OF ex_buffer_inv(1) this, of 113] ex_buffer_inv(1)
  show ?thesis by blast
qed

text \<open>
  Acknowledging. Dequeuing up to an acknowledged sequence number splits the buffer in
  place: what is returned followed by what stays is the old content, the invariant is kept,
  and every later push from beyond the acknowledged number reads exactly the same
  transactions as before.
\<close>

lemma deque_acknowledges:
  assumes "pb_inv b" and "deque b acked = (b', ts)"
  shows "pb_inv b' \<and> ts @ pb_transaction b' = pb_transaction b \<and>
         (\<forall>t \<in> set ts. tx_cseq t \<le> acked) \<and>
         (\<forall>cseq. acked < cseq \<longrightarrow> filter (\<lambda>t. cseq \<le> tx_cseq t) (pb_transaction b') =
                                 filter (\<lambda>t. cseq \<le> tx_cseq t) (pb_transaction b))"
  using assms pq.deq_ok [OF assms] pq.deq_partition [OF assms] pq.deq_keeps_unacked [OF assms]
  by auto

lemma deque_acknowledges_witness:
  "pb_inv ex_buffer \<and> pb_inv (fst (deque ex_buffer 1)) \<and>
   snd (deque ex_buffer 1) @ pb_transaction (fst (deque ex_buffer 1)) = pb_transaction ex_buffer"
  using deque_acknowledges [OF ex_buffer_inv(1) prod.collapse [symmetric], of 1] ex_buffer_inv(1)
  by blast

text \<open>
  C25: Memory bound. A transaction whose size cannot wrap the accounting is either buffered,
  and then the unbounded sum of all buffered sizes stays within the configured limit, or
  refused with one of the two commit-path errors, and then the buffer is unchanged.
\<close>

theorem enqueue_respects_limit:
  assumes bounded: "pb_bounded b"
    and fits: "unat (pb_mem_size b) + unat (Transaction_size tx) < 2 ^ 64"
    and enq: "enqueue b tx = (b', r)"
  shows "pb_bounded b' \<and>
    (r = Ok () \<and> pb_transaction b' = pb_transaction b @ [tx] \<or>
     (\<exists>e. r = Err (DatatypeErrorWithAction_new e RollbackTransaction)) \<and> b' = b)"
proof (cases rule: enqueue_cases [of b tx])
  case (ok b2)
  have "unat (pb_mem_size b + Transaction_size tx) = unat (pb_mem_size b) + unat (Transaction_size tx)"
    using fits by (simp add: unat_add_lem [THEN iffD1])
  with ok enq bounded show ?thesis by (auto simp: enqueue_Ok_iff pb_bounded_def)
next
  case (failed e)
  with enq bounded show ?thesis by auto
qed

theorem enqueue_respects_limit_witness:
  "pb_bounded ex_buffer \<and> pb_bounded (fst (enqueue ex_buffer (ex_tx 3 1))) \<and>
   snd (enqueue ex_buffer (ex_tx 3 1)) \<noteq> Ok ()"
proof -
  have "unat (pb_mem_size ex_buffer) + unat (Transaction_size (ex_tx 3 1)) < 2 ^ 64"
    by (simp add: ex_buffer_eq)
  from enqueue_respects_limit [OF ex_buffer_inv(2) this prod.collapse [symmetric]] ex_buffer_inv(2)
  show ?thesis by (simp add: ex_buffer_eq enqueue_def)
qed

text \<open>A transaction larger than the transmission limit blocks the ones behind it.\<close>

lemma oversize_get_pushing:
  assumes "pb_inv b" and "cseq \<noteq> 0" "pb_first_cseq b \<le> cseq"
    and "filter (\<lambda>t. cseq \<le> tx_cseq t) (pb_transaction b) = tx # rest"
    and "max_size < Transaction_size tx"
  shows "get_pushing_transactions b cseq max_size = Ok ([], 0)"
proof -
  have "drop (unat (cseq - pb_first_cseq b)) (pb_transaction b) = tx # rest"
    using filter_ge_drop [OF _ _ assms(3)] assms(1,4)
    by (cases "pb_transaction b = []") (auto simp: pb_inv_def)
  then show ?thesis using assms(2,3,5)
    by (auto simp: get_pushing_transactions_def Let_def not_less)
qed

end
