(* ===== verification/Attributes.thy ===== *)
theory Attributes
  imports Push_Buffer
begin

text \<open>
  What all layers of one datatype share (\<open>clients/common.rs\<close>, \<open>datatypes/common.rs\<close>)
  and the user's event handlers (\<open>datatypes/handler.rs\<close>).

  Calls that leave the datatype (handler invocations spawned on the runtime, the detach
  request to the client's manager) are recorded as values of \<open>Effect\<close>, in order.
\<close>

subsection \<open>ClientCommon and Attribute\<close>

record ClientCommon =
  cc_collection :: string
  cc_cuid :: Cuid
  cc_alias :: string

text \<open>
  \<open>at_core\<close> is \<open>weak_transactional\<close> when it can be upgraded: the identity (address) of
  the live transactional datatype.
\<close>

record Attribute =
  at_key :: string
  at_type :: DataType
  at_duid :: Duid
  at_client_common :: ClientCommon
  at_option :: DatatypeOption
  at_is_readonly :: bool
  at_core :: "nat option"

definition Attribute_new ::
  "Duid \<Rightarrow> string \<Rightarrow> DataType \<Rightarrow> ClientCommon \<Rightarrow> DatatypeOption \<Rightarrow> bool \<Rightarrow> Attribute" where
  "Attribute_new fresh_duid key ty client_common opt is_readonly =
     \<lparr>at_key = key, at_type = ty, at_duid = fresh_duid, at_client_common = client_common,
      at_option = opt, at_is_readonly = is_readonly, at_core = None\<rparr>"

definition make_resource_id :: "string \<Rightarrow> string \<Rightarrow> string" where
  "make_resource_id collection key = collection @ ''/'' @ key"

definition Attribute_resource_id :: "Attribute \<Rightarrow> string" where
  "Attribute_resource_id attr =
     make_resource_id (cc_collection (at_client_common attr)) (at_key attr)"

definition get_cuid :: "Attribute \<Rightarrow> Cuid" where
  "get_cuid attr = cc_cuid (at_client_common attr)"

definition get_duid :: "Attribute \<Rightarrow> Duid" where
  "get_duid attr = at_duid attr"

definition set_duid :: "Attribute \<Rightarrow> Duid \<Rightarrow> Attribute" where
  "set_duid attr new_duid = attr\<lparr>at_duid := new_duid\<rparr>"

definition set_transactional :: "Attribute \<Rightarrow> nat \<Rightarrow> Attribute" where
  "set_transactional attr core_id = attr\<lparr>at_core := Some core_id\<rparr>"

definition get_datatype_set :: "Attribute \<Rightarrow> nat option" where
  "get_datatype_set attr =
     (case at_core attr of
        None \<Rightarrow> None
      | Some core \<Rightarrow> (case at_type attr of Type_Counter \<Rightarrow> Some core | _ \<Rightarrow> None))"

subsection \<open>Handlers\<close>

text \<open>A user callback is opaque to the library; it is named by a number, 0 the no-op.\<close>

type_synonym callback = nat

record DatatypeHandler =
  on_state_change :: callback
  on_error :: callback

definition DatatypeHandler_new :: DatatypeHandler where
  "DatatypeHandler_new = \<lparr>on_state_change = 0, on_error = 0\<rparr>"

definition set_on_state_change :: "DatatypeHandler \<Rightarrow> callback \<Rightarrow> DatatypeHandler" where
  "set_on_state_change h f = h\<lparr>on_state_change := f\<rparr>"

definition set_on_error :: "DatatypeHandler \<Rightarrow> callback \<Rightarrow> DatatypeHandler" where
  "set_on_error h f = h\<lparr>on_error := f\<rparr>"

datatype HandlerCall =
  CallStateChange callback nat DatatypeState DatatypeState
| CallError callback nat DatatypeError

datatype Effect = Called usize HandlerCall | Detach string nat

type_synonym HandlersManager = "(usize \<times> DatatypeHandler) list"

definition HandlersManager_new :: "(usize \<times> DatatypeHandler) list \<Rightarrow> HandlersManager" where
  "HandlersManager_new handlers = handlers"

definition HandlersManager_set_handler ::
  "HandlersManager \<Rightarrow> usize \<Rightarrow> DatatypeHandler \<Rightarrow> HandlersManager" where
  "HandlersManager_set_handler self priority handler = bt_insert priority handler self"

text \<open>
  The removed handler is returned unless a dispatch that is still running holds a clone of
  it (\<open>shared\<close>).
\<close>

definition HandlersManager_unset_handler ::
  "HandlersManager \<Rightarrow> usize \<Rightarrow> bool \<Rightarrow> HandlersManager \<times> DatatypeHandler option" where
  "HandlersManager_unset_handler self priority shared =
     (hm_remove priority self, if shared then None else hm_get self priority)"

definition dispatch ::
  "HandlersManager \<Rightarrow> Attribute \<Rightarrow> (DatatypeHandler \<Rightarrow> nat \<Rightarrow> HandlerCall) \<Rightarrow> Effect list" where
  "dispatch self attr notify =
     (case get_datatype_set attr of
        None \<Rightarrow> []
      | Some ds \<Rightarrow> map (\<lambda>(priority, handler). Called priority (notify handler ds)) self)"

definition notify_state_change ::
  "HandlersManager \<Rightarrow> Attribute \<Rightarrow> DatatypeState \<Rightarrow> DatatypeState \<Rightarrow> Effect list" where
  "notify_state_change self attr old_state new_state =
     dispatch self attr (\<lambda>h ds. CallStateChange (on_state_change h) ds old_state new_state)"

definition notify_error :: "HandlersManager \<Rightarrow> Attribute \<Rightarrow> DatatypeError \<Rightarrow> Effect list" where
  "notify_error self attr err = dispatch self attr (\<lambda>h ds. CallError (on_error h) ds err)"

definition detach_datatype_if_same_instance :: "Attribute \<Rightarrow> Effect list" where
  "detach_datatype_if_same_instance attr =
     (case at_core attr of None \<Rightarrow> [] | Some core_id \<Rightarrow> [Detach (at_key attr) core_id])"

subsection \<open>Lemmas\<close>

fun called_priority :: "Effect \<Rightarrow> usize option" where
  "called_priority (Called p _) = Some p"
| "called_priority (Detach _ _) = None"

lemma dispatch_priorities:
  "get_datatype_set attr = Some ds \<Longrightarrow>
   map called_priority (dispatch hs attr f) = map (Some \<circ> fst) hs"
  by (simp add: dispatch_def comp_def case_prod_beta)

lemma HandlersManager_wf [invar_intros]:
  "bt_wf hs \<Longrightarrow> bt_wf (HandlersManager_set_handler hs p h)"
  "bt_wf hs \<Longrightarrow> bt_wf (fst (HandlersManager_unset_handler hs p sh))"
  by (simp_all add: HandlersManager_set_handler_def HandlersManager_unset_handler_def)

lemma set_duid_simps [simp]:
  "at_key (set_duid a d) = at_key a" "at_type (set_duid a d) = at_type a"
  "at_duid (set_duid a d) = d" "at_client_common (set_duid a d) = at_client_common a"
  "at_option (set_duid a d) = at_option a" "at_is_readonly (set_duid a d) = at_is_readonly a"
  "at_core (set_duid a d) = at_core a"
  by (simp_all add: set_duid_def)

text \<open>
  Handlers run in ascending priority. Whatever sequence of registrations and removals
  produced the table, a notification calls each registered handler exactly once, in strictly
  ascending priority order, with the registered callback; a later registration at the same
  priority replaces the earlier one.
\<close>

lemma handlers_called_in_priority_order:
  assumes "bt_wf hs" and "get_datatype_set attr = Some ds"
  shows "\<exists>ps. map called_priority (notify_error (HandlersManager_set_handler hs p h) attr err) = map Some ps \<and>
      sorted_wrt (<) ps \<and> set ps = insert p (fst ` set hs) \<and>
      Called p (CallError (on_error h) ds err) \<in>
        set (notify_error (HandlersManager_set_handler hs p h) attr err) \<and>
      (\<forall>c. Called p c \<in> set (notify_error (HandlersManager_set_handler hs p h) attr err) \<longrightarrow>
           c = CallError (on_error h) ds err)"
proof -
  let ?hs = "HandlersManager_set_handler hs p h"
  have wf: "bt_wf ?hs" using assms(1) by (rule HandlersManager_wf)
  have get: "hm_get ?hs p = Some h"
    using assms(1) by (simp add: HandlersManager_set_handler_def)
  have dist: "distinct (map fst ?hs)"
    using wf by (auto simp: bt_wf_def strict_sorted_iff)
  then have mem: "(p, k) \<in> set ?hs \<longleftrightarrow> k = h" for k
    using get by (metis hm_get_def map_of_eq_Some_iff option.inject)
  have set: "set (notify_error ?hs attr err) =
      (\<lambda>(q, k). Called q (CallError (on_error k) ds err)) ` set ?hs"
    by (simp add: notify_error_def dispatch_def assms(2))
  show ?thesis
  proof (intro exI [of _ "map fst ?hs"] conjI)
    show "map called_priority (notify_error ?hs attr err) = map Some (map fst ?hs)"
      by (simp add: notify_error_def dispatch_priorities [OF assms(2)])
    show "sorted_wrt (<) (map fst ?hs)" using wf by (simp add: bt_wf_def)
    show "set (map fst ?hs) = insert p (fst ` set hs)"
      by (simp add: HandlersManager_set_handler_def bt_insert_keys)
  qed (use mem set in \<open>auto intro: rev_image_eqI\<close>)
qed

definition ex_attr :: Attribute where
  "ex_attr = set_transactional
     (Attribute_new (Uid ''duid-00000000001'') ''k'' Type_Counter
       \<lparr>cc_collection = ''col'', cc_cuid = Uid ''cuid-00000000001'', cc_alias = ''me''\<rparr>
       \<lparr>max_mem_size_of_push_buffer = 1000000\<rparr> False) 7"

lemma handlers_called_in_priority_order_witness:
  "get_datatype_set ex_attr = Some 7 \<and>
   (\<exists>ps. map called_priority (notify_error (HandlersManager_set_handler
           [(1, DatatypeHandler_new), (9, DatatypeHandler_new)] 5 DatatypeHandler_new)
             ex_attr ReadonlyViolation) = map Some ps \<and>
      sorted_wrt (<) ps \<and> set ps = {1, 5, 9})"
proof -
  have wf: "bt_wf [(1 :: usize, DatatypeHandler_new), (9, DatatypeHandler_new)]"
    by (simp add: bt_wf_def)
  have ds: "get_datatype_set ex_attr = Some 7"
    by (simp add: get_datatype_set_def ex_attr_def set_transactional_def Attribute_new_def)
  show ?thesis
    using handlers_called_in_priority_order [OF wf ds, of 5 DatatypeHandler_new ReadonlyViolation] ds
    by (auto simp: insert_commute)
qed

end
