(* ===== verification/Mutable.thy ===== *)
theory Mutable
  imports Attributes
begin

text \<open>
  The mutable layer (\<open>datatypes/tx_record.rs\<close>, \<open>datatypes/mutable.rs\<close>): the replica's
  CRDT, clock, push buffer, checkpoint and lifecycle state, the record of the transaction in
  progress, and its commit and rollback.
\<close>

subsection \<open>TxRecord\<close>

record TxRecord =
  pending :: "Transaction option"
  rollback_op_id :: OperationId
  rollback_state :: DatatypeState

definition TxRecord_new :: "DatatypeState \<Rightarrow> OperationId \<Rightarrow> TxRecord" where
  "TxRecord_new state op_id =
     \<lparr>pending = None, rollback_op_id = op_id, rollback_state = state\<rparr>"

definition record_operation ::
  "TxRecord \<Rightarrow> OperationId \<Rightarrow> DatatypeState \<Rightarrow> Operation \<Rightarrow> TxRecord \<times> bool" where
  "record_operation self op_id state op =
     (case pending self of
        None \<Rightarrow>
          (self\<lparr>rollback_op_id := op_id, rollback_state := state,
                pending := Some (push_operation
                  (Transaction_new (oid_cuid op_id) (oid_cseq op_id + 1)) op)\<rparr>, True)
      | Some tx \<Rightarrow> (self\<lparr>pending := Some (push_operation tx op)\<rparr>, False))"

subsection \<open>MutableDatatype\<close>

text \<open>\<open>m_effects\<close> is the log of calls that left the datatype.\<close>

record MutableDatatype =
  m_attr :: Attribute
  m_crdt :: Crdt
  m_op_id :: OperationId
  m_push_buffer :: MemoryPushBuffer
  m_checkpoint :: CheckPoint
  m_state :: DatatypeState
  m_tx_record :: TxRecord
  m_handlers :: HandlersManager
  m_effects :: "Effect list"

definition DATATYPE_ERR_MSG_NO_SNAPSHOT :: string where
  "DATATYPE_ERR_MSG_NO_SNAPSHOT = ''no snapshot operation''"

definition MutableDatatype_new ::
  "Attribute \<Rightarrow> DatatypeState \<Rightarrow> (usize \<times> DatatypeHandler) list \<Rightarrow> (MutableDatatype, unit) result" where
  "MutableDatatype_new attr state handlers =
     (case Crdt_new (at_type attr) of
        Ok crdt \<Rightarrow>
          (let op_id = OperationId_new_with_cuid (cc_cuid (at_client_common attr))
           in Ok \<lparr>m_attr = attr, m_crdt = crdt, m_op_id = op_id,
                  m_push_buffer = MemoryPushBuffer_new (at_option attr),
                  m_checkpoint = CheckPoint_default, m_state = state,
                  m_tx_record = TxRecord_new state op_id,
                  m_handlers = HandlersManager_new handlers, m_effects = []\<rparr>)
      | Err e \<Rightarrow> Err e
      | Panic msg \<Rightarrow> Panic msg)"

definition set_state :: "MutableDatatype \<Rightarrow> DatatypeState \<Rightarrow> MutableDatatype" where
  "set_state self new_state =
     (let old_state = m_state self
      in if old_state \<noteq> new_state
         then self\<lparr>m_state := new_state,
                   m_effects := m_effects self @
                     notify_state_change (m_handlers self) (m_attr self) old_state new_state @
                     (if new_state = Disabled
                      then detach_datatype_if_same_instance (m_attr self) else [])\<rparr>
         else self)"

definition call_error_handler :: "MutableDatatype \<Rightarrow> DatatypeError \<Rightarrow> MutableDatatype" where
  "call_error_handler self err =
     self\<lparr>m_effects := m_effects self @ notify_error (m_handlers self) (m_attr self) err\<rparr>"

definition mutable_reset :: "MutableDatatype \<Rightarrow> MutableDatatype" where
  "mutable_reset self =
     self\<lparr>m_push_buffer := MemoryPushBuffer_new (at_option (m_attr self)),
          m_tx_record := TxRecord_new (m_state self) (m_op_id self)\<rparr>"

definition mutable_disable :: "MutableDatatype \<Rightarrow> MutableDatatype" where
  "mutable_disable self = set_state (mutable_reset self) Disabled"

definition apply_snapshot_transaction ::
  "MutableDatatype \<Rightarrow> Transaction \<Rightarrow> MutableDatatype \<times> (unit, DatatypeError) result" where
  "apply_snapshot_transaction self tx =
     (case tx_operations tx of
        [] \<Rightarrow> (self, Err (ServerRejected (Rejected_ProtocolViolation DATATYPE_ERR_MSG_NO_SNAPSHOT)))
      | snap_op # _ \<Rightarrow>
          (case op_body snap_op of
             Snapshot body \<Rightarrow>
               (let (crdt', r) = Crdt_deserialize (m_crdt self) (data body);
                    s1 = self\<lparr>m_crdt := crdt'\<rparr>
                in and_then (s1, r)
                     (\<lambda>s _. (mutable_reset
                               (s\<lparr>m_op_id := (m_op_id s)\<lparr>oid_cseq := 0, oid_lamport := op_lamport snap_op\<rparr>\<rparr>),
                             Ok ())))
           | _ \<Rightarrow> (self, Err (ServerRejected
                     (Rejected_ProtocolViolation DATATYPE_ERR_MSG_NO_SNAPSHOT)))))"

text \<open>The loop of \<open>do_rollback\<close>: an error is logged and the loop goes on, a panic ends it.\<close>

fun undo_ops :: "Crdt \<Rightarrow> Operation list \<Rightarrow> Crdt \<times> (unit, DatatypeError) result" where
  "undo_ops c [] = (c, Ok ())"
| "undo_ops c (op # ops) =
     (case Crdt_execute_inverse_operation c op of
        (c', Panic msg) \<Rightarrow> (c', Panic msg)
      | (c', _) \<Rightarrow> undo_ops c' ops)"

definition do_rollback :: "MutableDatatype \<Rightarrow> MutableDatatype \<times> (unit, DatatypeError) result" where
  "do_rollback self =
     (case pending (m_tx_record self) of
        None \<Rightarrow> (self, Ok ())
      | Some tx \<Rightarrow>
          (let s1 = self\<lparr>m_tx_record := (m_tx_record self)\<lparr>pending := None\<rparr>\<rparr>;
               (crdt', r) = undo_ops (m_crdt s1) (rev (tx_operations tx))
           in and_then (s1\<lparr>m_crdt := crdt'\<rparr>, r)
                (\<lambda>s _. (set_state (s\<lparr>m_op_id := rollback_op_id (m_tx_record s)\<rparr>)
                          (rollback_state (m_tx_record s)), Ok ()))))"

fun panic_or :: "('a, 'e) result \<Rightarrow> ('b, 'f) result \<Rightarrow> ('b, 'f) result" where
  "panic_or (Panic msg) r = Panic msg"
| "panic_or _ r = r"

definition end_transaction ::
  "MutableDatatype \<Rightarrow> string option \<Rightarrow> bool \<Rightarrow>
   MutableDatatype \<times> (bool, DatatypeErrorWithAction) result" where
  "end_transaction self tag committed =
     (if \<not> committed
      then (let (s1, r) = do_rollback self in (s1, panic_or r (Ok False)))
      else (case pending (m_tx_record self) of
              None \<Rightarrow> (self, Ok True)
            | Some tx0 \<Rightarrow>
                (let s1 = self\<lparr>m_tx_record := (m_tx_record self)\<lparr>pending := None\<rparr>\<rparr>;
                     tx = set_tag tx0 tag
                 in if tx_cuid tx = oid_cuid (m_op_id s1)
                    then (case enqueue (m_push_buffer s1) tx of
                            (pb', Ok _) \<Rightarrow> (s1\<lparr>m_push_buffer := pb'\<rparr>, Ok True)
                          | (pb', Err err) \<Rightarrow>
                              (s1\<lparr>m_push_buffer := pb',
                                  m_tx_record := (m_tx_record s1)\<lparr>pending := Some tx\<rparr>\<rparr>, Err err)
                          | (pb', Panic msg) \<Rightarrow> (s1\<lparr>m_push_buffer := pb'\<rparr>, Panic msg))
                    else (s1, Ok True))))"

fun apply_action ::
  "MutableDatatype \<Rightarrow> RecoveryAction \<Rightarrow> MutableDatatype \<times> (unit, DatatypeError) result" where
  "apply_action self NotifyOnly = (self, Ok ())"
| "apply_action self RetryWithBackOff = (self, Ok ())"
| "apply_action self RollbackTransaction = do_rollback self"
| "apply_action self Resubscribe = (set_state (mutable_reset self) SubscribingOrCreating, Ok ())"
| "apply_action self ResubscribeWithBackOff =
     (set_state (mutable_reset self) SubscribingOrCreating, Ok ())"
| "apply_action self Disable = (mutable_disable self, Ok ())"

definition execute_remote_operation_at ::
  "MutableDatatype \<Rightarrow> Operation \<Rightarrow> MutableDatatype \<times> (ReturnType, DatatypeError) result" where
  "execute_remote_operation_at self op =
     (let s1 = self\<lparr>m_op_id := (m_op_id self)\<lparr>oid_lamport :=
                   max (oid_lamport (m_op_id self)) (op_lamport op)\<rparr>\<rparr>;
          (crdt', r) = Crdt_execute_remote_operation (m_crdt s1) op
      in (s1\<lparr>m_crdt := crdt'\<rparr>, r))"

fun execute_remote_operations ::
  "MutableDatatype \<Rightarrow> Operation list \<Rightarrow> MutableDatatype \<times> (unit, DatatypeError) result" where
  "execute_remote_operations self [] = (self, Ok ())"
| "execute_remote_operations self (op # ops) =
     and_then (execute_remote_operation_at self op) (\<lambda>s _. execute_remote_operations s ops)"

definition execute_remote_transaction ::
  "MutableDatatype \<Rightarrow> Transaction \<Rightarrow> MutableDatatype \<times> (unit, DatatypeError) result" where
  "execute_remote_transaction self tx = execute_remote_operations self (tx_operations tx)"

definition execute_local_operation ::
  "MutableDatatype \<Rightarrow> Operation \<Rightarrow> MutableDatatype \<times> (ReturnType, DatatypeError) result" where
  "execute_local_operation self op0 =
     (let op = set_lamport op0 (oid_lamport (m_op_id self) + 1);
          (crdt', result) = Crdt_execute_local_operation (m_crdt self) op;
          s1 = self\<lparr>m_crdt := crdt'\<rparr>
      in if is_ok result
         then (let (txr, is_new_tx) =
                     record_operation (m_tx_record s1) (m_op_id s1) (m_state s1) op
               in (s1\<lparr>m_tx_record := txr, m_op_id := OperationId_next (m_op_id s1) is_new_tx\<rparr>, result))
         else (s1, result))"

definition new_snapshot_operation :: "SystemTime \<Rightarrow> MutableDatatype \<Rightarrow> Operation" where
  "new_snapshot_operation now self =
     set_lamport (new_snapshot now (Crdt_serialize (m_crdt self))) (oid_lamport (m_op_id self))"

definition mutable_set_handler ::
  "MutableDatatype \<Rightarrow> usize \<Rightarrow> DatatypeHandler \<Rightarrow> MutableDatatype" where
  "mutable_set_handler self priority handler =
     self\<lparr>m_handlers := HandlersManager_set_handler (m_handlers self) priority handler\<rparr>"

definition mutable_unset_handler ::
  "MutableDatatype \<Rightarrow> usize \<Rightarrow> bool \<Rightarrow> MutableDatatype \<times> DatatypeHandler option" where
  "mutable_unset_handler self priority shared =
     (let (hs, h) = HandlersManager_unset_handler (m_handlers self) priority shared
      in (self\<lparr>m_handlers := hs\<rparr>, h))"

text \<open>Running the operations of one transaction body, stopping at the first failure.\<close>

fun execute_local_operations ::
  "MutableDatatype \<Rightarrow> Operation list \<Rightarrow> MutableDatatype \<times> (ReturnType list, DatatypeError) result" where
  "execute_local_operations self [] = (self, Ok [])"
| "execute_local_operations self (op # ops) =
     and_then (execute_local_operation self op)
       (\<lambda>s r. and_then (execute_local_operations s ops) (\<lambda>s' rs. (s', Ok (r # rs))))"

text \<open>Closed forms of what executing a list of operations leaves behind.\<close>

fun stamped :: "u64 \<Rightarrow> Operation list \<Rightarrow> Operation list" where
  "stamped l [] = []"
| "stamped l (op # ops) = set_lamport op (l + 1) # stamped (l + 1) ops"

definition tx_of :: "OperationId \<Rightarrow> Operation list \<Rightarrow> Transaction" where
  "tx_of op_id ops =
     (Transaction_new (oid_cuid op_id) (oid_cseq op_id + 1))
       \<lparr>tx_operations := stamped (oid_lamport op_id) ops\<rparr>"

definition lamport_max :: "u64 \<Rightarrow> Operation list \<Rightarrow> u64" where
  "lamport_max l ops = foldl max l (map op_lamport ops)"

text \<open>
  Everything that can happen to a replica between its creation and its end: the steps the user
  thread and the event loop take on it, in any order. A panic ends the thread that ran into it
  and is not a step.
\<close>

inductive mutable_step :: "MutableDatatype \<Rightarrow> MutableDatatype \<Rightarrow> bool" where
  step_local: "execute_local_operation m op = (m', r) \<Longrightarrow> \<not> is_panic r \<Longrightarrow> mutable_step m m'"
| step_end: "end_transaction m tag committed = (m', r) \<Longrightarrow> \<not> is_panic r \<Longrightarrow> mutable_step m m'"
| step_action: "apply_action m a = (m', r) \<Longrightarrow> \<not> is_panic r \<Longrightarrow> mutable_step m m'"
| step_remote: "execute_remote_transaction m tx = (m', r) \<Longrightarrow> \<not> is_panic r \<Longrightarrow> mutable_step m m'"
| step_snapshot: "apply_snapshot_transaction m tx = (m', r) \<Longrightarrow> \<not> is_panic r \<Longrightarrow> mutable_step m m'"
| step_state: "mutable_step m (set_state m s)"
| step_checkpoint: "mutable_step m (m\<lparr>m_checkpoint := cp\<rparr>)"
| step_duid: "mutable_step m (m\<lparr>m_attr := set_duid (m_attr m) duid\<rparr>)"
| step_error: "mutable_step m (call_error_handler m err)"
| step_set_handler: "mutable_step m (mutable_set_handler m p h)"
| step_unset_handler: "mutable_unset_handler m p shared = (m', old) \<Longrightarrow> mutable_step m m'"

inductive mutable_reachable :: "MutableDatatype \<Rightarrow> bool" where
  reach_new: "MutableDatatype_new attr state handlers = Ok m \<Longrightarrow> mutable_reachable m"
| reach_step: "mutable_reachable m \<Longrightarrow> mutable_step m m' \<Longrightarrow> mutable_reachable m'"

text \<open>The sequence numbers of the clock, the pending transaction and the buffer agree.\<close>

definition seq_inv :: "MutableDatatype \<Rightarrow> bool" where
  "seq_inv m =
     (case pending (m_tx_record m) of
        None \<Rightarrow> pb_last_cseq (m_push_buffer m) = 0 \<or>
                pb_last_cseq (m_push_buffer m) = oid_cseq (m_op_id m)
      | Some tx \<Rightarrow>
          tx_cseq tx = oid_cseq (m_op_id m) \<and> tx_cuid tx = oid_cuid (m_op_id m) \<and>
          oid_cseq (rollback_op_id (m_tx_record m)) + 1 = tx_cseq tx \<and>
          oid_cuid (rollback_op_id (m_tx_record m)) = tx_cuid tx \<and>
          (pb_last_cseq (m_push_buffer m) = 0 \<or> pb_last_cseq (m_push_buffer m) + 1 = tx_cseq tx))"

definition ex_mut :: MutableDatatype where
  "ex_mut = \<lparr>m_attr = ex_attr, m_crdt = Crdt_Counter CounterCrdt_default,
     m_op_id = OperationId_new_with_cuid (get_cuid ex_attr),
     m_push_buffer = MemoryPushBuffer_new (at_option ex_attr), m_checkpoint = CheckPoint_default,
     m_state = Creating, m_tx_record = TxRecord_new Creating (OperationId_new_with_cuid (get_cuid ex_attr)),
     m_handlers = [], m_effects = []\<rparr>"

definition ex_tight_attr :: Attribute where
  "ex_tight_attr = ex_attr\<lparr>at_option := \<lparr>max_mem_size_of_push_buffer = 100\<rparr>\<rparr>"

definition ex_tight :: MutableDatatype where
  "ex_tight = (case MutableDatatype_new ex_tight_attr Creating [] of
     Ok m \<Rightarrow> fst (execute_local_operation m (new_counter_increase 0 5)) | _ \<Rightarrow> ex_mut)"

subsection \<open>Frame facts of set\_state\<close>

lemma set_state_simps [simp]:
  "m_state (set_state m s) = s" "m_crdt (set_state m s) = m_crdt m"
  "m_op_id (set_state m s) = m_op_id m" "m_push_buffer (set_state m s) = m_push_buffer m"
  "m_checkpoint (set_state m s) = m_checkpoint m" "m_tx_record (set_state m s) = m_tx_record m"
  "m_attr (set_state m s) = m_attr m" "m_handlers (set_state m s) = m_handlers m"
  by (simp_all add: set_state_def Let_def)

lemma set_state_same [simp]: "set_state m (m_state m) = m"
  by (simp add: set_state_def)

lemma mutable_reset_simps [simp]:
  "m_state (mutable_reset m) = m_state m" "m_crdt (mutable_reset m) = m_crdt m"
  "m_op_id (mutable_reset m) = m_op_id m" "m_checkpoint (mutable_reset m) = m_checkpoint m"
  "m_push_buffer (mutable_reset m) = MemoryPushBuffer_new (at_option (m_attr m))"
  "m_tx_record (mutable_reset m) = TxRecord_new (m_state m) (m_op_id m)"
  "m_attr (mutable_reset m) = m_attr m" "m_handlers (mutable_reset m) = m_handlers m"
  "m_effects (mutable_reset m) = m_effects m"
  by (simp_all add: mutable_reset_def)

subsection \<open>Closed forms for counter operations\<close>

lemma crdt_apply_set_lamport [simp]:
  "crdt_apply (set_lamport op l) = crdt_apply op" "crdt_undo (set_lamport op l) = crdt_undo op"
proof -
  have "crdt_apply (set_lamport op l) c = crdt_apply op c" for c by (simp add: crdt_eq_iff)
  moreover have "crdt_undo (set_lamport op l) c = crdt_undo op c" for c
    by (cases c) (simp add: crdt_undo_def Crdt_execute_inverse_operation_def)
  ultimately show "crdt_apply (set_lamport op l) = crdt_apply op"
    and "crdt_undo (set_lamport op l) = crdt_undo op" by auto
qed

lemma stamped_simps [simp]:
  "length (stamped l ops) = length ops"
  "list_all counter_op (stamped l ops) = list_all counter_op ops"
  "ops_delta (stamped l ops) = ops_delta ops"
  "fold crdt_apply (stamped l ops) = fold crdt_apply ops"
  "stamped l ops = [] \<longleftrightarrow> ops = []"
  by (induction ops arbitrary: l) (auto simp: fun_eq_iff)

lemma undo_ops_counter:
  "list_all counter_op ops \<Longrightarrow> undo_ops c ops = (fold crdt_undo ops c, Ok ())"
  by (induction ops arbitrary: c) (auto simp: crdt_execute_counter_op)

lemma crdt_value_undo_all:
  assumes "list_all counter_op ops"
  shows "crdt_value (fold crdt_undo (rev ops) c) = crdt_value c - ops_delta ops"
proof -
  have val: "crdt_value (fold crdt_undo os c) = crdt_value c - ops_delta os"
    if "list_all counter_op os" for os
    using that by (induction os arbitrary: c) (simp_all add: crdt_value_undo algebra_simps)
  have "ops_delta (rev os) = ops_delta os" for os
    by (induction os) (simp_all add: add.commute)
  with assms val [of "rev ops"] show ?thesis by (simp add: list_all_rev)
qed

lemma execute_local_operation_counter:
  assumes "counter_op op"
  shows "execute_local_operation m op =
    (m\<lparr>m_crdt := crdt_apply op (m_crdt m),
       m_tx_record := fst (record_operation (m_tx_record m) (m_op_id m) (m_state m)
                        (set_lamport op (oid_lamport (m_op_id m) + 1))),
       m_op_id := OperationId_next (m_op_id m) (pending (m_tx_record m) = None)\<rparr>,
     Ok (Return_Counter (crdt_value (m_crdt m) + op_delta op)))"
  using assms
  by (auto simp: execute_local_operation_def Let_def crdt_execute_counter_op record_operation_def
      split: option.splits)

lemma execute_local_operations_pending:
  assumes "list_all counter_op ops" and "pending (m_tx_record m) = Some tx"
  shows "\<exists>rs. length rs = length ops \<and> execute_local_operations m ops =
    (m\<lparr>m_crdt := fold crdt_apply ops (m_crdt m),
       m_op_id := (m_op_id m)\<lparr>oid_lamport := oid_lamport (m_op_id m) + of_nat (length ops)\<rparr>,
       m_tx_record := (m_tx_record m)\<lparr>pending := Some (tx\<lparr>tx_operations :=
          tx_operations tx @ stamped (oid_lamport (m_op_id m)) ops\<rparr>)\<rparr>\<rparr>, Ok rs)"
  using assms
proof (induction ops arbitrary: m tx)
  case (Cons op ops)
  let ?m = "fst (execute_local_operation m op)"
  let ?tx = "push_operation tx (set_lamport op (oid_lamport (m_op_id m) + 1))"
  have step: "?m = m\<lparr>m_crdt := crdt_apply op (m_crdt m),
      m_tx_record := (m_tx_record m)\<lparr>pending := Some ?tx\<rparr>,
      m_op_id := (m_op_id m)\<lparr>oid_lamport := oid_lamport (m_op_id m) + 1\<rparr>\<rparr>"
    and ok: "\<exists>r. execute_local_operation m op = (?m, Ok r)"
    using Cons.prems by (auto simp: execute_local_operation_counter record_operation_def
        OperationId_next_def Let_def)
  have "pending (m_tx_record ?m) = Some ?tx" by (simp add: step)
  from Cons.IH [OF _ this] Cons.prems(1) ok step show ?case
    by (auto simp: push_operation_def algebra_simps)
qed simp

lemma execute_local_operations_fresh:
  assumes ops: "list_all counter_op ops" "ops \<noteq> []" and none: "pending (m_tx_record m) = None"
  shows "\<exists>rs. length rs = length ops \<and> execute_local_operations m ops =
    (m\<lparr>m_crdt := fold crdt_apply ops (m_crdt m),
       m_op_id := (m_op_id m)\<lparr>oid_lamport := oid_lamport (m_op_id m) + of_nat (length ops),
                              oid_cseq := oid_cseq (m_op_id m) + 1\<rparr>,
       m_tx_record := \<lparr>pending = Some (tx_of (m_op_id m) ops), rollback_op_id = m_op_id m,
                       rollback_state = m_state m\<rparr>\<rparr>, Ok rs)"
proof -
  obtain op rest where eq: "ops = op # rest" using ops(2) by (cases ops) auto
  let ?m = "fst (execute_local_operation m op)"
  have ok: "\<exists>r. execute_local_operation m op = (?m, Ok r)"
    and step: "?m = m\<lparr>m_crdt := crdt_apply op (m_crdt m),
      m_tx_record := \<lparr>pending = Some (tx_of (m_op_id m) [op]),
        rollback_op_id = m_op_id m, rollback_state = m_state m\<rparr>,
      m_op_id := (m_op_id m)\<lparr>oid_lamport := oid_lamport (m_op_id m) + 1,
        oid_cseq := oid_cseq (m_op_id m) + 1\<rparr>\<rparr>"
    using ops none eq by (auto simp: execute_local_operation_counter record_operation_def
        OperationId_next_def Let_def push_operation_def tx_of_def)
  have pend: "pending (m_tx_record ?m) = Some (tx_of (m_op_id m) [op])" by (simp add: step)
  have "list_all counter_op rest" using ops eq by simp
  from execute_local_operations_pending [OF this pend] ok step eq show ?thesis
    by (auto simp: tx_of_def algebra_simps)
qed

subsection \<open>Remote transactions\<close>

lemma execute_remote_operations_counter:
  "list_all counter_op ops \<Longrightarrow>
   execute_remote_operations m ops =
     (m\<lparr>m_crdt := fold crdt_apply ops (m_crdt m),
        m_op_id := (m_op_id m)\<lparr>oid_lamport := lamport_max (oid_lamport (m_op_id m)) ops\<rparr>\<rparr>, Ok ())"
proof (induction ops arbitrary: m)
  case (Cons op ops)
  then show ?case
    by (simp add: execute_remote_operation_at_def Let_def crdt_execute_counter_op lamport_max_def)
qed (simp add: lamport_max_def)

lemma execute_remote_shape:
  "\<exists>l c. fst (execute_remote_operations m ops) =
     m\<lparr>m_op_id := (m_op_id m)\<lparr>oid_lamport := l\<rparr>, m_crdt := c\<rparr>"
proof (induction ops arbitrary: m)
  case Nil
  show ?case by (rule exI [of _ "oid_lamport (m_op_id m)"], rule exI [of _ "m_crdt m"]) simp
next
  case (Cons op ops)
  obtain l c r where step: "execute_remote_operation_at m op =
      (m\<lparr>m_op_id := (m_op_id m)\<lparr>oid_lamport := l\<rparr>, m_crdt := c\<rparr>, r)"
    by (auto simp: execute_remote_operation_at_def Let_def case_prod_beta)
  show ?case
  proof (cases r)
    case (Ok x)
    with step have "fst (execute_remote_operations m (op # ops)) = fst (execute_remote_operations
        (m\<lparr>m_op_id := (m_op_id m)\<lparr>oid_lamport := l\<rparr>, m_crdt := c\<rparr>) ops)" by simp
    with Cons.IH [of "m\<lparr>m_op_id := (m_op_id m)\<lparr>oid_lamport := l\<rparr>, m_crdt := c\<rparr>"]
    show ?thesis by auto
  qed (use step in auto)
qed

lemma execute_remote_frame [simp]:
  "m_push_buffer (fst (execute_remote_operations m ops)) = m_push_buffer m"
  "m_tx_record (fst (execute_remote_operations m ops)) = m_tx_record m"
  "m_state (fst (execute_remote_operations m ops)) = m_state m"
  "m_attr (fst (execute_remote_operations m ops)) = m_attr m"
  "oid_cseq (m_op_id (fst (execute_remote_operations m ops))) = oid_cseq (m_op_id m)"
  "oid_cuid (m_op_id (fst (execute_remote_operations m ops))) = oid_cuid (m_op_id m)"
  "m_checkpoint (fst (execute_remote_operations m ops)) = m_checkpoint m"
  using execute_remote_shape [of m ops] by auto

lemma panic_or_Ok [simp]: "panic_or r (Ok x) \<noteq> Err e" "panic_or r (Ok x) = Ok y \<longleftrightarrow> \<not> is_panic r \<and> x = y"
  by (cases r; auto)+

subsection \<open>Properties of commit and rollback\<close>

lemma do_rollback_counter:
  assumes "pending (m_tx_record m) = Some tx" and "list_all counter_op (tx_operations tx)"
  shows "do_rollback m =
    (set_state (m\<lparr>m_tx_record := (m_tx_record m)\<lparr>pending := None\<rparr>,
                  m_crdt := fold crdt_undo (rev (tx_operations tx)) (m_crdt m),
                  m_op_id := rollback_op_id (m_tx_record m)\<rparr>)
       (rollback_state (m_tx_record m)), Ok ())"
  using assms by (simp add: do_rollback_def Let_def undo_ops_counter)

lemma rollback_exact:
  assumes none: "pending (m_tx_record m) = None" and ops: "list_all counter_op ops"
    and exec: "execute_local_operations m ops = (m1, r)"
  shows "\<exists>txr. end_transaction m1 tag False = (m\<lparr>m_tx_record := txr\<rparr>, Ok False) \<and> pending txr = None"
proof (cases "ops = []")
  case True
  with none exec have "end_transaction m1 tag False = (m\<lparr>m_tx_record := m_tx_record m\<rparr>, Ok False)"
    by (auto simp: end_transaction_def do_rollback_def)
  with none show ?thesis by blast
next
  case False
  let ?txr = "\<lparr>pending = Some (tx_of (m_op_id m) ops), rollback_op_id = m_op_id m,
    rollback_state = m_state m\<rparr>"
  have m1: "m_tx_record m1 = ?txr" "m_crdt m1 = fold crdt_apply ops (m_crdt m)"
    "m1\<lparr>m_tx_record := ?txr\<lparr>pending := None\<rparr>, m_crdt := m_crdt m, m_op_id := m_op_id m\<rparr>
      = m\<lparr>m_tx_record := ?txr\<lparr>pending := None\<rparr>\<rparr>" "m_state m1 = m_state m"
    using execute_local_operations_fresh [OF ops False none] exec by auto
  have "fold crdt_undo (rev (stamped l ops)) (fold crdt_apply ops c) = c" for l c
    using counter.undo_all [of "stamped l ops" c] ops by simp
  then have "do_rollback m1 = (m\<lparr>m_tx_record := ?txr\<lparr>pending := None\<rparr>\<rparr>, Ok ())"
    using do_rollback_counter [of m1 "tx_of (m_op_id m) ops"] m1 ops
    by (simp add: tx_of_def set_state_def)
  then show ?thesis by (auto simp: end_transaction_def)
qed

lemma ex_mut_simps [simp]:
  "pending (m_tx_record ex_mut) = None" "m_crdt ex_mut = Crdt_Counter CounterCrdt_default"
  "m_op_id ex_mut = OperationId_new_with_cuid (get_cuid ex_attr)" "m_state ex_mut = Creating"
  "m_push_buffer ex_mut = MemoryPushBuffer_new (at_option ex_attr)"
  "m_checkpoint ex_mut = CheckPoint_default" "m_attr ex_mut = ex_attr"
  by (simp_all add: ex_mut_def TxRecord_new_def)

lemma stamped_lamports:
  "map op_lamport (stamped l ops) = map (\<lambda>i. l + of_nat (Suc i)) [0..<length ops]"
proof (induction ops arbitrary: l)
  case (Cons op ops)
  have "[0..<Suc (length ops)] = 0 # map Suc [0..<length ops]"
    by (simp only: upt_conv_Cons map_Suc_upt)
  then show ?case using Cons by (simp add: set_lamport_def algebra_simps del: upt_Suc)
qed simp

lemma end_transaction_commit:
  assumes "pending (m_tx_record m) = Some tx0" and "tx_cuid tx0 = oid_cuid (m_op_id m)"
    and "enqueue (m_push_buffer m) (set_tag tx0 tag) = (pb', r)"
  shows "end_transaction m tag True =
    (case r of
       Ok _ \<Rightarrow> (m\<lparr>m_tx_record := (m_tx_record m)\<lparr>pending := None\<rparr>, m_push_buffer := pb'\<rparr>, Ok True)
     | Err e \<Rightarrow> (m\<lparr>m_tx_record := (m_tx_record m)\<lparr>pending := Some (set_tag tx0 tag)\<rparr>,
                  m_push_buffer := pb'\<rparr>, Err e)
     | Panic msg \<Rightarrow> (m\<lparr>m_tx_record := (m_tx_record m)\<lparr>pending := None\<rparr>, m_push_buffer := pb'\<rparr>, Panic msg))"
  using assms by (simp add: end_transaction_def Let_def set_tag_def split: result.splits)

lemma stamped_bodies: "map op_body (stamped l ops) = map op_body ops"
  by (induction ops arbitrary: l) (auto simp: set_lamport_def)

lemma commit_cases:
  assumes none: "pending (m_tx_record m) = None" and ops: "list_all counter_op ops" "ops \<noteq> []"
    and exec: "execute_local_operations m ops = (m1, r)"
  obtains (committed) pb' txr where
      "enqueue (m_push_buffer m) (set_tag (tx_of (m_op_id m) ops) tag) = (pb', Ok ())"
      "end_transaction m1 tag True =
         (m\<lparr>m_crdt := fold crdt_apply ops (m_crdt m),
            m_op_id := (m_op_id m)\<lparr>oid_lamport := oid_lamport (m_op_id m) + of_nat (length ops),
                                   oid_cseq := oid_cseq (m_op_id m) + 1\<rparr>,
            m_tx_record := txr, m_push_buffer := pb'\<rparr>, Ok True)"
      "pending txr = None"
  | (full) m2 e txr where "end_transaction m1 tag True = (m2, Err e)" "dewa_recovery e = RollbackTransaction"
      "do_rollback m2 = (m\<lparr>m_tx_record := txr\<rparr>, Ok ())" "pending txr = None"
      "enqueue (m_push_buffer m) (set_tag (tx_of (m_op_id m) ops) tag) = (m_push_buffer m, Err e)"
proof -
  let ?tx = "tx_of (m_op_id m) ops"
  let ?txr = "\<lparr>pending = Some ?tx, rollback_op_id = m_op_id m, rollback_state = m_state m\<rparr>"
  have m1: "m1 = m\<lparr>m_crdt := fold crdt_apply ops (m_crdt m),
       m_op_id := (m_op_id m)\<lparr>oid_lamport := oid_lamport (m_op_id m) + of_nat (length ops),
                              oid_cseq := oid_cseq (m_op_id m) + 1\<rparr>, m_tx_record := ?txr\<rparr>"
    using execute_local_operations_fresh [OF ops none] exec by auto
  have pend: "pending (m_tx_record m1) = Some ?tx" and cuid: "tx_cuid ?tx = oid_cuid (m_op_id m1)"
    by (simp_all add: m1 tx_of_def Transaction_new_def)
  show ?thesis
  proof (cases "m_push_buffer m" "set_tag ?tx tag" rule: enqueue_cases)
    case (ok pb')
    have "end_transaction m1 tag True = (m1\<lparr>m_tx_record := ?txr\<lparr>pending := None\<rparr>, m_push_buffer := pb'\<rparr>, Ok True)"
      using ok end_transaction_commit [OF pend cuid] by (simp add: m1)
    then show ?thesis by (intro that(1) [OF ok, of "?txr\<lparr>pending := None\<rparr>"]) (simp_all add: m1)
  next
    case (failed e)
    let ?m2 = "m1\<lparr>m_tx_record := ?txr\<lparr>pending := Some (set_tag ?tx tag)\<rparr>\<rparr>"
    have e: "end_transaction m1 tag True = (?m2, Err (DatatypeErrorWithAction_new e RollbackTransaction))"
      using failed end_transaction_commit [OF pend cuid] by (simp add: m1)
    have undo: "fold crdt_undo (rev (stamped l ops)) (fold crdt_apply ops c) = c" for l c
      using counter.undo_all [of "stamped l ops" c] ops by simp
    have "do_rollback ?m2 = (m\<lparr>m_tx_record := ?txr\<lparr>pending := None\<rparr>\<rparr>, Ok ())"
      using do_rollback_counter [of ?m2 "set_tag ?tx tag"] ops
      by (simp add: m1 undo tx_of_def set_tag_def set_state_def)
    from that(2) [OF e _ this] failed show ?thesis by simp
  qed
qed

text \<open>
  C4: Commit is all or nothing. Ending a transaction of counter operations with commit either
  appends one transaction to the push buffer, carrying the next client sequence number, the
  tag, exactly the executed operations with consecutive Lamport times, and keeps their effect
  on the CRDT; or it fails with an error whose recovery action is a rollback, and applying
  that action brings back the replica as it was before the transaction.
\<close>

theorem commit_all_or_nothing:
  assumes none: "pending (m_tx_record m) = None" and ops: "list_all counter_op ops" "ops \<noteq> []"
    and exec: "execute_local_operations m ops = (m1, r)"
  shows "(\<exists>m2 tx. end_transaction m1 tag True = (m2, Ok True) \<and>
            pb_transaction (m_push_buffer m2) = pb_transaction (m_push_buffer m) @ [tx] \<and>
            tx_cuid tx = oid_cuid (m_op_id m) \<and> tx_cseq tx = oid_cseq (m_op_id m) + 1 \<and> tx_tag tx = tag \<and>
            map op_body (tx_operations tx) = map op_body ops \<and>
            map op_lamport (tx_operations tx) =
              map (\<lambda>i. oid_lamport (m_op_id m) + of_nat (Suc i)) [0..<length ops] \<and>
            oid_cseq (m_op_id m2) = tx_cseq tx \<and> pending (m_tx_record m2) = None \<and>
            crdt_value (m_crdt m2) = crdt_value (m_crdt m) + ops_delta ops \<and>
            m_checkpoint m2 = m_checkpoint m \<and> m_state m2 = m_state m \<and> m_effects m2 = m_effects m) \<or>
         (\<exists>m2 e txr. end_transaction m1 tag True = (m2, Err e) \<and> dewa_recovery e = RollbackTransaction \<and>
            apply_action m2 (dewa_recovery e) = (m\<lparr>m_tx_record := txr\<rparr>, Ok ()) \<and> pending txr = None)"
proof (cases rule: commit_cases [OF none ops exec, of tag, case_names committed full])
  case (committed pb' txr)
  then show ?thesis
    by (intro disjI1) (auto simp: enqueue_Ok_iff set_tag_def tx_of_def Transaction_new_def stamped_bodies
        stamped_lamports)
next
  case (full m2 e txr)
  then show ?thesis by (intro disjI2) auto
qed

theorem commit_all_or_nothing_witness:
  "\<exists>m1 r m2 tx. execute_local_operations ex_mut [new_counter_increase 0 5] = (m1, r) \<and>
     end_transaction m1 None True = (m2, Ok True) \<and>
     pb_transaction (m_push_buffer m2) = [tx] \<and> tx_cseq tx = 1 \<and> crdt_value (m_crdt m2) = 5"
proof -
  let ?ops = "[new_counter_increase 0 5]"
  obtain m1 r where exec: "execute_local_operations ex_mut ?ops = (m1, r)" by (metis prod.collapse)
  have m1: "m1 = ex_mut\<lparr>m_crdt := fold crdt_apply ?ops (m_crdt ex_mut),
       m_op_id := (m_op_id ex_mut)\<lparr>oid_lamport := 1, oid_cseq := 1\<rparr>,
       m_tx_record := \<lparr>pending = Some (tx_of (m_op_id ex_mut) ?ops), rollback_op_id = m_op_id ex_mut,
         rollback_state = Creating\<rparr>\<rparr>"
    using execute_local_operations_fresh [of ?ops ex_mut] exec
    by (auto simp: OperationId_new_with_cuid_def)
  have "enqueue (m_push_buffer m1) (set_tag (tx_of (m_op_id ex_mut) ?ops) None) \<noteq> (b, Err e)" for b e
    by (simp add: m1 enqueue_def MemoryPushBuffer_new_def ex_attr_def set_transactional_def
        Attribute_new_def Transaction_size_def tx_of_def set_tag_def Transaction_new_def
        TRANSACTION_CONSTANT_SIZE_def UID_LEN_def Operation_size_def set_lamport_def
        new_counter_increase_def Operation_new_def CounterIncreaseBody_size_def)
  then have "end_transaction m1 None True \<noteq> (m2, Err e)" for m2 e
    by (auto simp: end_transaction_def Let_def m1 tx_of_def Transaction_new_def split: result.splits prod.splits)
  with commit_all_or_nothing [OF ex_mut_simps(1) _ _ exec, of None] exec show ?thesis
    by (fastforce simp: MemoryPushBuffer_new_def OperationId_new_with_cuid_def CounterCrdt_default_def)
qed

subsection \<open>Sequence numbers of every reachable replica\<close>

inductive_cases mutable_stepE: "mutable_step m m'"

lemma seq_inv_cong:
  assumes "m_tx_record m' = m_tx_record m" and "m_push_buffer m' = m_push_buffer m"
    and "oid_cseq (m_op_id m') = oid_cseq (m_op_id m)" and "oid_cuid (m_op_id m') = oid_cuid (m_op_id m)"
  shows "seq_inv m' = seq_inv m"
  using assms by (simp add: seq_inv_def split: option.splits)

lemma seq_inv_frame:
  "seq_inv (set_state m s) = seq_inv m" "seq_inv (m\<lparr>m_checkpoint := cp\<rparr>) = seq_inv m"
  "seq_inv (m\<lparr>m_attr := a\<rparr>) = seq_inv m" "seq_inv (m\<lparr>m_effects := es\<rparr>) = seq_inv m"
  "seq_inv (m\<lparr>m_handlers := hs\<rparr>) = seq_inv m" "seq_inv (m\<lparr>m_crdt := c\<rparr>) = seq_inv m"
  by (rule seq_inv_cong; simp)+

lemma seq_inv_reset [invar_intros]:
  "seq_inv (mutable_reset m)" "seq_inv (set_state (mutable_reset m) s)"
  by (simp_all add: seq_inv_def TxRecord_new_def MemoryPushBuffer_new_def)

lemma seq_inv_local [invar_intros]:
  assumes "seq_inv m" and "execute_local_operation m op = (m', r)"
  shows "seq_inv m'"
  using assms
  by (auto simp: execute_local_operation_def Let_def seq_inv_def record_operation_def OperationId_next_def
      push_operation_def Transaction_new_def split: option.splits prod.splits if_splits)

lemma undo_ops_not_Err: "undo_ops c ops = (c', r) \<Longrightarrow> r \<noteq> Err e"
  by (induction c ops arbitrary: c' rule: undo_ops.induct) (auto split: prod.splits result.splits)

lemma seq_inv_rollback [invar_intros]:
  assumes "seq_inv m" and "do_rollback m = (m', r)" and "\<not> is_panic r"
  shows "seq_inv m'"
proof (cases "pending (m_tx_record m)")
  case (Some tx)
  obtain c r' where undo: "undo_ops (m_crdt m) (rev (tx_operations tx)) = (c, r')"
    by (metis prod.collapse)
  have eq: "x = y" if "x + 1 = z" and "y + 1 = z" for x y z :: u64 using that by auto
  from undo undo_ops_not_Err [OF undo] assms Some show ?thesis
    by (cases r') (auto simp: do_rollback_def Let_def seq_inv_def dest: eq)
qed (use assms in \<open>simp add: do_rollback_def\<close>)

lemma seq_inv_end [invar_intros]:
  assumes inv: "seq_inv m" and e: "end_transaction m tag committed = (m', r)" and ok: "\<not> is_panic r"
  shows "seq_inv m'"
proof (cases committed)
  case False
  with e obtain r' where "do_rollback m = (m', r')" and "r = panic_or r' (Ok False)"
    by (auto simp: end_transaction_def split: prod.splits)
  with inv ok show ?thesis by (cases r') (auto intro: seq_inv_rollback)
next
  case True
  show ?thesis
  proof (cases "pending (m_tx_record m)")
    case None
    with True e inv show ?thesis by (auto simp: end_transaction_def)
  next
    case (Some tx)
    with inv have cuid: "tx_cuid tx = oid_cuid (m_op_id m)" by (simp add: seq_inv_def)
    show ?thesis
    proof (cases "m_push_buffer m" "set_tag tx tag" rule: enqueue_cases)
      case (ok pb')
      with end_transaction_commit [OF Some cuid ok] True e inv Some show ?thesis
        by (auto simp: seq_inv_def enqueue_Ok_iff set_tag_def)
    next
      case (failed e)
      with end_transaction_commit [OF Some cuid failed(1)] True e inv Some show ?thesis
        by (auto simp: seq_inv_def set_tag_def)
    qed
  qed
qed

lemma seq_inv_action [invar_intros]:
  assumes "seq_inv m" and "apply_action m a = (m', r)" and "\<not> is_panic r"
  shows "seq_inv m'"
  using assms by (cases a) (auto intro: seq_inv_rollback seq_inv_reset simp: mutable_disable_def)

lemma seq_inv_snapshot [invar_intros]:
  assumes "seq_inv m" and "apply_snapshot_transaction m tx = (m', r)"
  shows "seq_inv m'"
  using assms
  by (auto simp: apply_snapshot_transaction_def Let_def seq_inv_reset seq_inv_frame
      split: list.splits OperationBody.splits prod.splits elim!: and_then_cases)

lemma seq_inv_step:
  assumes "seq_inv m" and "mutable_step m m'"
  shows "seq_inv m'"
  using assms(2)
proof cases
  case (step_remote tx r)
  then have "m' = fst (execute_remote_operations m (tx_operations tx))"
    by (simp add: execute_remote_transaction_def)
  with assms(1) show ?thesis by (subst seq_inv_cong [of _ m]) simp_all
next
  case (step_snapshot tx r)
  with assms(1) show ?thesis by (rule_tac seq_inv_snapshot)
next
  case (step_local op r)
  with assms(1) show ?thesis by (rule_tac seq_inv_local)
next
  case (step_end tag committed r)
  with assms(1) show ?thesis by (rule_tac seq_inv_end)
next
  case (step_action a r)
  with assms(1) show ?thesis by (rule_tac seq_inv_action)
next
  case (step_unset_handler p shared old)
  then have "m' = m\<lparr>m_handlers := m_handlers m'\<rparr>" by (auto simp: mutable_unset_handler_def split: prod.splits)
  with assms(1) show ?thesis by (metis seq_inv_frame(5))
qed (use assms(1) in \<open>simp_all add: seq_inv_frame call_error_handler_def mutable_set_handler_def\<close>)

lemma seq_inv_reachable: "mutable_reachable m \<Longrightarrow> seq_inv m"
proof (induction rule: mutable_reachable.induct)
  case (reach_new attr state handlers m)
  then show ?case
    by (auto simp: MutableDatatype_new_def Let_def seq_inv_def TxRecord_new_def MemoryPushBuffer_new_def
        split: result.splits)
qed (rule seq_inv_step)

text \<open>
  C20: Committing fails for one reason only. Over any interleaving of local operations, remote
  transactions, snapshots, commits, rollbacks and recovery actions since the creation of the
  replica, the sequence number of a committed transaction continues the push buffer, so the
  only error ending a transaction can return is the memory limit of the buffer, with a rollback
  as its recovery; the non-sequential branch of \<open>enqueue\<close> is never taken.
\<close>

theorem commit_error_is_memory_limit:
  assumes reach: "mutable_reachable m" and e: "end_transaction m tag committed = (m', Err err)"
  shows "err = DatatypeErrorWithAction_new PushBufferExceededMaxMemSize RollbackTransaction \<and> committed \<and>
    (\<exists>tx. pending (m_tx_record m) = Some tx \<and> pending (m_tx_record m') = Some (set_tag tx tag) \<and>
      max_mem_size_of_push_buffer (pb_option (m_push_buffer m)) <
        pb_mem_size (m_push_buffer m) + Transaction_size (set_tag tx tag))"
proof -
  have inv: "seq_inv m" using reach by (rule seq_inv_reachable)
  have c: committed using e
    by (rule_tac ccontr) (auto simp: end_transaction_def Let_def split: prod.splits)
  then obtain tx where tx: "pending (m_tx_record m) = Some tx" using e
    by (auto simp: end_transaction_def split: option.splits)
  with inv have cuid: "tx_cuid tx = oid_cuid (m_op_id m)"
    and seq: "pb_last_cseq (m_push_buffer m) = 0 \<or> pb_last_cseq (m_push_buffer m) + 1 = tx_cseq tx"
    by (auto simp: seq_inv_def)
  obtain b r where enq: "enqueue (m_push_buffer m) (set_tag tx tag) = (b, r)" by (metis prod.collapse)
  with end_transaction_commit [OF tx cuid enq] c e have "r = Err err"
    and pend: "pending (m_tx_record m') = Some (set_tag tx tag)"
    by (auto split: result.splits)
  with enq seq have "err = DatatypeErrorWithAction_new PushBufferExceededMaxMemSize RollbackTransaction \<and>
      max_mem_size_of_push_buffer (pb_option (m_push_buffer m)) <
        pb_mem_size (m_push_buffer m) + Transaction_size (set_tag tx tag)"
    by (auto simp: enqueue_def set_tag_def Let_def routed_def DatatypeErrorWithAction_new_def split: if_splits)
  with c tx pend show ?thesis by blast
qed

lemma ex_tight_reachable: "mutable_reachable ex_tight"
proof -
  obtain m where m: "MutableDatatype_new ex_tight_attr Creating [] = Ok m"
    by (auto simp: MutableDatatype_new_def ex_tight_attr_def ex_attr_def set_transactional_def
        Attribute_new_def Let_def)
  have "execute_local_operation m (new_counter_increase 0 5) =
      (ex_tight, Ok (Return_Counter (crdt_value (m_crdt m) + 5)))"
    using m by (simp add: ex_tight_def execute_local_operation_counter)
  then show ?thesis
    using reach_step [OF reach_new [OF m] step_local] by simp
qed

lemma ex_tight_commit:
  "end_transaction ex_tight None True =
     (ex_tight, Err (DatatypeErrorWithAction_new PushBufferExceededMaxMemSize RollbackTransaction))"
  by (simp add: ex_tight_def MutableDatatype_new_def ex_tight_attr_def ex_attr_def set_transactional_def
      Attribute_new_def Let_def execute_local_operation_counter record_operation_def TxRecord_new_def
      OperationId_new_with_cuid_def push_operation_def Transaction_new_def set_lamport_def
      new_counter_increase_def Operation_new_def counter_op_def end_transaction_def set_tag_def
      OperationId_next_def enqueue_def MemoryPushBuffer_new_def Transaction_size_def routed_def
      TRANSACTION_CONSTANT_SIZE_def UID_LEN_def Operation_size_def CounterIncreaseBody_size_def
      DatatypeErrorWithAction_new_def)

theorem commit_error_is_memory_limit_witness:
  "mutable_reachable ex_tight \<and> snd (end_transaction ex_tight None True) =
     Err (DatatypeErrorWithAction_new PushBufferExceededMaxMemSize RollbackTransaction) \<and>
   (\<exists>tx. pending (m_tx_record ex_tight) = Some tx \<and>
      max_mem_size_of_push_buffer (pb_option (m_push_buffer ex_tight)) <
        pb_mem_size (m_push_buffer ex_tight) + Transaction_size (set_tag tx None))"
  using commit_error_is_memory_limit [OF ex_tight_reachable ex_tight_commit] ex_tight_reachable
  by (auto simp: ex_tight_commit)

text \<open>
  C19: Rollback and concurrent remote work. When a remote transaction is applied while a local one
  is in progress and the local one is then rolled back, the local operations are undone and the
  remote ones stay, whatever the order of the operations; the push buffer is untouched. The clock
  goes back to the save point, so the Lamport time learnt from the remote transaction is lost.
\<close>

theorem rollback_keeps_remote_effects:
  assumes none: "pending (m_tx_record m) = None" and ops: "list_all counter_op ops" "ops \<noteq> []"
    and remote: "list_all counter_op (tx_operations tx)"
    and exec: "execute_local_operations m ops = (m1, r1)"
    and pull: "execute_remote_transaction m1 tx = (m2, r2)"
    and undone: "end_transaction m2 tag False = (m3, r3)"
  shows "r2 = Ok () \<and> r3 = Ok False \<and>
    crdt_value (m_crdt m3) = crdt_value (m_crdt m) + ops_delta (tx_operations tx) \<and>
    m_push_buffer m3 = m_push_buffer m \<and> m_op_id m3 = m_op_id m \<and> pending (m_tx_record m3) = None"
proof -
  have m1: "m1 = m\<lparr>m_crdt := fold crdt_apply ops (m_crdt m),
       m_op_id := (m_op_id m)\<lparr>oid_lamport := oid_lamport (m_op_id m) + of_nat (length ops),
                              oid_cseq := oid_cseq (m_op_id m) + 1\<rparr>,
       m_tx_record := \<lparr>pending = Some (tx_of (m_op_id m) ops), rollback_op_id = m_op_id m,
                       rollback_state = m_state m\<rparr>\<rparr>"
    using execute_local_operations_fresh [OF ops none] exec by auto
  have m2: "m2 = m1\<lparr>m_crdt := fold crdt_apply (tx_operations tx) (m_crdt m1),
       m_op_id := (m_op_id m1)\<lparr>oid_lamport := lamport_max (oid_lamport (m_op_id m1)) (tx_operations tx)\<rparr>\<rparr>"
    and r2: "r2 = Ok ()"
    using execute_remote_operations_counter [OF remote, of m1] pull
    by (auto simp: execute_remote_transaction_def)
  have "do_rollback m2 = (set_state (m2\<lparr>m_tx_record := (m_tx_record m2)\<lparr>pending := None\<rparr>,
      m_crdt := fold crdt_undo (rev (stamped (oid_lamport (m_op_id m)) ops)) (m_crdt m2),
      m_op_id := m_op_id m\<rparr>) (m_state m), Ok ())"
    using do_rollback_counter [of m2 "tx_of (m_op_id m) ops"] ops by (simp add: m2 m1 tx_of_def)
  with undone have "r3 = Ok False" and "m3 = set_state (m2\<lparr>m_tx_record := (m_tx_record m2)\<lparr>pending := None\<rparr>,
      m_crdt := fold crdt_undo (rev (stamped (oid_lamport (m_op_id m)) ops)) (m_crdt m2),
      m_op_id := m_op_id m\<rparr>) (m_state m)"
    by (auto simp: end_transaction_def)
  with r2 ops show ?thesis by (simp add: m2 m1 crdt_value_undo_all)
qed

theorem rollback_keeps_remote_effects_witness:
  "\<exists>m1 m2 m3 r. execute_local_operations ex_mut [new_counter_increase 0 5] = (m1, r) \<and>
     execute_remote_transaction m1 (ex_tx 1 7) = (m2, Ok ()) \<and>
     end_transaction m2 None False = (m3, Ok False) \<and> crdt_value (m_crdt m3) = 7"
proof -
  let ?ops = "[new_counter_increase 0 5]"
  obtain m1 r1 where l: "execute_local_operations ex_mut ?ops = (m1, r1)" by (metis prod.collapse)
  obtain m2 r2 where p: "execute_remote_transaction m1 (ex_tx 1 7) = (m2, r2)" by (metis prod.collapse)
  obtain m3 r3 where b: "end_transaction m2 None False = (m3, r3)" by (metis prod.collapse)
  from rollback_keeps_remote_effects [OF ex_mut_simps(1) _ _ _ l p b] l p b show ?thesis
    by (auto simp: CounterCrdt_default_def)
qed

end
