(* ===== verification/Pull_Handler.thy ===== *)
theory Pull_Handler
  imports Mutable
begin

text \<open>
  The message of a push-pull exchange (\<open>types/push_pull_pack.rs\<close>) and the handler that
  applies a response to a replica (\<open>datatypes/pull_handler.rs\<close>): it decides from the old
  state and the response which steps to run, runs them in order, and sets the new state.
\<close>

subsection \<open>PushPullPack\<close>

record PushPullPack =
  ppp_collection :: string
  ppp_cuid :: Cuid
  ppp_duid :: Duid
  ppp_key :: string
  ppp_type :: DataType
  ppp_state :: DatatypeState
  ppp_checkpoint :: CheckPoint
  ppp_safe_sseq :: u64
  ppp_transactions :: "Transaction list"
  ppp_snapshot_transaction :: "Transaction option"
  ppp_is_readonly :: bool
  ppp_error :: "PushPullError option"

definition PushPullPack_new :: "Attribute \<Rightarrow> DatatypeState \<Rightarrow> PushPullPack" where
  "PushPullPack_new attr state =
     \<lparr>ppp_collection = cc_collection (at_client_common attr), ppp_cuid = cc_cuid (at_client_common attr),
      ppp_duid = get_duid attr, ppp_key = at_key attr, ppp_type = at_type attr, ppp_state = state,
      ppp_checkpoint = CheckPoint_default, ppp_safe_sseq = 0, ppp_transactions = [],
      ppp_snapshot_transaction = None, ppp_is_readonly = at_is_readonly attr, ppp_error = None\<rparr>"

definition PushPullPack_resource_id :: "PushPullPack \<Rightarrow> string" where
  "PushPullPack_resource_id self = make_resource_id (ppp_collection self) (ppp_key self)"

definition checkpointing :: "PushPullPack \<Rightarrow> CheckPoint \<Rightarrow> u64 \<Rightarrow> PushPullPack" where
  "checkpointing self cp safe_sseq =
     self\<lparr>ppp_checkpoint := (ppp_checkpoint self)
            \<lparr>cp_cseq := (if ppp_transactions self = [] then cp_cseq cp
                        else tx_cseq (last (ppp_transactions self))),
             cp_sseq := cp_sseq cp\<rparr>,
          ppp_safe_sseq := safe_sseq\<rparr>"

definition get_pulled_stub :: "PushPullPack \<Rightarrow> PushPullPack" where
  "get_pulled_stub self =
     \<lparr>ppp_collection = ppp_collection self, ppp_cuid = ppp_cuid self, ppp_duid = ppp_duid self,
      ppp_key = ppp_key self, ppp_type = ppp_type self, ppp_state = ppp_state self,
      ppp_checkpoint = CheckPoint_default, ppp_safe_sseq = ppp_safe_sseq self, ppp_transactions = [],
      ppp_snapshot_transaction = None, ppp_is_readonly = ppp_is_readonly self, ppp_error = None\<rparr>"

definition PushPullPack_display :: "PushPullPack \<Rightarrow> string" where
  "PushPullPack_display self =
     (let attr = (if ppp_is_readonly self then ''ro'' else ''rw'') @
                 (if ppp_snapshot_transaction self \<noteq> None then ''|sn'' else '''');
          err = (case ppp_error self of None \<Rightarrow> '''' | Some e \<Rightarrow> ''err:'' @ PushPullError_display e)
      in ''['' @ DataType_display (ppp_type self) @ ''/'' @ ppp_key self @ ''/'' @
         Uid_display (ppp_duid self) @ '' '' @ DatatypeState_display (ppp_state self) @ '' '' @ attr @
         '' tx:'' @ show_nat (length (ppp_transactions self)) @
         '' s'' @ show_u64 (cp_sseq (ppp_checkpoint self)) @ '':c'' @ show_u64 (cp_cseq (ppp_checkpoint self)) @
         '':sf'' @ show_u64 (ppp_safe_sseq self) @ '' '' @ err @ '']'')"

subsection \<open>PullHandler\<close>

text \<open>The function pointers that \<open>pending_steps\<close> holds, by name.\<close>

datatype PendingStep =
  ApplySubscribeResponse | SkipDuplicatedTransactions | ExecuteTransactions | SyncCheckpoint

record PullHandler =
  ph_pulled_ppp :: PushPullPack
  ph_mutable :: MutableDatatype
  ph_old_state :: DatatypeState
  ph_new_state :: DatatypeState
  ph_is_created :: bool
  ph_pending_steps :: "PendingStep list"
  ph_skip :: usize

definition PullHandler_new :: "PushPullPack \<Rightarrow> MutableDatatype \<Rightarrow> PullHandler" where
  "PullHandler_new pulled_ppp mutable =
     \<lparr>ph_pulled_ppp = pulled_ppp, ph_mutable = mutable, ph_old_state = m_state mutable,
      ph_new_state = m_state mutable, ph_is_created = False, ph_pending_steps = [], ph_skip = 0\<rparr>"

definition enqueue_step :: "PullHandler \<Rightarrow> PendingStep \<Rightarrow> PullHandler" where
  "enqueue_step self step = self\<lparr>ph_pending_steps := ph_pending_steps self @ [step]\<rparr>"

definition process_illegal_state_response ::
  "DatatypeState \<Rightarrow> DatatypeState \<Rightarrow> (unit, DatatypeErrorWithAction) result" where
  "process_illegal_state_response old new =
     routed (ServerRejected (Rejected_ProtocolViolation
       (''illegal state from push-pull: received '' @ DatatypeState_display new @ '' for '' @
        DatatypeState_display old)))"

text \<open>The guard all handled states share: an unexpected response state disables the datatype.\<close>

definition expect_state ::
  "PullHandler \<Rightarrow> DatatypeState \<Rightarrow> PullHandler \<times> (unit, DatatypeErrorWithAction) result" where
  "expect_state self expected =
     (if ppp_state (ph_pulled_ppp self) \<noteq> expected
      then (self\<lparr>ph_new_state := Disabled\<rparr>,
            process_illegal_state_response (ph_old_state self) (ppp_state (ph_pulled_ppp self)))
      else (self, Ok ()))"

definition handle_error_and_datatype_state ::
  "PullHandler \<Rightarrow> PullHandler \<times> (unit, DatatypeErrorWithAction) result" where
  "handle_error_and_datatype_state self0 =
     (let self = self0\<lparr>ph_new_state := ppp_state (ph_pulled_ppp self0)\<rparr>
      in case ppp_error (ph_pulled_ppp self) of
           Some sppe \<Rightarrow> (self, routed (PushPullError_to_datatype_error sppe))
         | None \<Rightarrow>
             (case ph_old_state self of
                Creating \<Rightarrow>
                  and_then (expect_state self Subscribed) (\<lambda>s _. (s\<lparr>ph_is_created := True\<rparr>, Ok ()))
              | Subscribing \<Rightarrow>
                  and_then (expect_state self Subscribed)
                    (\<lambda>s _. (enqueue_step s ApplySubscribeResponse, Ok ()))
              | SubscribingOrCreating \<Rightarrow>
                  and_then (expect_state self Subscribed)
                    (\<lambda>s _. (if ppp_duid (ph_pulled_ppp s) = get_duid (m_attr (ph_mutable s))
                            then s\<lparr>ph_is_created := True\<rparr>
                            else enqueue_step s ApplySubscribeResponse, Ok ()))
              | Subscribed \<Rightarrow> expect_state self Subscribed
              | Unsubscribing \<Rightarrow> expect_state self Disabled
              | Deleting \<Rightarrow> (self, Panic ''not yet implemented'')
              | Disabled \<Rightarrow> (self, Panic ''not yet implemented'')))"

definition apply_subscribe_response ::
  "PullHandler \<Rightarrow> PullHandler \<times> (unit, DatatypeErrorWithAction) result" where
  "apply_subscribe_response self =
     and_then
       (case ppp_snapshot_transaction (ph_pulled_ppp self) of
          None \<Rightarrow> (self, Ok ())
        | Some snapshot_tx \<Rightarrow>
            (let s1 = self\<lparr>ph_pulled_ppp := (ph_pulled_ppp self)\<lparr>ppp_snapshot_transaction := None\<rparr>\<rparr>;
                 (m, r) = apply_snapshot_transaction (ph_mutable s1) snapshot_tx
             in (s1\<lparr>ph_mutable := m\<rparr>, route_err r)))
       (\<lambda>s _. (s\<lparr>ph_mutable := (ph_mutable s)
                  \<lparr>m_attr := set_duid (m_attr (ph_mutable s)) (ppp_duid (ph_pulled_ppp s))\<rparr>\<rparr>, Ok ()))"

definition calculate_pulling_transactions :: "CheckPoint \<Rightarrow> CheckPoint \<Rightarrow> usize" where
  "calculate_pulling_transactions old_cp new_cp =
     (cp_sseq new_cp - cp_sseq old_cp) - (cp_cseq new_cp - cp_cseq old_cp)"

definition skip_duplicated_transactions ::
  "PullHandler \<Rightarrow> PullHandler \<times> (unit, DatatypeErrorWithAction) result" where
  "skip_duplicated_transactions self =
     (let need_to_pull = calculate_pulling_transactions (m_checkpoint (ph_mutable self))
                           (ppp_checkpoint (ph_pulled_ppp self));
          len_pulled_txs = of_nat (length (ppp_transactions (ph_pulled_ppp self))) :: usize
      in (if len_pulled_txs > need_to_pull then self\<lparr>ph_skip := len_pulled_txs - need_to_pull\<rparr> else self,
          Ok ()))"

fun execute_remote_transactions ::
  "MutableDatatype \<Rightarrow> Transaction list \<Rightarrow> MutableDatatype \<times> (unit, DatatypeErrorWithAction) result" where
  "execute_remote_transactions m [] = (m, Ok ())"
| "execute_remote_transactions m (tx # txs) =
     (let (m', r) = execute_remote_transaction m tx
      in and_then (m', route_err r) (\<lambda>s _. execute_remote_transactions s txs))"

definition execute_transactions ::
  "PullHandler \<Rightarrow> PullHandler \<times> (unit, DatatypeErrorWithAction) result" where
  "execute_transactions self =
     (let txs = ppp_transactions (ph_pulled_ppp self)
      in if length txs < unat (ph_skip self) then (self, Panic ''slice index out of range'')
         else (let (m, r) = execute_remote_transactions (ph_mutable self) (drop (unat (ph_skip self)) txs)
               in (self\<lparr>ph_mutable := m\<rparr>, r)))"

definition sync_checkpoint ::
  "PullHandler \<Rightarrow> PullHandler \<times> (unit, DatatypeErrorWithAction) result" where
  "sync_checkpoint self =
     (self\<lparr>ph_mutable := (ph_mutable self)\<lparr>m_checkpoint :=
        check_with (m_checkpoint (ph_mutable self)) (ppp_checkpoint (ph_pulled_ppp self))\<rparr>\<rparr>, Ok ())"

fun run_step ::
  "PendingStep \<Rightarrow> PullHandler \<Rightarrow> PullHandler \<times> (unit, DatatypeErrorWithAction) result" where
  "run_step ApplySubscribeResponse = apply_subscribe_response"
| "run_step SkipDuplicatedTransactions = skip_duplicated_transactions"
| "run_step ExecuteTransactions = execute_transactions"
| "run_step SyncCheckpoint = sync_checkpoint"

fun run_steps ::
  "PendingStep list \<Rightarrow> PullHandler \<Rightarrow> PullHandler \<times> (unit, DatatypeErrorWithAction) result" where
  "run_steps [] self = (self, Ok ())"
| "run_steps (step # steps) self = and_then (run_step step self) (\<lambda>s _. run_steps steps s)"

definition commit :: "PullHandler \<Rightarrow> PullHandler \<times> (unit, DatatypeErrorWithAction) result" where
  "commit self =
     (let steps = ph_pending_steps self
      in and_then (run_steps steps (self\<lparr>ph_pending_steps := []\<rparr>))
           (\<lambda>s _. (s\<lparr>ph_mutable := set_state (ph_mutable s) (ph_new_state s)\<rparr>, Ok ())))"

definition PullHandler_apply ::
  "PullHandler \<Rightarrow> PullHandler \<times> (unit, DatatypeErrorWithAction) result" where
  "PullHandler_apply self =
     (let (s1, result) =
            and_then (handle_error_and_datatype_state self)
              (\<lambda>s _. (enqueue_step (enqueue_step (enqueue_step s SkipDuplicatedTransactions)
                        ExecuteTransactions) SyncCheckpoint, Ok ()))
      in if is_panic result then (s1, result)
         else and_then (commit s1) (\<lambda>s _. (s, result)))"

text \<open>Applying a response to a replica, as the wired layer does under the write lock.\<close>

definition apply_pull ::
  "PushPullPack \<Rightarrow> MutableDatatype \<Rightarrow> MutableDatatype \<times> (unit, DatatypeErrorWithAction) result" where
  "apply_pull pulled_ppp mutable =
     (let (h, r) = PullHandler_apply (PullHandler_new pulled_ppp mutable) in (ph_mutable h, r))"

text \<open>A push a client of this library can send: the transactions are its own.\<close>

definition own_pack :: "PushPullPack \<Rightarrow> bool" where
  "own_pack p = (\<forall>t \<in> set (ppp_transactions p). tx_cuid t = ppp_cuid p)"

text \<open>The state a successful exchange leads to.\<close>

fun expected_state :: "DatatypeState \<Rightarrow> DatatypeState" where
  "expected_state Unsubscribing = Disabled"
| "expected_state _ = Subscribed"

definition syncable :: "DatatypeState \<Rightarrow> bool" where
  "syncable s = (s \<noteq> Deleting \<and> s \<noteq> Disabled)"

text \<open>The transactions of a response that a replica with checkpoint \<open>cp\<close> does not skip.\<close>

definition unskipped :: "CheckPoint \<Rightarrow> PushPullPack \<Rightarrow> Transaction list" where
  "unskipped cp ppp =
     (let need = unat (calculate_pulling_transactions cp (ppp_checkpoint ppp));
          txs = ppp_transactions ppp
      in drop (length txs - need) txs)"

text \<open>The checkpoint of a client that has seen the first \<open>n\<close> transactions of the server's order \<open>H\<close>.\<close>

definition seen_upto :: "Transaction list \<Rightarrow> Cuid \<Rightarrow> nat \<Rightarrow> CheckPoint" where
  "seen_upto H u n = \<lparr>cp_sseq = of_nat n, cp_cseq = of_nat (length (own u (take n H)))\<rparr>"

definition counter_txs :: "Transaction list \<Rightarrow> bool" where
  "counter_txs txs = list_all (\<lambda>tx. list_all counter_op (tx_operations tx)) txs"

definition txs_ops :: "Transaction list \<Rightarrow> Operation list" where
  "txs_ops txs = concat (map tx_operations txs)"

definition txs_delta :: "Transaction list \<Rightarrow> i64" where
  "txs_delta txs = ops_delta (txs_ops txs)"

text \<open>The responses that carry no snapshot to install.\<close>

definition no_snapshot :: "MutableDatatype \<Rightarrow> PushPullPack \<Rightarrow> bool" where
  "no_snapshot m ppp =
     (m_state m = Creating \<or> m_state m = Subscribed \<or> m_state m = Unsubscribing \<or>
      m_state m = SubscribingOrCreating \<and> ppp_duid ppp = get_duid (m_attr m))"

definition accepted :: "MutableDatatype \<Rightarrow> PushPullPack \<Rightarrow> bool" where
  "accepted m ppp =
     (syncable (m_state m) \<and> ppp_error ppp = None \<and> ppp_state ppp = expected_state (m_state m) \<and>
      counter_txs (ppp_transactions ppp) \<and> length (ppp_transactions ppp) < 2 ^ 64)"

text \<open>What the three standard steps of an accepted response do to a replica.\<close>

definition pulled_into :: "PushPullPack \<Rightarrow> MutableDatatype \<Rightarrow> MutableDatatype" where
  "pulled_into ppp m =
     m\<lparr>m_crdt := fold crdt_apply (txs_ops (unskipped (m_checkpoint m) ppp)) (m_crdt m),
       m_op_id := (m_op_id m)\<lparr>oid_lamport :=
          lamport_max (oid_lamport (m_op_id m)) (txs_ops (unskipped (m_checkpoint m) ppp))\<rparr>,
       m_checkpoint := check_with (m_checkpoint m) (ppp_checkpoint ppp)\<rparr>"

text \<open>The subscribe step installs the snapshot, resets the replica around it, and takes over the id.\<close>

definition subscribed_from :: "PushPullPack \<Rightarrow> Operation \<Rightarrow> Crdt \<Rightarrow> MutableDatatype \<Rightarrow> MutableDatatype" where
  "subscribed_from ppp op c m =
     (let m1 = mutable_reset (m\<lparr>m_crdt := c,
                 m_op_id := (m_op_id m)\<lparr>oid_cseq := 0, oid_lamport := op_lamport op\<rparr>\<rparr>)
      in m1\<lparr>m_attr := set_duid (m_attr m1) (ppp_duid ppp)\<rparr>)"

definition ex_ppp :: PushPullPack where
  "ex_ppp = (PushPullPack_new ex_attr Subscribed)
     \<lparr>ppp_transactions := [ex_tx 1 7, ex_tx 2 8], ppp_checkpoint := CheckPoint_new 2 0\<rparr>"

definition ex_snapshot :: "MutableDatatype \<Rightarrow> Transaction" where
  "ex_snapshot m = push_operation (Transaction_new_with_cuid Uid_new_nil) (new_snapshot_operation 0 m)"

subsection \<open>Closed forms\<close>

lemma txs_ops_simps [simp]:
  "txs_ops [] = []" "txs_ops (tx # txs) = tx_operations tx @ txs_ops txs"
  "txs_ops (xs @ ys) = txs_ops xs @ txs_ops ys"
  by (simp_all add: txs_ops_def)

lemma txs_delta_simps [simp]:
  "txs_delta [] = 0" "txs_delta (tx # txs) = ops_delta (tx_operations tx) + txs_delta txs"
  "txs_delta (xs @ ys) = txs_delta xs + txs_delta ys" "ops_delta (txs_ops txs) = txs_delta txs"
  by (simp_all add: txs_delta_def)

lemma counter_txs_simps [simp]:
  "counter_txs []" "counter_txs (tx # txs) \<longleftrightarrow> list_all counter_op (tx_operations tx) \<and> counter_txs txs"
  "counter_txs (xs @ ys) \<longleftrightarrow> counter_txs xs \<and> counter_txs ys"
  by (simp_all add: counter_txs_def)

lemma counter_txs_drop [simp]: "counter_txs txs \<Longrightarrow> counter_txs (drop n txs)"
  by (metis append_take_drop_id counter_txs_simps(3))

lemma counter_txs_unskipped [simp]: "counter_txs (ppp_transactions ppp) \<Longrightarrow> counter_txs (unskipped cp ppp)"
  by (simp add: unskipped_def Let_def)

lemma lamport_max_append: "lamport_max l (xs @ ys) = lamport_max (lamport_max l xs) ys"
  by (simp add: lamport_max_def)

lemma lamport_max_Nil [simp]: "lamport_max l [] = l"
  by (simp add: lamport_max_def)

lemma execute_remote_transactions_counter:
  "counter_txs txs \<Longrightarrow> execute_remote_transactions m txs =
     (m\<lparr>m_crdt := fold crdt_apply (txs_ops txs) (m_crdt m),
        m_op_id := (m_op_id m)\<lparr>oid_lamport := lamport_max (oid_lamport (m_op_id m)) (txs_ops txs)\<rparr>\<rparr>, Ok ())"
proof (induction txs arbitrary: m)
  case (Cons tx txs)
  then show ?case
    by (simp add: execute_remote_transaction_def execute_remote_operations_counter lamport_max_append)
qed simp

lemma standard_steps:
  assumes "counter_txs (ppp_transactions (ph_pulled_ppp h))"
    and len: "length (ppp_transactions (ph_pulled_ppp h)) < 2 ^ 64" and "ph_skip h = 0"
  shows "\<exists>k. run_steps [SkipDuplicatedTransactions, ExecuteTransactions, SyncCheckpoint] h =
    (h\<lparr>ph_skip := k, ph_mutable := pulled_into (ph_pulled_ppp h) (ph_mutable h)\<rparr>, Ok ())"
proof -
  define need where "need = calculate_pulling_transactions (m_checkpoint (ph_mutable h))
    (ppp_checkpoint (ph_pulled_ppp h))"
  define txs where "txs = ppp_transactions (ph_pulled_ppp h)"
  define k where "k = (if of_nat (length txs) > need then of_nat (length txs) - need else 0)"
  have n: "unat (of_nat (length txs) :: usize) = length txs"
    using len by (simp add: txs_def unat_of_nat_u64)
  have k: "unat k = length txs - unat need"
  proof (cases "of_nat (length txs) > need")
    case True
    then have "unat k = unat (of_nat (length txs) :: usize) - unat need"
      by (simp add: k_def unat_sub less_imp_le)
    then show ?thesis by (simp add: n)
  next
    case False
    then have "length txs \<le> unat need" by (metis n not_less word_le_nat_alt)
    with False show ?thesis by (simp add: k_def)
  qed
  have "skip_duplicated_transactions h = (h\<lparr>ph_skip := k\<rparr>, Ok ())"
    using assms(3) by (auto simp: skip_duplicated_transactions_def Let_def k_def need_def txs_def)
  moreover have "drop (unat k) txs = unskipped (m_checkpoint (ph_mutable h)) (ph_pulled_ppp h)"
    by (simp add: unskipped_def k need_def txs_def Let_def)
  ultimately show ?thesis
    using assms(1) k
    by (intro exI [of _ k])
      (auto simp: execute_transactions_def execute_remote_transactions_counter sync_checkpoint_def
        pulled_into_def txs_def Let_def)
qed

lemma apply_pull_accepted:
  assumes "accepted m ppp" and "no_snapshot m ppp"
  shows "apply_pull ppp m = (set_state (pulled_into ppp m) (expected_state (m_state m)), Ok ())"
proof -
  let ?h = "(PullHandler_new ppp m)\<lparr>ph_new_state := ppp_state ppp\<rparr>"
  obtain c where c: "handle_error_and_datatype_state (PullHandler_new ppp m) =
      (?h\<lparr>ph_is_created := c\<rparr>, Ok ())"
  proof (cases "m_state m")
  qed (use assms in \<open>auto simp: handle_error_and_datatype_state_def PullHandler_new_def accepted_def
      no_snapshot_def syncable_def expect_state_def Let_def\<close>)
  let ?h1 = "?h\<lparr>ph_is_created := c\<rparr>"
  obtain k where "run_steps [SkipDuplicatedTransactions, ExecuteTransactions, SyncCheckpoint] ?h1 =
      (?h1\<lparr>ph_skip := k, ph_mutable := pulled_into ppp m\<rparr>, Ok ())"
    using standard_steps [of ?h1] assms(1) by (auto simp: accepted_def PullHandler_new_def)
  with c assms(1) show ?thesis
    by (simp add: apply_pull_def PullHandler_apply_def commit_def enqueue_step_def PullHandler_new_def
        accepted_def Let_def del: run_steps.simps)
qed

lemma apply_pull_error:
  "ppp_error ppp = Some e \<Longrightarrow>
   apply_pull ppp m = (set_state m (ppp_state ppp), routed (PushPullError_to_datatype_error e))"
  by (cases e) (simp_all add: apply_pull_def PullHandler_apply_def handle_error_and_datatype_state_def
      PullHandler_new_def commit_def Let_def)

lemma apply_pull_illegal:
  assumes "syncable (m_state m)" and "ppp_error ppp = None" and "ppp_state ppp \<noteq> expected_state (m_state m)"
  shows "apply_pull ppp m =
    (set_state m Disabled, process_illegal_state_response (m_state m) (ppp_state ppp))"
  using assms
  by (cases "m_state m")
    (simp_all add: apply_pull_def PullHandler_apply_def handle_error_and_datatype_state_def
      PullHandler_new_def commit_def expect_state_def process_illegal_state_response_def syncable_def Let_def)

lemma Crdt_deserialize_serialize [simp]:
  "Crdt_deserialize c (Crdt_serialize c') = (c', Ok ())"
  by (cases c; cases c') (simp add: CounterCrdt_to_bytes_def CounterCrdt_from_bytes_def)

lemma snapshot_op_simps [simp]:
  "op_body (new_snapshot_operation now src) = Snapshot (SnapshotBody (Crdt_serialize (m_crdt src)))"
  "op_lamport (new_snapshot_operation now src) = oid_lamport (m_op_id src)"
  by (simp_all add: new_snapshot_operation_def new_snapshot_def Operation_new_def set_lamport_def)

lemma apply_pull_snapshot:
  assumes acc: "accepted m ppp" and sn: "\<not> no_snapshot m ppp"
    and tx: "ppp_snapshot_transaction ppp = Some tx" "tx_operations tx = op # rest" "op_body op = Snapshot body"
    and des: "Crdt_deserialize (m_crdt m) (data body) = (c, Ok ())"
  shows "apply_pull ppp m = (set_state (pulled_into ppp (subscribed_from ppp op c m)) Subscribed, Ok ())"
proof -
  let ?h = "(PullHandler_new ppp m)\<lparr>ph_new_state := Subscribed, ph_pending_steps := [ApplySubscribeResponse]\<rparr>"
  have h: "handle_error_and_datatype_state (PullHandler_new ppp m) = (?h, Ok ())"
    using acc sn
    by (cases "m_state m") (auto simp: handle_error_and_datatype_state_def PullHandler_new_def accepted_def
      no_snapshot_def syncable_def expect_state_def enqueue_step_def Let_def)
  let ?ppp = "ppp\<lparr>ppp_snapshot_transaction := None\<rparr>"
  let ?h1 = "(PullHandler_new ?ppp m)\<lparr>ph_new_state := Subscribed, ph_mutable := subscribed_from ppp op c m\<rparr>"
  have a: "apply_subscribe_response (?h\<lparr>ph_pending_steps := []\<rparr>) = (?h1, Ok ())"
    using tx des
    by (simp add: apply_subscribe_response_def apply_snapshot_transaction_def PullHandler_new_def Let_def
        subscribed_from_def mutable_reset_def)
  have same: "pulled_into ?ppp m' = pulled_into ppp m'" for m'
    by (simp add: pulled_into_def unskipped_def Let_def)
  obtain k where "run_steps [SkipDuplicatedTransactions, ExecuteTransactions, SyncCheckpoint] ?h1 =
      (?h1\<lparr>ph_skip := k, ph_mutable := pulled_into ppp (subscribed_from ppp op c m)\<rparr>, Ok ())"
    using standard_steps [of ?h1] acc by (auto simp: accepted_def PullHandler_new_def same)
  with h a show ?thesis
    by (simp add: apply_pull_def PullHandler_apply_def commit_def enqueue_step_def PullHandler_new_def Let_def
        del: run_steps.simps(2) run_step.simps) (simp del: run_step.simps(2-4))
qed

lemma apply_pull_snapshotless:
  assumes acc: "accepted m ppp" and sn: "\<not> no_snapshot m ppp" "ppp_snapshot_transaction ppp = None"
  shows "apply_pull ppp m = (set_state
     (pulled_into ppp (m\<lparr>m_attr := set_duid (m_attr m) (ppp_duid ppp)\<rparr>)) Subscribed, Ok ())"
proof -
  let ?h = "(PullHandler_new ppp m)\<lparr>ph_new_state := Subscribed, ph_pending_steps := [ApplySubscribeResponse]\<rparr>"
  have h: "handle_error_and_datatype_state (PullHandler_new ppp m) = (?h, Ok ())"
    using acc sn
    by (cases "m_state m") (auto simp: handle_error_and_datatype_state_def PullHandler_new_def accepted_def
      no_snapshot_def syncable_def expect_state_def enqueue_step_def Let_def)
  let ?m = "m\<lparr>m_attr := set_duid (m_attr m) (ppp_duid ppp)\<rparr>"
  let ?h1 = "(PullHandler_new ppp m)\<lparr>ph_new_state := Subscribed, ph_mutable := ?m\<rparr>"
  have a: "apply_subscribe_response (?h\<lparr>ph_pending_steps := []\<rparr>) = (?h1, Ok ())"
    using sn by (simp add: apply_subscribe_response_def PullHandler_new_def)
  obtain k where "run_steps [SkipDuplicatedTransactions, ExecuteTransactions, SyncCheckpoint] ?h1 =
      (?h1\<lparr>ph_skip := k, ph_mutable := pulled_into ppp ?m\<rparr>, Ok ())"
    using standard_steps [of ?h1] acc by (auto simp: accepted_def PullHandler_new_def)
  with h a show ?thesis
    by (simp add: apply_pull_def PullHandler_apply_def commit_def enqueue_step_def PullHandler_new_def Let_def
        del: run_steps.simps(2) run_step.simps) (simp del: run_step.simps(2-4))
qed

lemma unskipped_none:
  assumes "cp_le cp (ppp_checkpoint ppp)"
  shows "unskipped (check_with cp (ppp_checkpoint ppp)) ppp = []"
    and "check_with (check_with cp (ppp_checkpoint ppp)) (ppp_checkpoint ppp) = check_with cp (ppp_checkpoint ppp)"
  by (use assms in \<open>auto simp: unskipped_def calculate_pulling_transactions_def check_with_def cp_le_def
      max_def Let_def\<close>)

text \<open>What is not skipped, in terms of the order: the transactions of others the replica has not seen yet.\<close>

lemma unskipped_order:
  assumes H: "length H < 2 ^ 64" "s0 \<le> s" "s \<le> n" "n \<le> length H"
    and q: "ppp_checkpoint q = seen_upto H u n" "ppp_transactions q = foreign u (drop s0 (take n H))"
  shows "unskipped (seen_upto H u s) q = foreign u (drop s (take n H))"
    and "check_with (seen_upto H u s) (ppp_checkpoint q) = ppp_checkpoint q"
proof -
  let ?o = "\<lambda>i. length (own u (take i H))"
  note between = foreign_between [OF H(3,4), of u] and before = foreign_between [OF H(2), of H u]
  have le: "?o s \<le> ?o n" "?o n - ?o s \<le> n - s" "?o n \<le> n"
    using between foreign_between [of 0 n H u] H by auto
  have u: "unat (of_nat i :: u64) = i" if "i \<le> n" for i using that H by (simp add: unat_of_nat_u64)
  have "unat (of_nat n - of_nat s :: u64) = n - s" "unat (of_nat (?o n) - of_nat (?o s) :: u64) = ?o n - ?o s"
    using le H u by (simp_all add: unat_sub word_le_nat_alt)
  with le have need: "unat (calculate_pulling_transactions (seen_upto H u s) (seen_upto H u n)) = (n - s) - (?o n - ?o s)"
    by (simp add: calculate_pulling_transactions_def seen_upto_def unat_sub word_le_nat_alt)
  have tk: "take s (take n H) = take s H" using H(3) by (simp add: min_absorb1)
  have "drop s0 (take n H) = drop s0 (take s H @ drop s (take n H))"
    by (subst append_take_drop_id [of s "take n H", symmetric]) (simp only: tk)
  then have cut: "drop s0 (take n H) = drop s0 (take s H) @ drop s (take n H)" using H(2-4) by (simp only: drop_append) simp
  have "length (foreign u (drop s (take n H))) = (n - s) - (?o n - ?o s)" using between(1) by simp
  then show "unskipped (seen_upto H u s) q = foreign u (drop s (take n H))"
    by (simp add: unskipped_def need q cut Let_def)
  show "check_with (seen_upto H u s) (ppp_checkpoint q) = ppp_checkpoint q"
    using le H u by (simp add: q seen_upto_def check_with_def max_def word_le_nat_alt)
qed

lemma pulled_into_simps [simp]:
  "m_push_buffer (pulled_into ppp m) = m_push_buffer m" "m_tx_record (pulled_into ppp m) = m_tx_record m"
  "m_state (pulled_into ppp m) = m_state m" "m_attr (pulled_into ppp m) = m_attr m"
  "m_checkpoint (pulled_into ppp m) = check_with (m_checkpoint m) (ppp_checkpoint ppp)"
  "m_handlers (pulled_into ppp m) = m_handlers m" "m_effects (pulled_into ppp m) = m_effects m"
  "oid_cseq (m_op_id (pulled_into ppp m)) = oid_cseq (m_op_id m)"
  "oid_cuid (m_op_id (pulled_into ppp m)) = oid_cuid (m_op_id m)"
  "crdt_value (m_crdt (pulled_into ppp m)) =
     crdt_value (m_crdt m) + txs_delta (unskipped (m_checkpoint m) ppp)"
  by (simp_all add: pulled_into_def)

lemma pulled_into_same:
  assumes "unskipped (m_checkpoint m) ppp = []" and "check_with (m_checkpoint m) (ppp_checkpoint ppp) = m_checkpoint m"
  shows "pulled_into ppp m = m"
  using assms by (simp add: pulled_into_def)

subsection \<open>Properties\<close>

text \<open>
  C8: Applying a response. Let \<open>H\<close> be the order of the server, and let the replica of client \<open>u\<close> have seen the
  first \<open>s\<close> transactions of it. A response the protocol allows brings the transactions of the other clients
  from some place \<open>s0\<close> at or before \<open>s\<close>, up to a place \<open>n\<close> at or behind \<open>s\<close>, with the checkpoint of that place. It
  is applied without error: the replica gains exactly the transactions of others between \<open>s\<close> and \<open>n\<close>, each once and
  none that it had before, its clock is the maximum with theirs, its checkpoint is that of \<open>n\<close>, its state is the one
  the exchange leads to, with the calls of handlers this state change makes; its buffer, transaction in
  progress, attributes, handlers and sequence number are as before.
\<close>

theorem pull_applies_unseen:
  assumes acc: "accepted m ppp" "no_snapshot m ppp"
    and H: "length H < 2 ^ 64" "s0 \<le> s" "s \<le> n" "n \<le> length H"
    and seen: "m_checkpoint m = seen_upto H u s"
    and ppp: "ppp_checkpoint ppp = seen_upto H u n" "ppp_transactions ppp = foreign u (drop s0 (take n H))"
  shows "\<exists>m'. apply_pull ppp m = (m', Ok ()) \<and>
    (let news = foreign u (drop s (take n H))
     in crdt_value (m_crdt m') = crdt_value (m_crdt m) + txs_delta news \<and>
        m_op_id m' = (m_op_id m)\<lparr>oid_lamport := lamport_max (oid_lamport (m_op_id m)) (txs_ops news)\<rparr>) \<and>
    m_checkpoint m' = seen_upto H u n \<and> m_state m' = expected_state (m_state m) \<and>
    m_effects m' = m_effects (set_state m (expected_state (m_state m))) \<and>
    m_push_buffer m' = m_push_buffer m \<and> m_tx_record m' = m_tx_record m \<and>
    m_attr m' = m_attr m \<and> m_handlers m' = m_handlers m"
proof -
  note order = unskipped_order [OF H ppp]
  show ?thesis
    using apply_pull_accepted [OF acc]
    by (simp add: seen order order(2) [unfolded ppp(1)] pulled_into_def ppp(1) Let_def set_state_def)
qed

lemma ex_ppp_accepted: "accepted ex_mut ex_ppp" "no_snapshot ex_mut ex_ppp"
  by (simp_all add: accepted_def no_snapshot_def ex_ppp_def PushPullPack_new_def syncable_def)

text \<open>An order of three transactions, the second one of client \<open>u\<close>; the first one has been seen and is sent again.\<close>

theorem pull_applies_unseen_witness:
  "\<exists>m'. apply_pull (ex_ppp\<lparr>ppp_checkpoint := CheckPoint_new 3 1\<rparr>) (ex_mut\<lparr>m_checkpoint := CheckPoint_new 1 0\<rparr>) = (m', Ok ()) \<and>
     crdt_value (m_crdt m') = 8 \<and> m_checkpoint m' = CheckPoint_new 3 1 \<and> m_state m' = Subscribed"
proof -
  let ?u = "Uid ''0123456789abcdef''" and ?m = "ex_mut\<lparr>m_checkpoint := CheckPoint_new 1 0\<rparr>"
    and ?q = "ex_ppp\<lparr>ppp_checkpoint := CheckPoint_new 3 1\<rparr>"
  let ?H = "[ex_tx 1 7, (ex_tx 1 5)\<lparr>tx_cuid := ?u\<rparr>, ex_tx 2 8]"
  have acc: "accepted ?m ?q" "no_snapshot ?m ?q" using ex_ppp_accepted by (simp_all add: accepted_def no_snapshot_def)
  have cp: "m_checkpoint ?m = seen_upto ?H ?u 1" "ppp_checkpoint ?q = seen_upto ?H ?u 3"
    by (simp_all add: seen_upto_def CheckPoint_new_def own_def ex_tx_def Uid_new_nil_def numeral_3_eq_3)
  have txs: "ppp_transactions ?q = foreign ?u (drop 0 (take 3 ?H))" "foreign ?u (drop 1 (take 3 ?H)) = [ex_tx 2 8]"
    by (simp_all add: ex_ppp_def ex_tx_def Uid_new_nil_def numeral_3_eq_3)
  have "length ?H < 2 ^ 64" "0 \<le> (1::nat)" "1 \<le> (3::nat)" "3 \<le> length ?H" by simp_all
  from pull_applies_unseen [OF acc this cp txs(1)] show ?thesis
    unfolding txs(2) cp(2) [symmetric] by (auto simp: CounterCrdt_default_def)
qed

text \<open>
  Duplicate responses are harmless. When the same response is delivered a second time, the
  second application succeeds and changes nothing at all, whatever transactions it carries.
\<close>

lemma duplicate_pull_harmless:
  assumes acc: "accepted m ppp" "no_snapshot m ppp" and st: "m_state m \<noteq> Unsubscribing"
    and le: "cp_le (m_checkpoint m) (ppp_checkpoint ppp)"
    and first: "apply_pull ppp m = (m1, r1)"
  shows "apply_pull ppp m1 = (m1, Ok ())"
proof -
  have "expected_state (m_state m) = Subscribed" using st by (cases "m_state m") auto
  with first apply_pull_accepted [OF acc] have m1: "m1 = set_state (pulled_into ppp m) Subscribed" by simp
  with acc have acc1: "accepted m1 ppp" and ns: "no_snapshot m1 ppp"
    using \<open>expected_state (m_state m) = Subscribed\<close> by (simp_all add: accepted_def no_snapshot_def syncable_def)
  have "pulled_into ppp m1 = m1"
    by (rule pulled_into_same) (simp_all add: m1 unskipped_none [OF le])
  with apply_pull_accepted [OF acc1 ns] show ?thesis
    by (metis expected_state.simps(5) m1 set_state_same set_state_simps(1))
qed

lemma duplicate_pull_harmless_witness:
  "apply_pull ex_ppp (fst (apply_pull ex_ppp ex_mut)) = (fst (apply_pull ex_ppp ex_mut), Ok ())"
proof -
  have "m_state ex_mut \<noteq> Unsubscribing" and "cp_le (m_checkpoint ex_mut) (ppp_checkpoint ex_ppp)"
    by (simp_all add: ex_ppp_def cp_le_def CheckPoint_new_def)
  from duplicate_pull_harmless [OF ex_ppp_accepted this prod.collapse [symmetric]] show ?thesis .
qed

text \<open>
  C21: A refused response applies nothing. A response with an error, or with a state the exchange
  does not lead to, changes nothing but the lifecycle state and the handlers called: the CRDT, clock,
  push buffer, checkpoint and transaction in progress are as before whatever it carries, and the caller
  gets an error. An illegal state disables the datatype, with \<open>Disable\<close> as recovery.
\<close>

theorem refused_pull_applies_nothing:
  assumes "syncable (m_state m)" and "ppp_error ppp \<noteq> None \<or> ppp_state ppp \<noteq> expected_state (m_state m)"
  shows "\<exists>m' e. apply_pull ppp m = (m', Err e) \<and> m_crdt m' = m_crdt m \<and> m_op_id m' = m_op_id m \<and>
    m_push_buffer m' = m_push_buffer m \<and> m_checkpoint m' = m_checkpoint m \<and>
    m_tx_record m' = m_tx_record m \<and> m_attr m' = m_attr m \<and>
    (ppp_error ppp = None \<longrightarrow> m_state m' = Disabled \<and> dewa_recovery e = Disable) \<and>
    (\<forall>w. ppp_error ppp = Some w \<longrightarrow> m_state m' = ppp_state ppp \<and> dewa_error e = PushPullError_to_datatype_error w \<and>
       dewa_recovery e = (case w of PPE_ServerInternalError _ \<Rightarrow> RetryWithBackOff | _ \<Rightarrow> Disable))"
proof (cases "ppp_error ppp")
  case None
  with assms apply_pull_illegal [of m ppp] show ?thesis by (simp add: process_illegal_state_response_def)
next
  case (Some w)
  with apply_pull_error [OF Some, of m] show ?thesis by (cases w) simp_all
qed

theorem refused_pull_applies_nothing_witness:
  "\<exists>m' e. apply_pull (ex_ppp\<lparr>ppp_state := Creating\<rparr>) ex_mut = (m', Err e) \<and>
     m_crdt m' = m_crdt ex_mut \<and> m_state m' = Disabled \<and> dewa_recovery e = Disable"
proof -
  have "syncable (m_state ex_mut)" by (simp add: syncable_def)
  from refused_pull_applies_nothing [OF this, of "ex_ppp\<lparr>ppp_state := Creating\<rparr>"] show ?thesis
    by (auto simp: ex_ppp_def PushPullPack_new_def)
qed

text \<open>
  C22: Subscribing. A replica that subscribes from a snapshot taken of another replica ends up with
  that replica's value plus the transactions that came with the response and are not skipped (all of them, if the replica has
  seen nothing yet, nothing of it is acknowledged, and they are not more than the order has), takes over the datatype id
  of the response, and starts with an empty buffer, no transaction in progress, client sequence 0 and
  a clock not behind the snapshot.
\<close>

theorem subscribe_installs_snapshot:
  assumes acc: "accepted m ppp" and sn: "\<not> no_snapshot m ppp"
    and tx: "ppp_snapshot_transaction ppp = Some tx" "tx_operations tx = [new_snapshot_operation now src]"
  shows "\<exists>m'. apply_pull ppp m = (m', Ok ()) \<and>
    crdt_value (m_crdt m') = crdt_value (m_crdt src) + txs_delta (unskipped (m_checkpoint m) ppp) \<and>
    m_state m' = Subscribed \<and> get_duid (m_attr m') = ppp_duid ppp \<and>
    pb_transaction (m_push_buffer m') = [] \<and> pending (m_tx_record m') = None \<and>
    oid_cseq (m_op_id m') = 0 \<and> oid_lamport (m_op_id src) \<le> oid_lamport (m_op_id m') \<and>
    m_checkpoint m' = check_with (m_checkpoint m) (ppp_checkpoint ppp) \<and>
    (m_checkpoint m = CheckPoint_default \<and> cp_cseq (ppp_checkpoint ppp) = 0 \<and>
       length (ppp_transactions ppp) \<le> unat (cp_sseq (ppp_checkpoint ppp)) \<longrightarrow>
     unskipped (m_checkpoint m) ppp = ppp_transactions ppp)"
proof -
  have all: "m_checkpoint m = CheckPoint_default \<and> cp_cseq (ppp_checkpoint ppp) = 0 \<and>
       length (ppp_transactions ppp) \<le> unat (cp_sseq (ppp_checkpoint ppp)) \<longrightarrow>
     unskipped (m_checkpoint m) ppp = ppp_transactions ppp"
    by (simp add: unskipped_def calculate_pulling_transactions_def CheckPoint_default_def Let_def)
  have ge: "l \<le> lamport_max l ops" for l ops
    by (induction ops arbitrary: l) (auto simp: lamport_max_def, meson max.cobounded1 order_trans)
  from apply_pull_snapshot [OF acc sn tx snapshot_op_simps(1)] all show ?thesis
    by (simp add: subscribed_from_def Let_def get_duid_def set_duid_def TxRecord_new_def
        MemoryPushBuffer_new_def pulled_into_def ge)
qed

theorem subscribe_installs_snapshot_witness:
  "\<exists>m'. apply_pull ((PushPullPack_new ex_attr Subscribed)\<lparr>ppp_checkpoint := CheckPoint_new 3 0,
       ppp_snapshot_transaction := Some (ex_snapshot (fst (apply_pull ex_ppp ex_mut))),
       ppp_transactions := [ex_tx 3 4]\<rparr>) (ex_mut\<lparr>m_state := Subscribing\<rparr>) = (m', Ok ()) \<and>
     crdt_value (m_crdt m') = crdt_value (m_crdt (fst (apply_pull ex_ppp ex_mut))) + 4 \<and>
     m_state m' = Subscribed"
proof -
  let ?src = "fst (apply_pull ex_ppp ex_mut)" and ?m = "ex_mut\<lparr>m_state := Subscribing\<rparr>"
  let ?ppp = "(PushPullPack_new ex_attr Subscribed)\<lparr>ppp_checkpoint := CheckPoint_new 3 0,
       ppp_snapshot_transaction := Some (ex_snapshot ?src), ppp_transactions := [ex_tx 3 4]\<rparr>"
  have acc: "accepted ?m ?ppp" and sn: "\<not> no_snapshot ?m ?ppp"
    by (simp_all add: accepted_def no_snapshot_def syncable_def PushPullPack_new_def)
  have tx: "ppp_snapshot_transaction ?ppp = Some (ex_snapshot ?src)"
    "tx_operations (ex_snapshot ?src) = [new_snapshot_operation 0 ?src]"
    by (simp_all add: ex_snapshot_def push_operation_def Transaction_new_with_cuid_def)
  have "unskipped (m_checkpoint ?m) ?ppp = [ex_tx 3 4]"
    by (simp add: unskipped_def calculate_pulling_transactions_def CheckPoint_new_def CheckPoint_default_def
        Let_def)
  with subscribe_installs_snapshot [OF acc sn tx] show ?thesis by auto
qed

interpretation lamport: commutative_ops "\<lambda>op l. max l (op_lamport op)"
  by unfold_locales (simp add: max.left_commute max.commute max.assoc)

lemma lamport_max_fold: "lamport_max l ops = fold (\<lambda>op l. max l (op_lamport op)) ops l"
  by (induction ops arbitrary: l) (simp_all add: lamport_max_def)

lemma txs_ops_mset:
  assumes "mset txs = mset txs'"
  shows "mset (txs_ops txs) = mset (txs_ops txs')"
proof -
  have "mset (txs_ops xs) = sum_mset (image_mset (\<lambda>t. mset (tx_operations t)) (mset xs))" for xs
    by (induction xs) simp_all
  with assms show ?thesis by simp
qed

text \<open>
  C26: The order of remote transactions does not matter. Applying the same counter transactions in two
  different orders leaves the whole replica the same, clock included, and both succeed.
\<close>

theorem remote_order_irrelevant:
  assumes "mset txs = mset txs'" and "counter_txs txs"
  shows "execute_remote_transactions m txs = execute_remote_transactions m txs' \<and> snd (execute_remote_transactions m txs) = Ok ()"
proof -
  have "counter_txs txs'" using assms by (simp add: counter_txs_def list_all_iff mset_eq_setD [OF assms(1)])
  moreover have "fold crdt_apply (txs_ops txs) c = fold crdt_apply (txs_ops txs') c" for c
    by (rule counter.fold_run_mset [OF txs_ops_mset [OF assms(1)]])
  moreover have "lamport_max l (txs_ops txs) = lamport_max l (txs_ops txs')" for l
    unfolding lamport_max_fold by (rule lamport.fold_run_mset [OF txs_ops_mset [OF assms(1)]])
  ultimately show ?thesis using assms(2) by (simp add: execute_remote_transactions_counter)
qed

theorem remote_order_irrelevant_witness:
  "execute_remote_transactions ex_mut [ex_tx 1 7, ex_tx 2 8] = execute_remote_transactions ex_mut [ex_tx 2 8, ex_tx 1 7]"
proof -
  have "mset [ex_tx 1 7, ex_tx 2 8] = mset [ex_tx 2 8, ex_tx 1 7]" and "counter_txs [ex_tx 1 7, ex_tx 2 8]" by simp_all
  from remote_order_irrelevant [OF this] show ?thesis by blast
qed

end
