(* ===== verification/Wired.thy ===== *)
theory Wired
  imports Pull_Handler
begin

text \<open>
  The wired layer (\<open>datatypes/wired.rs\<close>, \<open>datatypes/wired_interceptor.rs\<close>): what a
  replica sends, when it has something to send, what it does with a response, a notification and
  an error. The attributes of a replica are one shared object, so the \<open>attr\<close> of the wired
  layer is the one its mutable layer holds. The connectivity backend is a parameter here; its
  contract is the locale at the end.
\<close>

subsection \<open>WiredInterceptor\<close>

record WiredInterceptor =
  wi_before_push :: "PushPullPack \<Rightarrow> PushPullPack"
  wi_after_pull :: "PushPullPack \<Rightarrow> PushPullPack \<times> (unit, DatatypeErrorWithAction) result"

definition WiredInterceptor_new :: WiredInterceptor where
  "WiredInterceptor_new = \<lparr>wi_before_push = (\<lambda>push. push), wi_after_pull = (\<lambda>pull. (pull, Ok ()))\<rparr>"

definition set_before_push ::
  "WiredInterceptor \<Rightarrow> (PushPullPack \<Rightarrow> PushPullPack) \<Rightarrow> WiredInterceptor" where
  "set_before_push self f = self\<lparr>wi_before_push := f\<rparr>"

definition set_after_pull ::
  "WiredInterceptor \<Rightarrow> (PushPullPack \<Rightarrow> PushPullPack \<times> (unit, DatatypeErrorWithAction) result) \<Rightarrow>
   WiredInterceptor" where
  "set_after_pull self f = self\<lparr>wi_after_pull := f\<rparr>"

subsection \<open>WiredDatatype\<close>

record WiredDatatype =
  wd_mutable :: MutableDatatype
  wd_interceptor :: WiredInterceptor

definition WiredDatatype_new :: "MutableDatatype \<Rightarrow> WiredDatatype" where
  "WiredDatatype_new mutable = \<lparr>wd_mutable = mutable, wd_interceptor = WiredInterceptor_new\<rparr>"

definition wired_cuid :: "WiredDatatype \<Rightarrow> Cuid" where
  "wired_cuid self = get_cuid (m_attr (wd_mutable self))"

definition need_push :: "MutableDatatype \<Rightarrow> bool" where
  "need_push self =
     (m_state self = Creating \<or> m_state self = Subscribing \<or> m_state self = SubscribingOrCreating \<or>
      m_state self = Unsubscribing \<or>
      pb_last_cseq (m_push_buffer self) > cp_cseq (m_checkpoint self))"

definition push_if_needed :: "bool \<Rightarrow> WiredDatatype \<Rightarrow> bool" where
  "push_if_needed is_realtime self =
     (if \<not> is_realtime \<or> \<not> need_push (wd_mutable self) then False else True)"

definition wired_handle_error ::
  "WiredDatatype \<Rightarrow> DatatypeError \<Rightarrow> RecoveryAction \<Rightarrow> WiredDatatype \<times> (unit, DatatypeError) result" where
  "wired_handle_error self err recovery =
     (let (m, r) = apply_action (wd_mutable self) recovery
      in and_then (self\<lparr>wd_mutable := m\<rparr>, r)
           (\<lambda>s _. (s\<lparr>wd_mutable := call_error_handler (wd_mutable s) err\<rparr>, Ok ())))"

definition handle_notification :: "WiredDatatype \<Rightarrow> Notification \<Rightarrow> bool" where
  "handle_notification self notify =
     (if get_duid (m_attr (wd_mutable self)) \<noteq> ntf_duid notify then False
      else if get_cuid (m_attr (wd_mutable self)) = ntf_cuid notify then False
      else if cp_sseq (m_checkpoint (wd_mutable self)) \<ge> ntf_sseq notify then False
      else True)"

definition create_push_pull_pack ::
  "extern \<Rightarrow> MutableDatatype \<Rightarrow> (PushPullPack, DatatypeError) result" where
  "create_push_pull_pack x self =
     (let ppp = PushPullPack_new (m_attr self) (m_state self)
      in case get_pushing_transactions (m_push_buffer self) (cp_cseq (m_checkpoint self) + 1)
                (DEFAULT_MAX_TRANSMISSION_SIZE x) of
           Ok (txs, _) \<Rightarrow> Ok (checkpointing (ppp\<lparr>ppp_transactions := txs\<rparr>) (m_checkpoint self) 0)
         | Err e \<Rightarrow> Err e
         | Panic msg \<Rightarrow> Panic msg)"

text \<open>
  \<open>do_push_pull\<close> holds the replica's lock twice, to build the pack and to apply the response, and
  not while the backend works; the two critical sections are separate definitions. \<open>h\<close> is the
  heap of replicas, which a backend may read.
\<close>

definition push_phase :: "extern \<Rightarrow> WiredDatatype \<Rightarrow> (PushPullPack, DatatypeErrorWithAction) result" where
  "push_phase x self =
     (case route_err (create_push_pull_pack x (wd_mutable self)) of
        Ok ppp \<Rightarrow> Ok (wi_before_push (wd_interceptor self) ppp)
      | Err e \<Rightarrow> Err e
      | Panic msg \<Rightarrow> Panic msg)"

definition pull_phase ::
  "(PushPullPack, ConnectivityError) result \<Rightarrow> WiredDatatype \<Rightarrow>
   WiredDatatype \<times> (unit, DatatypeErrorWithAction) result" where
  "pull_phase response self =
     (case response of
        Err e \<Rightarrow> (self, routed (ConnectivityError_to_datatype_error e))
      | Panic msg \<Rightarrow> (self, Panic msg)
      | Ok pulled0 \<Rightarrow>
          (let (pulled, r) = wi_after_pull (wd_interceptor self) pulled0
           in and_then (self, r)
                (\<lambda>s _. (let (m, r') = apply_pull pulled (wd_mutable s) in (s\<lparr>wd_mutable := m\<rparr>, r')))))"

type_synonym heap = "nat \<Rightarrow> WiredDatatype"

type_synonym 'c backend = "heap \<Rightarrow> 'c \<Rightarrow> PushPullPack \<Rightarrow> 'c \<times> (PushPullPack, ConnectivityError) result"

definition do_push_pull ::
  "extern \<Rightarrow> 'c backend \<Rightarrow> nat \<Rightarrow> heap \<times> 'c \<Rightarrow> (heap \<times> 'c) \<times> (unit, DatatypeErrorWithAction) result" where
  "do_push_pull x push_pull self s =
     (let (h, c) = s
      in case push_phase x (h self) of
           Err e \<Rightarrow> ((h, c), Err e)
         | Panic msg \<Rightarrow> ((h, c), Panic msg)
         | Ok pushing_ppp \<Rightarrow>
             (let (c', response) = push_pull h c pushing_ppp;
                  (w, r) = pull_phase response (h self)
              in ((h(self := w), c'), r)))"

definition get_subscribe_snapshot :: "SystemTime \<Rightarrow> WiredDatatype \<Rightarrow> Transaction" where
  "get_subscribe_snapshot now self =
     (push_operation (Transaction_new_with_cuid (wired_cuid self))
        (new_snapshot_operation now (wd_mutable self)))
       \<lparr>tx_sseq := cp_sseq (m_checkpoint (wd_mutable self))\<rparr>"

text \<open>A buffer that still holds everything beyond the acknowledged client sequence number.\<close>

definition unacked_kept :: "MutableDatatype \<Rightarrow> bool" where
  "unacked_kept m =
     (pb_inv (m_push_buffer m) \<and> cp_cseq (m_checkpoint m) + 1 \<noteq> 0 \<and>
      pb_first_cseq (m_push_buffer m) \<le> cp_cseq (m_checkpoint m) + 1)"

definition own_buffer :: "MutableDatatype \<Rightarrow> bool" where
  "own_buffer m = (\<forall>t \<in> set (pb_transaction (m_push_buffer m)). tx_cuid t = get_cuid (m_attr m))"

definition well_formed_pack :: "PushPullPack \<Rightarrow> PushPullPack \<Rightarrow> bool" where
  "well_formed_pack pushed pulled =
     (ppp_cuid pulled = ppp_cuid pushed \<and> ppp_key pulled = ppp_key pushed \<and>
      ppp_collection pulled = ppp_collection pushed \<and> ppp_type pulled = ppp_type pushed \<and>
      ppp_is_readonly pulled = ppp_is_readonly pushed \<and>
      (ppp_error pulled = None \<longrightarrow> ppp_state pulled = expected_state (ppp_state pushed)) \<and>
      (\<forall>tx. ppp_snapshot_transaction pulled = Some tx \<longrightarrow>
         (\<exists>now src. tx_operations tx = [new_snapshot_operation now src])) \<and>
      counter_txs (ppp_transactions pulled))"

subsection \<open>Applying what a backend answers\<close>

lemma pull_well_formed:
  assumes wf: "well_formed_pack p q" and st: "ppp_state p = m_state m" "syncable (m_state m)"
    and len: "length (ppp_transactions q) < 2 ^ 64"
  shows "\<exists>m' r. apply_pull q m = (m', r) \<and> \<not> is_panic r \<and> (r = Ok () \<longleftrightarrow> ppp_error q = None) \<and>
    (r = Ok () \<longrightarrow> m_state m' = expected_state (m_state m))"
proof (cases "ppp_error q")
  case (Some e)
  then show ?thesis using apply_pull_error [OF Some, of m] by (cases e) simp_all
next
  case None
  with assms have acc: "accepted m q" by (simp add: accepted_def well_formed_pack_def)
  have sub: "expected_state (m_state m) = Subscribed" if "\<not> no_snapshot m q"
    using that by (cases "m_state m") (auto simp: no_snapshot_def)
  consider "no_snapshot m q" | (snap) tx where "\<not> no_snapshot m q" "ppp_snapshot_transaction q = Some tx"
    | "\<not> no_snapshot m q" "ppp_snapshot_transaction q = None" by (cases "ppp_snapshot_transaction q") auto
  then show ?thesis
  proof cases
    case 1
    with apply_pull_accepted [OF acc] None show ?thesis by simp
  next
    case snap
    then obtain now src where "tx_operations tx = [new_snapshot_operation now src]"
      using wf by (auto simp: well_formed_pack_def)
    from apply_pull_snapshot [OF acc snap this snapshot_op_simps(1)] None sub snap show ?thesis by simp
  next
    case 3
    with apply_pull_snapshotless [OF acc] None sub show ?thesis by simp
  qed
qed

lemma get_pushing_Ok:
  assumes "cseq \<noteq> 0" and "pb_first_cseq b \<le> cseq"
  shows "\<exists>ts total. get_pushing_transactions b cseq n = Ok (ts, total)"
  using assms by (simp add: get_pushing_transactions_def Let_def not_less [symmetric])

lemma push_phase_Ok:
  assumes "unacked_kept (wd_mutable w)" and "wd_interceptor w = WiredInterceptor_new"
    and cnt: "counter_txs (pb_transaction (m_push_buffer (wd_mutable w)))" "own_buffer (wd_mutable w)"
  shows "\<exists>p. push_phase x w = Ok p \<and> ppp_state p = m_state (wd_mutable w) \<and> counter_txs (ppp_transactions p) \<and> own_pack p"
proof -
  let ?m = "wd_mutable w"
  obtain ts total where get: "get_pushing_transactions (m_push_buffer ?m) (cp_cseq (m_checkpoint ?m) + 1)
      (DEFAULT_MAX_TRANSMISSION_SIZE x) = Ok (ts, total)"
    using get_pushing_Ok assms(1) unfolding unacked_kept_def by blast
  moreover have "counter_txs ts" "\<forall>t \<in> set ts. tx_cuid t = get_cuid (m_attr ?m)"
    using get_pushing_prefix [OF _ get] assms(1) cnt
    by (auto simp: unacked_kept_def counter_txs_def list_all_iff own_buffer_def dest!: in_set_takeD)
  ultimately show ?thesis using assms(2)
    by (auto simp: push_phase_def create_push_pull_pack_def WiredInterceptor_new_def checkpointing_def
        PushPullPack_new_def own_pack_def get_cuid_def Let_def)
qed

subsection \<open>What a replica pushes\<close>

lemma consec_filter:
  assumes inv: "pb_inv b" and le: "pb_first_cseq b \<le> c"
  shows "consec c (filter (\<lambda>t. c \<le> tx_cseq t) (pb_transaction b))"
proof (cases "pb_transaction b = []")
  case False
  let ?xs = "pb_transaction b" and ?n = "unat (c - pb_first_cseq b)"
  from inv False have cs: "consec (pb_first_cseq b) ?xs" "unat (pb_first_cseq b) + length ?xs \<le> 2 ^ 64"
    by (auto simp: pb_inv_def)
  have "consec (pb_first_cseq b + of_nat (length (take ?n ?xs))) (drop ?n ?xs)"
    using cs(1) consec_append [of "pb_first_cseq b" "take ?n ?xs" "drop ?n ?xs"] by simp
  moreover have "pb_first_cseq b + of_nat ?n = c" by simp
  ultimately have "consec c (drop ?n ?xs)" by (cases "?n \<le> length ?xs") (simp_all add: min_absorb2)
  then show ?thesis by (simp add: filter_ge_drop [OF cs le])
qed simp

lemma consec_last: "consec c ts \<Longrightarrow> ts \<noteq> [] \<Longrightarrow> tx_cseq (last ts) + 1 = c + of_nat (length ts)"
proof (induction ts arbitrary: c)
  case (Cons t ts)
  show ?case
  proof (cases "ts = []")
    case False
    with Cons have "tx_cseq (last ts) + 1 = c + 1 + of_nat (length ts)" by simp
    with False show ?thesis by (simp add: algebra_simps)
  qed (use Cons.prems in simp)
qed simp

lemma pack_contents:
  assumes kept: "unacked_kept m" and pack: "create_push_pull_pack x m = Ok p"
  shows "\<exists>rest. ppp_transactions p @ rest =
        filter (\<lambda>t. cp_cseq (m_checkpoint m) + 1 \<le> tx_cseq t) (pb_transaction (m_push_buffer m))"
    and "consec (cp_cseq (m_checkpoint m) + 1) (ppp_transactions p)"
    and "ppp_checkpoint p = \<lparr>cp_sseq = cp_sseq (m_checkpoint m),
          cp_cseq = cp_cseq (m_checkpoint m) + of_nat (length (ppp_transactions p))\<rparr>"
    and "p = (PushPullPack_new (m_attr m) (m_state m))
          \<lparr>ppp_transactions := ppp_transactions p, ppp_checkpoint := ppp_checkpoint p\<rparr>"
proof -
  let ?c = "cp_cseq (m_checkpoint m) + 1"
  obtain total where get: "get_pushing_transactions (m_push_buffer m) ?c (DEFAULT_MAX_TRANSMISSION_SIZE x)
        = Ok (ppp_transactions p, total)"
    and p: "p = checkpointing ((PushPullPack_new (m_attr m) (m_state m))
        \<lparr>ppp_transactions := ppp_transactions p\<rparr>) (m_checkpoint m) 0"
    using pack by (auto simp: create_push_pull_pack_def checkpointing_def Let_def split: result.splits)
  obtain k where k: "ppp_transactions p = take k (filter (\<lambda>t. ?c \<le> tx_cseq t) (pb_transaction (m_push_buffer m)))"
    using get_pushing_prefix [OF _ get] kept by (auto simp: unacked_kept_def)
  then show "\<exists>rest. ppp_transactions p @ rest =
        filter (\<lambda>t. ?c \<le> tx_cseq t) (pb_transaction (m_push_buffer m))"
    by (metis append_take_drop_id)
  show cs: "consec ?c (ppp_transactions p)"
    using consec_filter [of "m_push_buffer m" ?c] kept k consec_append
    by (metis append_take_drop_id unacked_kept_def)
  have "cp_cseq (ppp_checkpoint p) = cp_cseq (m_checkpoint m) + of_nat (length (ppp_transactions p))"
    using consec_last [OF cs] by (subst p) (auto simp: checkpointing_def algebra_simps)
  moreover have "cp_sseq (ppp_checkpoint p) = cp_sseq (m_checkpoint m)"
    by (subst p) (simp add: checkpointing_def)
  ultimately show "ppp_checkpoint p = \<lparr>cp_sseq = cp_sseq (m_checkpoint m),
      cp_cseq = cp_cseq (m_checkpoint m) + of_nat (length (ppp_transactions p))\<rparr>" by simp
  show "p = (PushPullPack_new (m_attr m) (m_state m))
          \<lparr>ppp_transactions := ppp_transactions p, ppp_checkpoint := ppp_checkpoint p\<rparr>"
    using arg_cong [OF p, of ppp_checkpoint]
    by (subst (1) p) (simp add: checkpointing_def PushPullPack_new_def)
qed

subsection \<open>Contract of a connectivity backend\<close>

locale connectivity =
  fixes push_pull :: "'c backend" and sound :: "'c \<Rightarrow> bool"
  assumes responds: "syncable (ppp_state p) \<Longrightarrow> \<not> is_panic (snd (push_pull h c p))"
    and answers: "sound c \<Longrightarrow> syncable (ppp_state p) \<Longrightarrow> counter_txs (ppp_transactions p) \<Longrightarrow>
        push_pull h c p = (c', Ok q) \<Longrightarrow> well_formed_pack p q"
    and keeps_sound: "sound c \<Longrightarrow> counter_txs (ppp_transactions p) \<Longrightarrow> own_pack p \<Longrightarrow> sound (fst (push_pull h c p))"
begin

text \<open>
  A client of a backend that keeps the contract: one exchange never panics, touches no other
  replica, keeps the backend sound, and on success the replica is in the state it asked for.
\<close>

lemma exchange:
  assumes "sound c" and w: "wd_interceptor (h self) = WiredInterceptor_new" "unacked_kept (wd_mutable (h self))"
      "counter_txs (pb_transaction (m_push_buffer (wd_mutable (h self))))" "own_buffer (wd_mutable (h self))"
    and sync: "syncable (m_state (wd_mutable (h self)))"
    and fits: "\<And>p c' q. push_phase x (h self) = Ok p \<Longrightarrow> push_pull h c p = (c', Ok q) \<Longrightarrow>
        length (ppp_transactions q) < 2 ^ 64"
    and e: "do_push_pull x push_pull self (h, c) = ((h', c'), r)"
  shows "\<not> is_panic r \<and> sound c' \<and> (\<forall>j. j \<noteq> self \<longrightarrow> h' j = h j) \<and>
    (r = Ok () \<longrightarrow> m_state (wd_mutable (h' self)) = expected_state (m_state (wd_mutable (h self))))"
proof -
  obtain p where p: "push_phase x (h self) = Ok p" "ppp_state p = m_state (wd_mutable (h self))"
      "counter_txs (ppp_transactions p)" "own_pack p"
    using push_phase_Ok [OF w(2,1,3,4)] by blast
  obtain c1 resp where resp: "push_pull h c p = (c1, resp)" by (metis prod.collapse)
  have "sound c1" using keeps_sound [OF assms(1) p(3,4), of h] resp by simp
  have np: "\<not> is_panic resp" using responds [of p h c] resp sync p(2) by simp
  show ?thesis
  proof (cases resp)
    case (Ok q)
    have "well_formed_pack p q" using answers [OF assms(1) _ p(3)] resp Ok sync p(2) by simp
    from pull_well_formed [OF this p(2) sync] fits [of p c1 q] p(1) resp Ok
    obtain m' r' where m': "apply_pull q (wd_mutable (h self)) = (m', r')" "\<not> is_panic r'"
      "r' = Ok () \<longrightarrow> m_state m' = expected_state (m_state (wd_mutable (h self)))" by auto
    with p e resp Ok w(1) \<open>sound c1\<close> show ?thesis
      by (auto simp: do_push_pull_def pull_phase_def WiredInterceptor_new_def Let_def)
  next
    case (Err er)
    with p e resp \<open>sound c1\<close> show ?thesis
      by (cases er) (auto simp: do_push_pull_def pull_phase_def Let_def)
  qed (use np in simp)
qed

end

end
