(* ===== verification/Event_Loop.thy ===== *)
theory Event_Loop
  imports Wired
begin

text \<open>
  The event loop of a datatype (\<open>datatypes/event_loop.rs\<close>): two channels, the scheduling
  mode, and the loop that turns events into push-pull exchanges and routed errors into recovery.
  The outcome of \<open>select!\<close>, which the library leaves to the scheduler, is an argument.
\<close>

subsection \<open>Modes, events and channels\<close>

datatype LoopMode = Normal | BackOff_mode | Stopped

fun LoopMode_from :: "RecoveryAction \<Rightarrow> LoopMode" where
  "LoopMode_from NotifyOnly = Normal"
| "LoopMode_from Resubscribe = Normal"
| "LoopMode_from RetryWithBackOff = BackOff_mode"
| "LoopMode_from ResubscribeWithBackOff = BackOff_mode"
| "LoopMode_from Disable = Stopped"
| "LoopMode_from RollbackTransaction = Normal"

text \<open>The sender ends a \<open>Stop\<close> and a waiting \<open>sync\<close> carry are named by numbers.\<close>

datatype Event = Stop nat | PushTransaction "nat option" | BackOff | Notify Notification

fun Event_display :: "Event \<Rightarrow> string" where
  "Event_display (Stop _) = ''Stop''"
| "Event_display (PushTransaction _) = ''PushTransaction''"
| "Event_display BackOff = ''BackOff''"
| "Event_display (Notify _) = ''Notify''"

text \<open>
  The loop object holds both ends of its channels, so they are never disconnected; the bounded
  one has capacity 1.
\<close>

record EventLoop =
  el_is_realtime :: bool
  el_bounded :: "Event list"
  el_unbounded :: "Event list"

definition EventLoop_new :: "bool \<Rightarrow> EventLoop" where
  "EventLoop_new is_realtime = \<lparr>el_is_realtime = is_realtime, el_bounded = [], el_unbounded = []\<rparr>"

definition BACKOFF_MIN_DELAY :: nat where
  "BACKOFF_MIN_DELAY = 500"

definition BACKOFF_MAX_DELAY :: nat where
  "BACKOFF_MAX_DELAY = 30000"

definition send_to_unbounded :: "EventLoop \<Rightarrow> Event \<Rightarrow> EventLoop \<times> (unit, DatatypeError) result" where
  "send_to_unbounded self ev = (self\<lparr>el_unbounded := el_unbounded self @ [ev]\<rparr>, Ok ())"

definition send_to_bounded :: "EventLoop \<Rightarrow> Event \<Rightarrow> EventLoop \<times> (unit, DatatypeError) result" where
  "send_to_bounded self ev =
     (if length (el_bounded self) \<ge> 1
      then (self, Err (into_error (EventLoopFailure ''Full(..)'')))
      else (self\<lparr>el_bounded := el_bounded self @ [ev]\<rparr>, Ok ()))"

definition send_push_transaction_with_best_effort :: "EventLoop \<Rightarrow> EventLoop" where
  "send_push_transaction_with_best_effort self =
     (if \<not> el_is_realtime self then self else fst (send_to_bounded self (PushTransaction None)))"

text \<open>
  \<open>sync()\<close> sends a request with a response channel and waits on it; the answer is an optional
  error, or the channel is dropped without one.
\<close>

definition send_push_transaction :: "EventLoop \<Rightarrow> nat \<Rightarrow> EventLoop \<times> (unit, DatatypeError) result" where
  "send_push_transaction self tx = send_to_unbounded self (PushTransaction (Some tx))"

fun await_response :: "DatatypeError option option \<Rightarrow> (unit, DatatypeError) result" where
  "await_response (Some (Some err)) = Err err"
| "await_response (Some None) = Ok ()"
| "await_response None =
     Err (into_error (EventLoopFailure ''failed to receive response of sync(): channel closed''))"

definition send_stop :: "EventLoop \<Rightarrow> nat \<Rightarrow> EventLoop" where
  "send_stop self tx = fst (send_to_unbounded self (Stop tx))"

subsection \<open>Receiving\<close>

datatype Selected = Recv_Unbounded | Recv_Bounded | Timeout

text \<open>\<open>lp_responses\<close> and \<open>lp_stopped\<close> are the logs of what the loop sent back.\<close>

record LoopState =
  lp_mode :: LoopMode
  lp_backoff :: "nat option"
  lp_running :: bool
  lp_responses :: "(nat \<times> DatatypeError option) list"
  lp_stopped :: "nat list"

definition LoopState_new :: LoopState where
  "LoopState_new = \<lparr>lp_mode = Normal, lp_backoff = None, lp_running = True, lp_responses = [], lp_stopped = []\<rparr>"

definition next_backoff :: "extern \<Rightarrow> LoopState \<Rightarrow> LoopState \<times> nat" where
  "next_backoff x lp =
     (let n = (case lp_backoff lp of Some n \<Rightarrow> n | None \<Rightarrow> 0);
          d = (case backon_delay x n of Some d \<Rightarrow> d | None \<Rightarrow> BACKOFF_MAX_DELAY)
      in (lp\<lparr>lp_backoff := Some (n + 1)\<rparr>, d))"

fun recv :: "Event list \<Rightarrow> (Event \<times> Event list) option" where
  "recv [] = None"
| "recv (ev # evs) = Some (ev, evs)"

text \<open>
  \<open>None\<close>: the selected case is not ready, the loop is still waiting. A receive error cannot occur
  while the loop holds both ends.
\<close>

definition receive_event ::
  "extern \<Rightarrow> WiredDatatype \<Rightarrow> Selected \<Rightarrow> EventLoop \<times> LoopState \<Rightarrow> ((EventLoop \<times> LoopState) \<times> Event) option" where
  "receive_event x wired sel s =
     (let (el, lp) = s;
          (lp1, push, backoff_duration) =
            (case lp_mode lp of
               Normal \<Rightarrow> (lp, True, None)
             | Stopped \<Rightarrow> (lp, False, None)
             | BackOff_mode \<Rightarrow> (let (lp', d) = next_backoff x lp in (lp', False, Some d)))
      in if push \<and> push_if_needed (el_is_realtime el) wired then Some ((el, lp1), PushTransaction None)
         else (case backoff_duration of
                 Some _ \<Rightarrow>
                   (case sel of
                      Recv_Unbounded \<Rightarrow>
                        map_option (\<lambda>(ev, evs). ((el\<lparr>el_unbounded := evs\<rparr>, lp1), ev)) (recv (el_unbounded el))
                    | Timeout \<Rightarrow> Some ((el, lp1\<lparr>lp_mode := Normal\<rparr>), BackOff)
                    | Recv_Bounded \<Rightarrow> None)
               | None \<Rightarrow>
                   (case sel of
                      Recv_Unbounded \<Rightarrow>
                        map_option (\<lambda>(ev, evs). ((el\<lparr>el_unbounded := evs\<rparr>, lp1), ev)) (recv (el_unbounded el))
                    | Recv_Bounded \<Rightarrow>
                        map_option (\<lambda>(ev, evs). ((el\<lparr>el_bounded := evs\<rparr>, lp1), ev)) (recv (el_bounded el))
                    | Timeout \<Rightarrow> None)))"

subsection \<open>The loop\<close>

definition process_blocking_resp :: "LoopState \<Rightarrow> nat option \<Rightarrow> DatatypeError option \<Rightarrow> LoopState" where
  "process_blocking_resp lp resp_tx err =
     (case resp_tx of None \<Rightarrow> lp | Some tx \<Rightarrow> lp\<lparr>lp_responses := lp_responses lp @ [(tx, err)]\<rparr>)"

text \<open>\<open>h\<close> is the heap of replicas, \<open>c\<close> the backend, \<open>self\<close> the address of the loop's replica.\<close>

definition process_push_transaction ::
  "extern \<Rightarrow> 'c backend \<Rightarrow> nat \<Rightarrow> nat option \<Rightarrow> LoopState \<times> heap \<times> 'c \<Rightarrow> LoopState \<times> heap \<times> 'c" where
  "process_push_transaction x push_pull self resp_tx s =
     (let (lp, h, c) = s
      in if lp_mode lp = Stopped
         then (process_blocking_resp lp resp_tx
                 (Some (into_error (EventLoopFailure ''event loop stopped''))), h, c)
         else (let ((h1, c1), r) = do_push_pull x push_pull self (h, c)
               in case r of
                    Ok _ \<Rightarrow>
                      (process_blocking_resp (lp\<lparr>lp_mode := Normal, lp_backoff := None\<rparr>) resp_tx None, h1, c1)
                  | Err dewa \<Rightarrow>
                      (let mode = LoopMode_from (dewa_recovery dewa);
                           lp1 = lp\<lparr>lp_mode := mode\<rparr>;
                           (w, hr) = wired_handle_error (h1 self) (dewa_error dewa) (dewa_recovery dewa);
                           lp2 = (if mode \<noteq> BackOff_mode then lp1\<lparr>lp_backoff := None\<rparr> else lp1)
                       in if is_panic hr then (lp1\<lparr>lp_running := False\<rparr>, h1(self := w), c1)
                          else (process_blocking_resp lp2 resp_tx (Some (dewa_error dewa)), h1(self := w), c1))
                  | Panic msg \<Rightarrow> (lp\<lparr>lp_running := False\<rparr>, h1, c1)))"

definition process_event ::
  "extern \<Rightarrow> 'c backend \<Rightarrow> nat \<Rightarrow> Event \<Rightarrow> EventLoop \<times> LoopState \<times> heap \<times> 'c \<Rightarrow>
   EventLoop \<times> LoopState \<times> heap \<times> 'c" where
  "process_event x push_pull self event s =
     (let (el, lp, h, c) = s
      in case event of
           Stop tx \<Rightarrow> (el, lp\<lparr>lp_stopped := lp_stopped lp @ [tx], lp_running := False\<rparr>, h, c)
         | PushTransaction resp_tx \<Rightarrow> (el, process_push_transaction x push_pull self resp_tx (lp, h, c))
         | BackOff \<Rightarrow> (el, lp, h, c)
         | Notify notify \<Rightarrow>
             (if handle_notification (h self) notify
              then (fst (send_to_bounded el (PushTransaction None)), lp, h, c)
              else (el, lp, h, c)))"

text \<open>One round of the loop; \<open>None\<close> when it is waiting or has ended.\<close>

definition loop_round ::
  "extern \<Rightarrow> 'c backend \<Rightarrow> nat \<Rightarrow> Selected \<Rightarrow> EventLoop \<times> LoopState \<times> heap \<times> 'c \<Rightarrow>
   (EventLoop \<times> LoopState \<times> heap \<times> 'c) option" where
  "loop_round x push_pull self sel s =
     (let (el, lp, h, c) = s
      in if \<not> lp_running lp then None
         else (case receive_event x (h self) sel (el, lp) of
                 None \<Rightarrow> None
               | Some ((el1, lp1), event) \<Rightarrow> Some (process_event x push_pull self event (el1, lp1, h, c))))"

fun loop_run ::
  "extern \<Rightarrow> 'c backend \<Rightarrow> nat \<Rightarrow> Selected list \<Rightarrow> EventLoop \<times> LoopState \<times> heap \<times> 'c \<Rightarrow>
   (EventLoop \<times> LoopState \<times> heap \<times> 'c) option" where
  "loop_run x push_pull self [] s = Some s"
| "loop_run x push_pull self (sel # sels) s =
     (case loop_round x push_pull self sel s of
        None \<Rightarrow> None
      | Some s' \<Rightarrow> loop_run x push_pull self sels s')"

text \<open>A replica whose next transaction to push does not fit the transmission limit.\<close>

definition stuck :: "extern \<Rightarrow> WiredDatatype \<Rightarrow> bool" where
  "stuck x w =
     (let m = wd_mutable w; c = cp_cseq (m_checkpoint m)
      in m_state m = Subscribed \<and> unacked_kept m \<and> c < pb_last_cseq (m_push_buffer m) \<and>
         wd_interceptor w = WiredInterceptor_new \<and>
         (case filter (\<lambda>t. c + 1 \<le> tx_cseq t) (pb_transaction (m_push_buffer m)) of
            [] \<Rightarrow> False
          | t # _ \<Rightarrow> DEFAULT_MAX_TRANSMISSION_SIZE x < Transaction_size t))"

text \<open>An error of the remote path routes to a retry or to \<open>Disable\<close>.\<close>

definition loop_error :: "DatatypeErrorWithAction \<Rightarrow> bool" where
  "loop_error d = (dewa_recovery d = RetryWithBackOff \<or> dewa_recovery d = Disable)"

definition ex_loop :: EventLoop where
  "ex_loop = \<lparr>el_is_realtime = True, el_bounded = [], el_unbounded = [PushTransaction (Some 4), Stop 5]\<rparr>"

definition ex_world :: heap where
  "ex_world = (\<lambda>_. WiredDatatype_new ex_mut)"

definition ex_backend :: "unit backend" where
  "ex_backend h c p = (c, Err (TimedOut ''no route''))"

subsection \<open>Facts about one round\<close>

lemma push_if_needed_iff: "push_if_needed rt w \<longleftrightarrow> rt \<and> need_push (wd_mutable w)"
  by (simp add: push_if_needed_def)

lemma receive_stopped:
  assumes "receive_event x w sel (el, lp) = Some ((el', lp'), ev)" and "lp_mode lp = Stopped"
  shows "lp' = lp"
  using assms by (cases sel) (auto simp: receive_event_def Let_def)

lemma process_blocking_resp_simps [simp]:
  "lp_mode (process_blocking_resp lp tx e) = lp_mode lp"
  "lp_backoff (process_blocking_resp lp tx e) = lp_backoff lp"
  "lp_running (process_blocking_resp lp tx e) = lp_running lp"
  "lp_stopped (process_blocking_resp lp tx e) = lp_stopped lp"
  by (simp_all add: process_blocking_resp_def split: option.splits)

subsection \<open>Which recoveries reach the loop\<close>

lemma Crdt_remote_error:
  "Crdt_execute_remote_operation c op = (c', Err e) \<Longrightarrow> \<exists>msg. e = Internal msg"
  by (cases c; cases "op_body op")
    (auto simp: Crdt_execute_remote_operation_def Delay4TestBody_run_def into_error_def CounterCrdt_increase_by_def
      split: prod.splits result.splits if_splits OperationBody.splits)

lemma execute_remote_error:
  "execute_remote_operations m ops = (m', Err e) \<Longrightarrow> \<exists>msg. e = Internal msg"
  by (induction ops arbitrary: m)
    (auto simp: execute_remote_operation_at_def Let_def elim!: and_then_cases dest: Crdt_remote_error split: prod.splits)

lemma execute_remote_transactions_error:
  "execute_remote_transactions m txs = (m', Err d) \<Longrightarrow> loop_error d"
  by (induction txs arbitrary: m)
    (auto simp: execute_remote_transaction_def loop_error_def route_err_Err Let_def split: prod.splits
      elim!: and_then_cases dest!: execute_remote_error)

lemma apply_snapshot_error:
  assumes "apply_snapshot_transaction m tx = (m', Err e)"
  shows "(\<exists>msg. e = Internal msg) \<or> (\<exists>r. e = ServerRejected r)"
proof -
  have des: "Crdt_deserialize c bs = (c', Err e) \<Longrightarrow> \<exists>msg. e = Internal msg" for c bs c'
    by (cases c) (auto simp: into_error_def split: if_splits)
  show ?thesis using assms
    by (auto simp: apply_snapshot_transaction_def Let_def split: list.splits OperationBody.splits prod.splits
        elim!: and_then_cases dest: des)
qed

lemma routed_cases:
  assumes "routed e = Err d"
  shows "dewa_recovery d = RetryWithBackOff \<or> dewa_recovery d = Disable \<or> e = PushBufferExceededMaxMemSize"
  using assms by (cases e) (auto simp: routed_def)

lemma run_step_error:
  assumes "run_step st h = (h', Err d)"
  shows "loop_error d"
proof (cases st)
  case ApplySubscribeResponse
  obtain tx m r where "apply_snapshot_transaction (ph_mutable h) tx = (m, r)" and "route_err r = Err d"
    using assms ApplySubscribeResponse
    by (auto simp: apply_subscribe_response_def Let_def elim!: and_then_cases split: option.splits prod.splits)
  then show ?thesis by (auto simp: loop_error_def route_err_Err dest!: apply_snapshot_error)
next
  case ExecuteTransactions
  then show ?thesis using assms
    by (auto simp: execute_transactions_def Let_def split: if_splits prod.splits dest: execute_remote_transactions_error)
qed (use assms in \<open>auto simp: skip_duplicated_transactions_def sync_checkpoint_def Let_def\<close>)

lemma run_steps_error: "run_steps sts h = (h', Err d) \<Longrightarrow> loop_error d"
  by (induction sts arbitrary: h) (auto elim!: and_then_cases dest: run_step_error)

lemma handle_state_error:
  assumes "handle_error_and_datatype_state h = (h', Err d)"
  shows "loop_error d"
proof -
  have ex: "expect_state k st = (k', Err d) \<Longrightarrow> loop_error d" for k k' st
    by (auto simp: expect_state_def process_illegal_state_response_def loop_error_def split: if_splits)
  have ppe: "routed (PushPullError_to_datatype_error w) = Err d \<Longrightarrow> loop_error d" for w
    by (cases w) (auto simp: loop_error_def)
  show ?thesis using assms
    by (auto simp: handle_error_and_datatype_state_def Let_def split: option.splits DatatypeState.splits
        elim!: and_then_cases dest: ex ppe)
qed

lemma apply_pull_loop_error:
  assumes "apply_pull q m = (m', Err d)"
  shows "loop_error d"
proof -
  obtain h' where "PullHandler_apply (PullHandler_new q m) = (h', Err d)"
    using assms by (auto simp: apply_pull_def split: prod.splits)
  then show ?thesis
    by (auto simp: PullHandler_apply_def commit_def Let_def split: prod.splits if_splits
        elim!: and_then_cases dest: handle_state_error run_steps_error)
qed

lemma do_push_pull_loop_error:
  assumes "do_push_pull x push_pull self (h, c) = ((h', c'), Err d)"
    and "wd_interceptor (h self) = WiredInterceptor_new"
  shows "loop_error d"
proof (cases "push_phase x (h self)")
  case (Err e)
  obtain er where "create_push_pull_pack x (wd_mutable (h self)) = Err er"
    and "(routed er :: (PushPullPack, DatatypeErrorWithAction) result) = Err e"
    using Err by (auto simp: push_phase_def route_err_Err split: result.splits)
  moreover have "er = into_error GetPushingTransactions"
    using calculation(1) by (auto simp: create_push_pull_pack_def get_pushing_transactions_def Let_def
        split: result.splits if_splits)
  ultimately show ?thesis using assms Err by (auto simp: do_push_pull_def loop_error_def)
next
  case (Ok p)
  obtain c1 resp where "push_pull h c p = (c1, resp)" by (metis prod.collapse)
  then have "pull_phase resp (h self) = (h' self, Err d)"
    using assms Ok by (auto simp: do_push_pull_def split: prod.splits)
  moreover have "(routed (ConnectivityError_to_datatype_error e) :: (unit, _) result) = Err d \<Longrightarrow> loop_error d" for e
    by (cases e) (auto simp: loop_error_def)
  ultimately show ?thesis using assms(2)
    by (cases resp) (auto simp: pull_phase_def WiredInterceptor_new_def split: prod.splits
        dest: apply_pull_loop_error)
qed (use assms in \<open>auto simp: do_push_pull_def\<close>)

subsection \<open>Properties\<close>

text \<open>
  C30: A stopped loop does not sync. Once a permanent failure has stopped the loop, no round of it,
  whatever event it receives, touches any replica or reaches the backend, the mode stays stopped, and
  a waiting \<open>sync\<close> call is answered with an error.
\<close>

theorem stopped_loop_never_pushes:
  assumes "loop_round x push_pull self sel (el, lp, h, c) = Some (el', lp', h', c')" and "lp_mode lp = Stopped"
  shows "h' = h \<and> c' = c \<and> lp_mode lp' = Stopped \<and>
    (lp_responses lp' = lp_responses lp \<or>
     (\<exists>tx. lp_responses lp' = lp_responses lp @ [(tx, Some (into_error (EventLoopFailure ''event loop stopped'')))]))"
proof -
  obtain el1 lp1 ev where rcv: "receive_event x (h self) sel (el, lp) = Some ((el1, lp1), ev)"
    and e: "process_event x push_pull self ev (el1, lp1, h, c) = (el', lp', h', c')"
    using assms(1) by (auto simp: loop_round_def split: if_splits option.splits prod.splits)
  have "lp1 = lp" using receive_stopped [OF rcv assms(2)] .
  with e assms(2) show ?thesis
    by (cases ev) (auto simp: process_event_def process_push_transaction_def process_blocking_resp_def
        split: if_splits option.splits)
qed

theorem stopped_loop_never_pushes_witness:
  "\<exists>el' lp' h' c'. loop_round ex_extern ex_backend 0 Recv_Unbounded (ex_loop, LoopState_new\<lparr>lp_mode := Stopped\<rparr>, ex_world, ())
       = Some (el', lp', h', c') \<and> h' = ex_world \<and> lp_mode lp' = Stopped"
proof -
  obtain el' lp' h' c' where r: "loop_round ex_extern ex_backend 0 Recv_Unbounded
      (ex_loop, LoopState_new\<lparr>lp_mode := Stopped\<rparr>, ex_world, ()) = Some (el', lp', h', c')"
    by (simp add: loop_round_def LoopState_new_def receive_event_def ex_loop_def process_event_def
        process_push_transaction_def)
  from stopped_loop_never_pushes [OF r] r show ?thesis by (simp add: LoopState_new_def)
qed

text \<open>
  C29: Errors are routed as declared. Whatever the backend answers, a failed exchange of a replica
  routes to one of two recoveries, never to a rollback: \<open>Disable\<close> stops the loop, disables the
  replica and empties its buffer and transaction record; \<open>RetryWithBackOff\<close> puts the loop into
  backoff and leaves CRDT, clock, buffer, checkpoint and state as the exchange left them. In both cases
  the waiting \<open>sync\<close> call gets the error, the error handlers are called, and no other replica changes.
\<close>

theorem failed_exchange_routing:
  assumes ex: "do_push_pull x push_pull self (h, c) = ((h1, c1), Err dewa)"
    and w: "wd_interceptor (h self) = WiredInterceptor_new" and mode: "lp_mode lp \<noteq> Stopped"
    and e: "process_push_transaction x push_pull self (Some tx) (lp, h, c) = (lp', h', c')"
  shows "(dewa_recovery dewa = Disable \<and> lp_mode lp' = Stopped \<and> lp_backoff lp' = None \<and>
            m_state (wd_mutable (h' self)) = Disabled \<and> pb_transaction (m_push_buffer (wd_mutable (h' self))) = [] \<and>
            pending (m_tx_record (wd_mutable (h' self))) = None \<or>
          dewa_recovery dewa = RetryWithBackOff \<and> lp_mode lp' = BackOff_mode \<and>
            wd_mutable (h' self) = call_error_handler (wd_mutable (h1 self)) (dewa_error dewa)) \<and>
    (\<exists>es. m_effects (wd_mutable (h' self)) =
       es @ notify_error (m_handlers (wd_mutable (h1 self))) (m_attr (wd_mutable (h1 self))) (dewa_error dewa)) \<and>
    lp_responses lp' = lp_responses lp @ [(tx, Some (dewa_error dewa))] \<and>
    (\<forall>j. j \<noteq> self \<longrightarrow> h' j = h1 j) \<and> c' = c1"
proof -
  have "loop_error dewa" by (rule do_push_pull_loop_error [OF ex w])
  then consider "dewa_recovery dewa = Disable" | "dewa_recovery dewa = RetryWithBackOff"
    by (auto simp: loop_error_def)
  then show ?thesis
    by cases (use ex e mode in \<open>auto simp: process_push_transaction_def wired_handle_error_def
      call_error_handler_def mutable_disable_def process_blocking_resp_def TxRecord_new_def
      MemoryPushBuffer_new_def\<close>)
qed

theorem failed_exchange_routing_witness:
  "\<exists>lp' h' c'. process_push_transaction ex_extern ex_backend 0 (Some 4) (LoopState_new, ex_world, ()) = (lp', h', c') \<and>
     lp_mode lp' = BackOff_mode \<and> lp_responses lp' =
       [(4, Some (SyncFailed ''[ConnectivityError] connection timed out: no route''))]"
proof -
  let ?d = "DatatypeErrorWithAction_new (SyncFailed ''[ConnectivityError] connection timed out: no route'')
    RetryWithBackOff"
  have ex: "do_push_pull ex_extern ex_backend 0 (ex_world, ()) = ((ex_world, ()), Err ?d)"
    by (simp add: do_push_pull_def push_phase_def create_push_pull_pack_def ex_world_def WiredDatatype_new_def
        get_pushing_transactions_def MemoryPushBuffer_new_def ex_backend_def pull_phase_def fun_upd_idem)
  have w: "wd_interceptor (ex_world 0) = WiredInterceptor_new" by (simp add: ex_world_def WiredDatatype_new_def)
  obtain lp' h' c' where e: "process_push_transaction ex_extern ex_backend 0 (Some 4) (LoopState_new, ex_world, ())
      = (lp', h', c')" by (metis prod.collapse)
  have "lp_mode LoopState_new \<noteq> Stopped" by (simp add: LoopState_new_def)
  from failed_exchange_routing [OF ex w this e] e show ?thesis by (auto simp: LoopState_new_def)
qed

end
