(* ===== verification/Null_Connectivity.thy ===== *)
theory Null_Connectivity
  imports Wired
begin

text \<open>
  The backend without a server (\<open>connectivity/null_connectivity.rs\<close>): it acknowledges
  whatever a client pushes. It keeps no state and reads no replica.
\<close>

definition push_transaction :: "PushPullPack \<Rightarrow> PushPullPack \<Rightarrow> PushPullPack" where
  "push_transaction pushed pulled =
     pulled\<lparr>ppp_checkpoint := (ppp_checkpoint pulled)
              \<lparr>cp_cseq := cp_cseq (ppp_checkpoint pushed), cp_sseq := cp_cseq (ppp_checkpoint pushed)\<rparr>\<rparr>"

definition set_illegal_push_request :: "PushPullPack \<Rightarrow> string \<Rightarrow> PushPullPack" where
  "set_illegal_push_request pulled reason =
     pulled\<lparr>ppp_error := Some (PPE_ProtocolViolation reason), ppp_state := Disabled\<rparr>"

definition creating_or_subscribing :: "PushPullPack \<Rightarrow> PushPullPack \<Rightarrow> (PushPullPack, ConnectivityError) result" where
  "creating_or_subscribing pushed pulled =
     (if ppp_is_readonly pushed
      then Ok (pulled\<lparr>ppp_error := Some PPE_ReadonlyViolation, ppp_state := Disabled\<rparr>)
      else Ok (push_transaction pushed (pulled\<lparr>ppp_state := Subscribed\<rparr>)))"

definition NullConnectivity_push_pull :: "PushPullPack \<Rightarrow> (PushPullPack, ConnectivityError) result" where
  "NullConnectivity_push_pull pushed =
     (let pulled = get_pulled_stub pushed
      in case ppp_state pushed of
           Creating \<Rightarrow> creating_or_subscribing pushed pulled
         | SubscribingOrCreating \<Rightarrow> creating_or_subscribing pushed pulled
         | Subscribing \<Rightarrow>
             (if ppp_transactions pushed \<noteq> []
              then Ok (set_illegal_push_request pulled ''cannot subscribe with transactions'')
              else Ok (pulled\<lparr>ppp_state := Subscribed\<rparr>))
         | Subscribed \<Rightarrow> Ok (push_transaction pushed (pulled\<lparr>ppp_state := Subscribed\<rparr>))
         | Unsubscribing \<Rightarrow> Ok (push_transaction pushed (pulled\<lparr>ppp_state := Disabled\<rparr>))
         | Deleting \<Rightarrow> Panic ''not yet implemented''
         | Disabled \<Rightarrow> Panic ''this cannot be happened'')"

definition NullConnectivity_is_realtime :: bool where
  "NullConnectivity_is_realtime = True"

definition null_backend :: "unit backend" where
  "null_backend h c pushed = (c, NullConnectivity_push_pull pushed)"

subsection \<open>The backend keeps the contract\<close>

lemmas null_simps = null_backend_def NullConnectivity_push_pull_def creating_or_subscribing_def
  push_transaction_def set_illegal_push_request_def get_pulled_stub_def

interpretation null: connectivity null_backend "\<lambda>_. True"
proof unfold_locales
  fix p :: PushPullPack and h :: heap and c :: unit
  assume "syncable (ppp_state p)"
  then show "\<not> is_panic (snd (null_backend h c p))"
    by (cases "ppp_state p") (auto simp: null_simps syncable_def Let_def)
next
  fix c c' :: unit and p q :: PushPullPack and h :: heap
  assume "syncable (ppp_state p)" and "null_backend h c p = (c', Ok q)"
  then show "well_formed_pack p q"
    by (cases "ppp_state p") (auto simp: null_simps syncable_def well_formed_pack_def Let_def split: if_splits)
qed simp

end
