(* ===== verification/Loop_Liveness.thy ===== *)
theory Loop_Liveness
  imports Event_Loop Null_Connectivity
begin

text \<open>
  The event loop of a subscribed replica together with a backend that acknowledges: the loop drains the
  push buffer in finitely many rounds and then serves its channels. Proved once for the contract
  \<open>acknowledging\<close>, which the backend without a server keeps (interpreted here) and the in-memory backend
  (interpreted in theory Loop_Sync). A transaction too large to be transmitted keeps the loop from its
  channels for ever.
\<close>

subsection \<open>One round with something to push\<close>

definition acked_upto :: "u64 \<Rightarrow> MutableDatatype \<Rightarrow> MutableDatatype" where
  "acked_upto c m = m\<lparr>m_checkpoint := check_with (m_checkpoint m) \<lparr>cp_sseq = c, cp_cseq = c\<rparr>\<rparr>"

definition ready :: "WiredDatatype \<Rightarrow> bool" where
  "ready w =
     (wd_interceptor w = WiredInterceptor_new \<and> m_state (wd_mutable w) = Subscribed \<and> unacked_kept (wd_mutable w) \<and>
      cp_cseq (m_checkpoint (wd_mutable w)) \<le> pb_last_cseq (m_push_buffer (wd_mutable w)) \<and>
      unat (pb_last_cseq (m_push_buffer (wd_mutable w))) + 1 < 2 ^ 64)"

definition awake :: "EventLoop \<Rightarrow> LoopState \<Rightarrow> bool" where
  "awake el lp = (el_is_realtime el \<and> lp_mode lp = Normal \<and> lp_running lp)"

definition pushing :: "EventLoop \<Rightarrow> LoopState \<Rightarrow> WiredDatatype \<Rightarrow> bool" where
  "pushing el lp w = (awake el lp \<and> ready w)"

definition transmissible :: "extern \<Rightarrow> MutableDatatype \<Rightarrow> bool" where
  "transmissible x m =
     list_all (\<lambda>t. Transaction_size t \<le> DEFAULT_MAX_TRANSMISSION_SIZE x) (pb_transaction (m_push_buffer m))"

definition backlog :: "MutableDatatype \<Rightarrow> nat" where
  "backlog m = unat (pb_last_cseq (m_push_buffer m)) - unat (cp_cseq (m_checkpoint m))"

text \<open>Two replicas to run the loop on: one with small transactions, one with a huge tag on the first.\<close>

definition ex_pushing :: "string option \<Rightarrow> WiredDatatype" where
  "ex_pushing tag = WiredDatatype_new (ex_mut\<lparr>m_state := Subscribed, m_push_buffer :=
     \<lparr>pb_transaction = [set_tag (ex_tx 1 5) tag, ex_tx 2 7], pb_mem_size = Transaction_size (set_tag (ex_tx 1 5) tag) + 113,
      pb_option = at_option ex_attr, pb_first_cseq = 1, pb_last_cseq = 2\<rparr>\<rparr>)"

definition ex_huge_tag :: string where
  "ex_huge_tag = replicate 4000000 CHR ''t''"

definition ex_stop_loop :: EventLoop where
  "ex_stop_loop = \<lparr>el_is_realtime = True, el_bounded = [], el_unbounded = [Stop 5]\<rparr>"

lemma null_pull:
  assumes st: "m_state m = Subscribed" and p: "ppp_state p = Subscribed"
  shows "\<exists>q. NullConnectivity_push_pull p = Ok q \<and> apply_pull q m = (acked_upto (cp_cseq (ppp_checkpoint p)) m, Ok ())"
proof -
  define q where "q = push_transaction p ((get_pulled_stub p)\<lparr>ppp_state := Subscribed\<rparr>)"
  have "accepted m q" and ns: "no_snapshot m q"
    by (simp_all add: q_def accepted_def no_snapshot_def syncable_def push_transaction_def get_pulled_stub_def st)
  from apply_pull_accepted [OF this] have "apply_pull q m = (acked_upto (cp_cseq (ppp_checkpoint p)) m, Ok ())"
    by (simp add: st pulled_into_def unskipped_def q_def push_transaction_def get_pulled_stub_def acked_upto_def set_state_def)
  moreover have "NullConnectivity_push_pull p = Ok q" by (simp add: NullConnectivity_push_pull_def p q_def)
  ultimately show ?thesis by blast
qed

lemma null_exchange:
  assumes "ready (h self)" and p: "create_push_pull_pack x (wd_mutable (h self)) = Ok p"
  shows "do_push_pull x null_backend self (h, u) =
    ((h(self := (h self)\<lparr>wd_mutable := acked_upto (cp_cseq (ppp_checkpoint p)) (wd_mutable (h self))\<rparr>), u), Ok ())"
proof -
  let ?m = "wd_mutable (h self)"
  have st: "m_state ?m = Subscribed" and "unacked_kept ?m" and w: "wd_interceptor (h self) = WiredInterceptor_new"
    using assms(1) by (simp_all add: ready_def)
  have ps: "ppp_state p = Subscribed"
    using st by (subst pack_contents(4) [OF \<open>unacked_kept ?m\<close> p]) (simp add: PushPullPack_new_def)
  obtain q where q: "NullConnectivity_push_pull p = Ok q" "apply_pull q ?m = (acked_upto (cp_cseq (ppp_checkpoint p)) ?m, Ok ())"
    using null_pull [OF st ps] by blast
  show ?thesis
    using w q by (simp add: do_push_pull_def push_phase_def p null_backend_def pull_phase_def WiredInterceptor_new_def)
qed

text \<open>A round of a loop with something to push, and one that takes a request from the unbounded channel.\<close>

lemma push_round:
  assumes "awake el lp" and "need_push (wd_mutable (h self))" and "do_push_pull x b self (h, c) = ((h', c'), Ok ())"
  shows "loop_round x b self sel (el, lp, h, c) = Some (el, lp\<lparr>lp_mode := Normal, lp_backoff := None\<rparr>, h', c')"
  using assms
  by (simp add: awake_def loop_round_def receive_event_def push_if_needed_iff process_event_def process_push_transaction_def
      process_blocking_resp_def)

lemma take_round:
  assumes "awake el lp" and "\<not> need_push (wd_mutable (h self))" and "el_unbounded el = ev # evs"
  shows "loop_round x b self Recv_Unbounded (el, lp, h, c) = Some (process_event x b self ev (el\<lparr>el_unbounded := evs\<rparr>, lp, h, c))"
  using assms by (simp add: awake_def loop_round_def receive_event_def push_if_needed_iff)

subsection \<open>Draining\<close>

lemma need_push_iff:
  "m_state m = Subscribed \<Longrightarrow> need_push m \<longleftrightarrow> cp_cseq (m_checkpoint m) < pb_last_cseq (m_push_buffer m)"
  by (simp add: need_push_def)

text \<open>The pack is not empty as long as the next transaction fits.\<close>

lemma pack_progress:
  assumes kept: "unacked_kept m" and need: "cp_cseq (m_checkpoint m) < pb_last_cseq (m_push_buffer m)"
    and fit: "transmissible x m"
  shows "\<exists>p. create_push_pull_pack x m = Ok p \<and>
    cp_cseq (m_checkpoint m) < cp_cseq (ppp_checkpoint p) \<and> cp_cseq (ppp_checkpoint p) \<le> pb_last_cseq (m_push_buffer m)"
proof -
  let ?b = "m_push_buffer m" and ?C = "cp_cseq (m_checkpoint m)"
  let ?B = "pb_transaction ?b" and ?idx = "unat (?C + 1 - pb_first_cseq ?b)"
  have k: "pb_inv ?b" "?C + 1 \<noteq> 0" "pb_first_cseq ?b \<le> ?C + 1" using kept by (simp_all add: unacked_kept_def)
  have ne: "?B \<noteq> []" using need k(1) by (auto simp: pb_inv_def)
  have c1: "unat (?C + 1) = Suc (unat ?C)" using k(2) by (simp add: unat_plus_one) (metis add.commute add_eq_0_iff minus_minus)
  have last: "unat (pb_last_cseq ?b) = unat (pb_first_cseq ?b) + length ?B - 1" and f: "0 < unat (pb_first_cseq ?b)"
    using k(1) ne by (auto simp: pb_inv_def unat_gt_0)
  have idx: "?idx = Suc (unat ?C) - unat (pb_first_cseq ?b)" using k(3) c1 by (simp add: unat_sub)
  have room: "Suc (unat ?C) < unat (pb_first_cseq ?b) + length ?B" using need last f ne by (simp add: word_less_nat_alt)
  then have lt: "?idx < length ?B" using idx k(3) c1 by (simp add: word_le_nat_alt)
  then obtain t ts where tt: "drop ?idx ?B = t # ts" by (cases "drop ?idx ?B") auto
  then have "t \<in> set ?B" by (metis in_set_dropD list.set_intros(1))
  with fit have size: "\<not> DEFAULT_MAX_TRANSMISSION_SIZE x < Transaction_size t" by (simp add: transmissible_def list_all_iff not_less)
  define txs where "txs = fst (collect_pushing (DEFAULT_MAX_TRANSMISSION_SIZE x) 0 (drop ?idx ?B))"
  have "get_pushing_transactions ?b (?C + 1) (DEFAULT_MAX_TRANSMISSION_SIZE x) =
      Ok (txs, snd (collect_pushing (DEFAULT_MAX_TRANSMISSION_SIZE x) 0 (drop ?idx ?B)))"
    using k lt by (simp add: get_pushing_transactions_def txs_def Let_def not_less)
  then obtain p where p: "create_push_pull_pack x m = Ok p" "ppp_transactions p = txs"
    by (simp add: create_push_pull_pack_def checkpointing_def Let_def)
  have "txs \<noteq> []" using size by (simp add: txs_def tt case_prod_beta Let_def)
  moreover obtain n where "txs = take n (drop ?idx ?B)" using collect_pushing_take unfolding txs_def by blast
  ultimately have len: "0 < length txs" "length txs \<le> length ?B - ?idx" by simp_all
  have top: "unat ?C + length txs \<le> unat (pb_last_cseq ?b)" using len idx last f room by linarith
  have "cp_cseq (ppp_checkpoint p) = ?C + of_nat (length txs)" using pack_contents(3) [OF kept p(1)] p(2) by simp
  moreover have "unat (pb_last_cseq ?b) < 2 ^ 64" using unsigned_less [of "pb_last_cseq ?b"] by simp
  then have bound: "unat ?C + length txs < 2 ^ 64" using top by linarith
  ultimately have "unat (cp_cseq (ppp_checkpoint p)) = unat ?C + length txs"
    by (metis of_nat_add of_nat_unat ucast_id unat_of_nat_u64)
  with p(1) len(1) top show ?thesis by (auto simp: word_less_nat_alt word_le_nat_alt)
qed

lemma acked_upto_simps [simp]:
  "m_push_buffer (acked_upto c m) = m_push_buffer m" "m_state (acked_upto c m) = m_state m"
  "m_crdt (acked_upto c m) = m_crdt m" "m_tx_record (acked_upto c m) = m_tx_record m"
  "cp_cseq (m_checkpoint (acked_upto c m)) = max (cp_cseq (m_checkpoint m)) c"
  by (simp_all add: acked_upto_def check_with_def)

lemma loop_run_append:
  "loop_run x b self (xs @ ys) s = (case loop_run x b self xs s of None \<Rightarrow> None | Some s' \<Rightarrow> loop_run x b self ys s')"
  by (induction xs arbitrary: s) (auto split: option.splits)


lemma ready_acked:
  assumes "ready w" and "c \<le> pb_last_cseq (m_push_buffer (wd_mutable w))"
  shows "ready (w\<lparr>wd_mutable := acked_upto c (wd_mutable w)\<rparr>)"
proof -
  let ?m = "wd_mutable w"
  let ?d = "max (cp_cseq (m_checkpoint ?m)) c"
  have k: "pb_inv (m_push_buffer ?m)" "cp_cseq (m_checkpoint ?m) + 1 \<noteq> 0" "pb_first_cseq (m_push_buffer ?m) \<le> cp_cseq (m_checkpoint ?m) + 1"
    and le: "?d \<le> pb_last_cseq (m_push_buffer ?m)"
    using assms by (simp_all add: ready_def unacked_kept_def)
  have small: "unat ?d + 1 < 2 ^ 64" "unat (cp_cseq (m_checkpoint ?m)) \<le> unat ?d"
    using assms(1) le unfolding ready_def word_le_nat_alt by (linarith, simp add: word_le_nat_alt [symmetric])
  then have d: "unat (?d + 1) = Suc (unat ?d)" "unat (cp_cseq (m_checkpoint ?m) + 1) = Suc (unat (cp_cseq (m_checkpoint ?m)))"
    by (simp_all add: unat_plus_one_small)
  have "?d + 1 \<noteq> 0" using d(1) by (metis nat.distinct(1) unsigned_0)
  moreover have "cp_cseq (m_checkpoint ?m) + 1 \<le> ?d + 1" using small(2) by (simp only: word_le_nat_alt d Suc_le_mono)
  ultimately show ?thesis using assms k le by (auto simp: ready_def unacked_kept_def intro: order_trans)
qed

text \<open>
  The contract of a backend that acknowledges, for the replica at \<open>self\<close>: \<open>good\<close> holds of the replicas and
  the backend; an exchange succeeds, changes no other replica, keeps \<open>good\<close> and the push buffer, and
  acknowledges at least the transactions of its pack.
\<close>

locale acknowledging =
  fixes x :: extern and push_pull :: "'c backend" and self :: nat and good :: "heap \<Rightarrow> 'c \<Rightarrow> bool"
  assumes good_ready: "good h c \<Longrightarrow> ready (h self)"
    and exchanges: "good h c \<Longrightarrow> create_push_pull_pack x (wd_mutable (h self)) = Ok p \<Longrightarrow>
      cp_cseq (ppp_checkpoint p) \<le> pb_last_cseq (m_push_buffer (wd_mutable (h self))) \<Longrightarrow>
      \<exists>w c'. do_push_pull x push_pull self (h, c) = ((h(self := w), c'), Ok ()) \<and> good (h(self := w)) c' \<and>
        m_push_buffer (wd_mutable w) = m_push_buffer (wd_mutable (h self)) \<and>
        cp_cseq (ppp_checkpoint p) \<le> cp_cseq (m_checkpoint (wd_mutable w))"
begin

lemma drains:
  assumes "awake el lp" and "good h c" and "transmissible x (wd_mutable (h self))"
  shows "\<exists>n \<le> backlog (wd_mutable (h self)). \<exists>lp' w c'.
    loop_run x push_pull self (replicate n sel) (el, lp, h, c) = Some (el, lp', h(self := w), c') \<and>
    awake el lp' \<and> lp_responses lp' = lp_responses lp \<and> lp_stopped lp' = lp_stopped lp \<and> good (h(self := w)) c' \<and>
    \<not> need_push (wd_mutable w) \<and> m_push_buffer (wd_mutable w) = m_push_buffer (wd_mutable (h self))"
  using assms
proof (induction "backlog (wd_mutable (h self))" arbitrary: h lp c rule: less_induct)
  case less
  let ?m = "wd_mutable (h self)"
  have st: "m_state ?m = Subscribed" and kept: "unacked_kept ?m" using good_ready [OF less.prems(2)] by (simp_all add: ready_def)
  show ?case
  proof (cases "need_push ?m")
    case False
    with less.prems show ?thesis by (intro exI [of _ 0] conjI exI [of _ lp] exI [of _ "h self"] exI [of _ c]) simp_all
  next
    case True
    with st have need: "cp_cseq (m_checkpoint ?m) < pb_last_cseq (m_push_buffer ?m)" by (simp add: need_push_iff)
    obtain p where p: "create_push_pull_pack x ?m = Ok p" "cp_cseq (m_checkpoint ?m) < cp_cseq (ppp_checkpoint p)"
        "cp_cseq (ppp_checkpoint p) \<le> pb_last_cseq (m_push_buffer ?m)"
      using pack_progress [OF kept need less.prems(3)] by blast
    obtain w c1 where e: "do_push_pull x push_pull self (h, c) = ((h(self := w), c1), Ok ())" "good (h(self := w)) c1"
        "m_push_buffer (wd_mutable w) = m_push_buffer ?m" "cp_cseq (ppp_checkpoint p) \<le> cp_cseq (m_checkpoint (wd_mutable w))"
      using exchanges [OF less.prems(2) p(1,3)] by blast
    define lp1 where "lp1 = lp\<lparr>lp_mode := Normal, lp_backoff := None\<rparr>"
    have lp1: "awake el lp1" "lp_responses lp1 = lp_responses lp" "lp_stopped lp1 = lp_stopped lp"
      using less.prems(1) by (simp_all add: lp1_def awake_def)
    have "cp_cseq (m_checkpoint (wd_mutable w)) \<le> pb_last_cseq (m_push_buffer (wd_mutable w))"
      using good_ready [OF e(2)] by (simp add: ready_def)
    then have dec: "backlog (wd_mutable w) < backlog ?m"
      using e(3,4) p(2) need by (simp add: backlog_def word_le_nat_alt word_less_nat_alt)
    have fit: "transmissible x (wd_mutable w)" using less.prems(3) e(3) by (simp add: transmissible_def)
    have "\<exists>n \<le> backlog (wd_mutable w). \<exists>lp' w' c'.
      loop_run x push_pull self (replicate n sel) (el, lp1, h(self := w), c1) = Some (el, lp', h(self := w'), c') \<and>
      awake el lp' \<and> lp_responses lp' = lp_responses lp1 \<and> lp_stopped lp' = lp_stopped lp1 \<and> good (h(self := w')) c' \<and>
      \<not> need_push (wd_mutable w') \<and> m_push_buffer (wd_mutable w') = m_push_buffer (wd_mutable w)"
      using less.hyps [of "h(self := w)" lp1 c1] dec lp1(1) e(2) fit by simp
    then obtain n lp' w' c' where n: "n \<le> backlog (wd_mutable w)"
        "loop_run x push_pull self (replicate n sel) (el, lp1, h(self := w), c1) = Some (el, lp', h(self := w'), c')"
        "awake el lp'" "lp_responses lp' = lp_responses lp1" "lp_stopped lp' = lp_stopped lp1" "good (h(self := w')) c'"
        "\<not> need_push (wd_mutable w')" "m_push_buffer (wd_mutable w') = m_push_buffer (wd_mutable w)" by blast
    have "loop_run x push_pull self (replicate (Suc n) sel) (el, lp, h, c) = Some (el, lp', h(self := w'), c')"
      using push_round [where h = h and self = self, OF less.prems(1) True e(1)] n(2) by (simp add: lp1_def)
    moreover have "Suc n \<le> backlog ?m" using n(1) dec by simp
    ultimately show ?thesis using n(3-8) lp1(2,3) e(3) by (metis (no_types))
  qed
qed

text \<open>What the loop does with the request at the head of the unbounded channel once it has drained the buffer.\<close>

lemma drains_and_takes:
  assumes "awake el lp" and "good h c" and "transmissible x (wd_mutable (h self))" and "el_unbounded el = ev # evs"
  shows "\<exists>n \<le> backlog (wd_mutable (h self)). \<exists>lp' w c'.
    loop_run x push_pull self (replicate (Suc n) Recv_Unbounded) (el, lp, h, c) =
      Some (process_event x push_pull self ev (el\<lparr>el_unbounded := evs\<rparr>, lp', h(self := w), c')) \<and>
    awake el lp' \<and> lp_responses lp' = lp_responses lp \<and> lp_stopped lp' = lp_stopped lp \<and> good (h(self := w)) c' \<and>
    \<not> need_push (wd_mutable w) \<and> m_push_buffer (wd_mutable w) = m_push_buffer (wd_mutable (h self))"
proof -
  obtain n lp' w c' where n: "n \<le> backlog (wd_mutable (h self))"
      "loop_run x push_pull self (replicate n Recv_Unbounded) (el, lp, h, c) = Some (el, lp', h(self := w), c')"
      "awake el lp'" "lp_responses lp' = lp_responses lp" "lp_stopped lp' = lp_stopped lp" "good (h(self := w)) c'"
      "\<not> need_push (wd_mutable w)" "m_push_buffer (wd_mutable w) = m_push_buffer (wd_mutable (h self))"
    using drains [OF assms(1-3)] by blast
  have "loop_round x push_pull self Recv_Unbounded (el, lp', h(self := w), c') =
      Some (process_event x push_pull self ev (el\<lparr>el_unbounded := evs\<rparr>, lp', h(self := w), c'))"
    by (rule take_round [OF n(3) _ assms(4)]) (simp add: n(7))
  then have "loop_run x push_pull self (replicate n Recv_Unbounded @ [Recv_Unbounded]) (el, lp, h, c) =
      Some (process_event x push_pull self ev (el\<lparr>el_unbounded := evs\<rparr>, lp', h(self := w), c'))"
    unfolding loop_run_append n(2) by simp
  then have "loop_run x push_pull self (replicate (Suc n) Recv_Unbounded) (el, lp, h, c) =
      Some (process_event x push_pull self ev (el\<lparr>el_unbounded := evs\<rparr>, lp', h(self := w), c'))"
    by (simp only: replicate_append_same replicate_Suc)
  with n(1,3-8) show ?thesis by blast
qed

end

text \<open>
  A backend that also catches up: an exchange of a replica with nothing left to push leaves it \<open>synced\<close>.
\<close>

locale syncing = acknowledging +
  fixes synced :: "heap \<Rightarrow> 'a \<Rightarrow> bool"
  assumes catches_up: "good h c \<Longrightarrow> \<not> need_push (wd_mutable (h self)) \<Longrightarrow>
      \<exists>w c'. do_push_pull x push_pull self (h, c) = ((h(self := w), c'), Ok ()) \<and> synced (h(self := w)) c' \<and>
        m_push_buffer (wd_mutable w) = m_push_buffer (wd_mutable (h self))"
begin

lemma sync_answered:
  assumes "awake el lp" and "good h c" and "transmissible x (wd_mutable (h self))"
    and "el_unbounded el = PushTransaction (Some tx) # evs"
  shows "\<exists>n \<le> backlog (wd_mutable (h self)). \<exists>lp' w c'.
    loop_run x push_pull self (replicate (Suc n) Recv_Unbounded) (el, lp, h, c) =
      Some (el\<lparr>el_unbounded := evs\<rparr>, lp', h(self := w), c') \<and>
    awake el lp' \<and> lp_responses lp' = lp_responses lp @ [(tx, None)] \<and> lp_stopped lp' = lp_stopped lp \<and> synced (h(self := w)) c' \<and>
    m_push_buffer (wd_mutable w) = m_push_buffer (wd_mutable (h self))"
proof -
  obtain n lp' w c' where n: "n \<le> backlog (wd_mutable (h self))"
      "loop_run x push_pull self (replicate (Suc n) Recv_Unbounded) (el, lp, h, c) =
        Some (process_event x push_pull self (PushTransaction (Some tx)) (el\<lparr>el_unbounded := evs\<rparr>, lp', h(self := w), c'))"
      "awake el lp'" "lp_responses lp' = lp_responses lp" "lp_stopped lp' = lp_stopped lp" "good (h(self := w)) c'"
      "\<not> need_push (wd_mutable w)" "m_push_buffer (wd_mutable w) = m_push_buffer (wd_mutable (h self))"
    using drains_and_takes [OF assms] by blast
  obtain w' c1 where e: "do_push_pull x push_pull self (h(self := w), c') = ((h(self := w'), c1), Ok ())" "synced (h(self := w')) c1"
      "m_push_buffer (wd_mutable w') = m_push_buffer (wd_mutable w)"
    using catches_up [OF n(6)] n(7) by auto
  let ?lp = "lp'\<lparr>lp_mode := Normal, lp_backoff := None, lp_responses := lp_responses lp' @ [(tx, None)]\<rparr>"
  have "process_event x push_pull self (PushTransaction (Some tx)) (el\<lparr>el_unbounded := evs\<rparr>, lp', h(self := w), c') =
      (el\<lparr>el_unbounded := evs\<rparr>, ?lp, h(self := w'), c1)"
    using n(3) e(1) by (simp add: process_event_def process_push_transaction_def process_blocking_resp_def awake_def)
  moreover have "awake el ?lp" "lp_responses ?lp = lp_responses lp @ [(tx, None)]" "lp_stopped ?lp = lp_stopped lp"
    using n(3-5) by (simp_all add: awake_def)
  ultimately show ?thesis using n(1,2,8) e(2,3) by (metis (no_types))
qed

end

text \<open>The backend without a server keeps the first contract; it leaves the counter at the value \<open>v\<close>.\<close>

interpretation nulls: acknowledging x null_backend self "\<lambda>h c. ready (h self) \<and> m_crdt (wd_mutable (h self)) = v" for x self v
proof unfold_locales
  fix h :: heap and c :: unit and p
  assume g: "ready (h self) \<and> m_crdt (wd_mutable (h self)) = v" and p: "create_push_pull_pack x (wd_mutable (h self)) = Ok p"
    and le: "cp_cseq (ppp_checkpoint p) \<le> pb_last_cseq (m_push_buffer (wd_mutable (h self)))"
  let ?w = "(h self)\<lparr>wd_mutable := acked_upto (cp_cseq (ppp_checkpoint p)) (wd_mutable (h self))\<rparr>"
  have "ready ?w" using ready_acked [of "h self"] g le by simp
  then show "\<exists>w c'. do_push_pull x null_backend self (h, c) = ((h(self := w), c'), Ok ()) \<and>
      (ready ((h(self := w)) self) \<and> m_crdt (wd_mutable ((h(self := w)) self)) = v) \<and>
      m_push_buffer (wd_mutable w) = m_push_buffer (wd_mutable (h self)) \<and>
      cp_cseq (ppp_checkpoint p) \<le> cp_cseq (m_checkpoint (wd_mutable w))"
    using null_exchange [where h = h and self = self and u = c, OF _ p] g by (intro exI [of _ ?w] exI [of _ c]) simp
qed simp

subsection \<open>Properties\<close>

text \<open>
  C11: The event loop drains the buffer. With the backend without a server, which acknowledges everything, the loop of a subscribed
  realtime replica whose transactions each fit the transmission limit needs at most one round per
  unacknowledged transaction until nothing is left to push; it changes neither the CRDT nor the buffer
  nor another replica on the way, and the round after that receives from its channels again: a stop
  request that is waiting is then taken and answered.
\<close>

theorem loop_drains_and_stops:
  assumes "pushing el lp (h self)" and "transmissible x (wd_mutable (h self))" and "el_unbounded el = Stop tx # evs"
  shows "\<exists>n lp' h'. n \<le> backlog (wd_mutable (h self)) \<and>
    loop_run x null_backend self (replicate (Suc n) Recv_Unbounded) (el, lp, h, u) = Some (el\<lparr>el_unbounded := evs\<rparr>, lp', h', u) \<and>
    \<not> lp_running lp' \<and> tx \<in> set (lp_stopped lp') \<and> \<not> need_push (wd_mutable (h' self)) \<and>
    m_crdt (wd_mutable (h' self)) = m_crdt (wd_mutable (h self)) \<and> (\<forall>j. j \<noteq> self \<longrightarrow> h' j = h j)"
proof -
  obtain n lp' w u' where n: "n \<le> backlog (wd_mutable (h self))"
      "loop_run x null_backend self (replicate (Suc n) Recv_Unbounded) (el, lp, h, u) =
        Some (process_event x null_backend self (Stop tx) (el\<lparr>el_unbounded := evs\<rparr>, lp', h(self := w), u'))"
      "m_crdt (wd_mutable w) = m_crdt (wd_mutable (h self))" "\<not> need_push (wd_mutable w)"
    using nulls.drains_and_takes [of el lp h self "m_crdt (wd_mutable (h self))" x "Stop tx" evs u] assms
    by (auto simp: pushing_def simp del: replicate.simps)
  show ?thesis
    by (rule exI [of _ n], rule exI [of _ "lp'\<lparr>lp_stopped := lp_stopped lp' @ [tx], lp_running := False\<rparr>"],
        rule exI [of _ "h(self := w)"])
      (use n in \<open>simp add: process_event_def del: replicate.simps\<close>)
qed

lemma ex_pushing_ok: "pushing ex_stop_loop LoopState_new (ex_pushing tag)"
  by (simp add: pushing_def ready_def awake_def ex_stop_loop_def LoopState_new_def ex_pushing_def WiredDatatype_new_def unacked_kept_def pb_inv_def
      set_tag_def word_le_nat_alt)

lemma ex_pushing_size:
  "Transaction_size (set_tag (ex_tx 1 5) tag) = 113 + (case tag of Some s \<Rightarrow> of_nat (length s) | None \<Rightarrow> 0)"
  by (simp add: Transaction_size_def set_tag_def ex_tx_def push_operation_def Transaction_new_def Operation_size_def
      new_counter_increase_def Operation_new_def CounterIncreaseBody_size_def TRANSACTION_CONSTANT_SIZE_def UID_LEN_def
      split: option.splits)

theorem loop_drains_and_stops_witness:
  "\<exists>n lp' h'. n \<le> 2 \<and> loop_run ex_extern null_backend 0 (replicate (Suc n) Recv_Unbounded)
       (ex_stop_loop, LoopState_new, (\<lambda>_. ex_pushing None), ()) = Some (ex_stop_loop\<lparr>el_unbounded := []\<rparr>, lp', h', ()) \<and>
     \<not> lp_running lp' \<and> 5 \<in> set (lp_stopped lp')"
proof -
  have "transmissible ex_extern (wd_mutable (ex_pushing None))"
    by (simp add: transmissible_def ex_pushing_def WiredDatatype_new_def ex_pushing_size DEFAULT_MAX_TRANSMISSION_SIZE_def ex_extern_def)
  moreover have "el_unbounded ex_stop_loop = Stop 5 # []" by (simp add: ex_stop_loop_def)
  moreover have "backlog (wd_mutable (ex_pushing None)) = 2"
    by (simp add: backlog_def ex_pushing_def WiredDatatype_new_def)
  ultimately show ?thesis
    using loop_drains_and_stops [of ex_stop_loop LoopState_new "\<lambda>_. ex_pushing None" 0 ex_extern 5 "[]" "()", OF ex_pushing_ok]
    by (auto simp del: replicate.simps)
qed

text \<open>
  C34: A transaction too large to transmit starves the loop. When the next transaction of a subscribed
  realtime replica of the backend without a server exceeds the transmission limit, every round of its loop, whatever the channels hold
  and whatever the scheduler would select, exchanges an empty pack: after any number of rounds the
  channels are as they were, no stop and no \<open>sync\<close> request has been answered, and nothing of the
  replica but the server part of its checkpoint has changed.
\<close>

theorem oversize_starves_loop:
  assumes "pushing el lp (h self)" and "stuck x (h self)"
  shows "\<exists>lp' h'. loop_run x null_backend self sels (el, lp, h, u) = Some (el, lp', h', u) \<and>
    lp_running lp' \<and> lp_stopped lp' = lp_stopped lp \<and> lp_responses lp' = lp_responses lp \<and> stuck x (h' self) \<and>
    (\<exists>sseq. wd_mutable (h' self) = (wd_mutable (h self))\<lparr>m_checkpoint := (m_checkpoint (wd_mutable (h self)))\<lparr>cp_sseq := sseq\<rparr>\<rparr>)"
  using assms
proof (induction sels arbitrary: lp h)
  case Nil
  have "wd_mutable (h self) = (wd_mutable (h self))\<lparr>m_checkpoint := (m_checkpoint (wd_mutable (h self)))
      \<lparr>cp_sseq := cp_sseq (m_checkpoint (wd_mutable (h self)))\<rparr>\<rparr>" by simp
  with Nil show ?case unfolding loop_run.simps pushing_def awake_def by blast
next
  case (Cons sel sels)
  let ?m = "wd_mutable (h self)"
  let ?c = "cp_cseq (m_checkpoint ?m)"
  have aw: "awake el lp" and rd: "ready (h self)" using Cons.prems(1) by (simp_all add: pushing_def)
  have kept: "unacked_kept ?m" and need: "need_push ?m" using Cons.prems by (auto simp: stuck_def need_push_def Let_def)
  obtain t rest where "filter (\<lambda>t. ?c + 1 \<le> tx_cseq t) (pb_transaction (m_push_buffer ?m)) = t # rest"
      "DEFAULT_MAX_TRANSMISSION_SIZE x < Transaction_size t"
    using Cons.prems(2) by (auto simp: stuck_def Let_def split: list.splits)
  with kept oversize_get_pushing [of "m_push_buffer ?m" "?c + 1" t rest "DEFAULT_MAX_TRANSMISSION_SIZE x"]
  obtain p where p: "create_push_pull_pack x ?m = Ok p" "cp_cseq (ppp_checkpoint p) = ?c"
    by (auto simp: create_push_pull_pack_def unacked_kept_def checkpointing_def Let_def)
  define h1 where "h1 = h(self := (h self)\<lparr>wd_mutable := acked_upto ?c ?m\<rparr>)"
  define lp1 where "lp1 = lp\<lparr>lp_mode := Normal, lp_backoff := None\<rparr>"
  have round: "loop_round x null_backend self sel (el, lp, h, u) = Some (el, lp1, h1, u)"
    using push_round [where h = h and self = self, OF aw need null_exchange [where h = h and self = self, OF rd p(1)]]
    by (simp add: p(2) h1_def lp1_def)
  have a: "wd_mutable (h1 self) = ?m\<lparr>m_checkpoint := (m_checkpoint ?m)\<lparr>cp_sseq := max (cp_sseq (m_checkpoint ?m)) ?c\<rparr>\<rparr>"
    by (simp add: h1_def acked_upto_def check_with_def)
  have "pushing el lp1 (h1 self)" using ready_acked [OF rd, of ?c] rd aw by (simp add: h1_def lp1_def pushing_def awake_def ready_def)
  moreover have "stuck x (h1 self)" using Cons.prems(2) by (simp add: stuck_def h1_def acked_upto_def check_with_def unacked_kept_def Let_def)
  moreover have "lp_stopped lp1 = lp_stopped lp" "lp_responses lp1 = lp_responses lp" by (simp_all add: lp1_def)
  ultimately show ?case using Cons.IH [of lp1 h1] round a by fastforce
qed


theorem oversize_starves_loop_witness:
  "ubyte_documented ex_extern \<and>
   (\<exists>lp' h'. loop_run ex_extern null_backend 0 (replicate 1000 Recv_Unbounded)
       (ex_stop_loop, LoopState_new, (\<lambda>_. ex_pushing (Some ex_huge_tag)), ()) = Some (ex_stop_loop, lp', h', ()) \<and>
     lp_running lp' \<and> lp_stopped lp' = [])"
proof -
  have "stuck ex_extern (ex_pushing (Some ex_huge_tag))"
    by (simp add: stuck_def ex_pushing_def WiredDatatype_new_def unacked_kept_def pb_inv_def set_tag_def word_le_nat_alt Let_def
        DEFAULT_MAX_TRANSMISSION_SIZE_def ex_extern_def)
      (simp add: ex_pushing_size [unfolded set_tag_def] ex_huge_tag_def)
  from oversize_starves_loop [of ex_stop_loop LoopState_new "\<lambda>_. ex_pushing (Some ex_huge_tag)" 0 ex_extern
      "replicate 1000 Recv_Unbounded" "()", OF ex_pushing_ok this] ex_extern_ok(2)
  have "\<exists>lp' h'. loop_run ex_extern null_backend 0 (replicate 1000 Recv_Unbounded)
       (ex_stop_loop, LoopState_new, (\<lambda>_. ex_pushing (Some ex_huge_tag)), ()) = Some (ex_stop_loop, lp', h', ()) \<and>
     lp_running lp' \<and> lp_stopped lp' = lp_stopped LoopState_new" by blast
  moreover have "lp_stopped LoopState_new = []" by (simp add: LoopState_new_def)
  ultimately show ?thesis using ex_extern_ok(2) by metis
qed

end
