(* ===== verification/Local_Datatype_Server.thy ===== *)
theory Local_Datatype_Server
  imports Wired
begin

text \<open>
  The in-process server of one datatype (\<open>connectivity/local_datatype_server.rs\<close>): the
  total order of all transactions, the acknowledged client sequence numbers, the subscribed
  replicas and the notifications it sends. A replica is named by its address in the heap, an
  event-loop sender by a number; \<open>ls_sent\<close> is the log of what was given to \<open>try_send\<close>.
\<close>

subsection \<open>State\<close>

record LocalDatatypeServer =
  ls_wired_map :: "(Cuid \<times> nat) list"
  ls_sender_map :: "(Cuid \<times> nat) list"
  ls_collection :: string
  ls_key :: string
  ls_type :: DataType
  ls_duid :: Duid
  ls_created :: bool
  ls_creator :: Cuid
  ls_sseq :: u64
  ls_cseq_map :: "(Cuid \<times> CheckPoint) list"
  ls_history :: "Transaction list"
  ls_sent :: "(nat \<times> Notification) list"

definition LocalDatatypeServer_display :: "LocalDatatypeServer \<Rightarrow> string" where
  "LocalDatatypeServer_display self =
     DataType_display (ls_type self) @ '' '' @ [CHR 0x27] @ ls_key self @ [CHR 0x27] @ '' subscribed by '' @
     show_nat (length (ls_wired_map self)) @ '' clients, sseq: '' @ show_u64 (ls_sseq self) @
     '' created: '' @ (if ls_created self then ''true'' else ''false'')"

definition LocalDatatypeServer_new :: "Attribute \<Rightarrow> LocalDatatypeServer" where
  "LocalDatatypeServer_new attr =
     \<lparr>ls_wired_map = [], ls_sender_map = [], ls_collection = cc_collection (at_client_common attr),
      ls_key = at_key attr, ls_type = at_type attr, ls_duid = get_duid attr, ls_created = False,
      ls_creator = get_cuid attr, ls_sseq = 0, ls_cseq_map = [], ls_history = [], ls_sent = []\<rparr>"

definition insert_client_item :: "LocalDatatypeServer \<Rightarrow> Cuid \<Rightarrow> nat \<Rightarrow> nat \<Rightarrow> LocalDatatypeServer" where
  "insert_client_item self cuid wired sender =
     self\<lparr>ls_wired_map := hm_insert cuid wired (ls_wired_map self),
          ls_sender_map := hm_insert cuid sender (ls_sender_map self)\<rparr>"

definition server_is_empty :: "LocalDatatypeServer \<Rightarrow> bool" where
  "server_is_empty self = (ls_wired_map self = [])"

definition remove_client_subscription :: "LocalDatatypeServer \<Rightarrow> Cuid \<Rightarrow> LocalDatatypeServer" where
  "remove_client_subscription self cuid =
     self\<lparr>ls_wired_map := hm_remove cuid (ls_wired_map self),
          ls_sender_map := hm_remove cuid (ls_sender_map self)\<rparr>"

subsection \<open>Pushing and pulling\<close>

text \<open>One round of the loop over the pushed transactions.\<close>

fun push_one ::
  "LocalDatatypeServer \<times> CheckPoint \<times> bool \<Rightarrow> Transaction \<Rightarrow> LocalDatatypeServer \<times> CheckPoint \<times> bool" where
  "push_one (self, client_cp, pushed_any) tx =
     (if tx_cseq tx \<le> cp_cseq client_cp then (self, client_cp, pushed_any)
      else (let s1 = self\<lparr>ls_sseq := ls_sseq self + 1\<rparr>;
                owned_tx = tx\<lparr>tx_sseq := ls_sseq s1\<rparr>
            in (s1\<lparr>ls_history := ls_history s1 @ [owned_tx]\<rparr>, client_cp\<lparr>cp_cseq := tx_cseq tx\<rparr>, True)))"

definition client_checkpoint :: "LocalDatatypeServer \<Rightarrow> Cuid \<Rightarrow> CheckPoint" where
  "client_checkpoint self cuid =
     (case hm_get (ls_cseq_map self) cuid of Some cp \<Rightarrow> cp | None \<Rightarrow> CheckPoint_new 0 0)"

definition push_transactions ::
  "LocalDatatypeServer \<Rightarrow> PushPullPack \<Rightarrow> LocalDatatypeServer \<times> u64 \<times> bool" where
  "push_transactions self pushed =
     (let (s1, client_cp, pushed_any) =
            foldl push_one (self, client_checkpoint self (ppp_cuid pushed), False) (ppp_transactions pushed);
          cp = client_cp\<lparr>cp_sseq := ls_sseq s1\<rparr>
      in (s1\<lparr>ls_cseq_map := hm_insert (ppp_cuid pushed) cp (ls_cseq_map s1)\<rparr>, cp_cseq cp, pushed_any))"

definition pull_transactions :: "LocalDatatypeServer \<Rightarrow> PushPullPack \<Rightarrow> PushPullPack" where
  "pull_transactions self pulled =
     (let from_sseq = cp_sseq (ppp_checkpoint pulled)
      in pulled\<lparr>ppp_transactions := ppp_transactions pulled @
                  filter (\<lambda>tx. tx_sseq tx > from_sseq \<and> tx_cuid tx \<noteq> ppp_cuid pulled) (ls_history self),
                ppp_checkpoint := (ppp_checkpoint pulled)\<lparr>cp_sseq := ls_sseq self\<rparr>\<rparr>)"

definition refuse :: "PushPullPack \<Rightarrow> PushPullError \<Rightarrow> PushPullPack" where
  "refuse pulled e = pulled\<lparr>ppp_error := Some e, ppp_state := Disabled\<rparr>"

definition notify_pushed :: "LocalDatatypeServer \<Rightarrow> Cuid \<Rightarrow> LocalDatatypeServer" where
  "notify_pushed self cuid =
     (let notification = Notification_new cuid (ls_duid self) (ls_sseq self) 0
      in self\<lparr>ls_sent := ls_sent self @
           map (\<lambda>(_, sender). (sender, notification)) (filter (\<lambda>(c, _). c \<noteq> cuid) (ls_sender_map self))\<rparr>)"

subsection \<open>The requests, by the state of the client\<close>

type_synonym 's served = "'s \<times> (PushPullPack, ConnectivityError) result"

definition process_creating :: "LocalDatatypeServer \<Rightarrow> PushPullPack \<Rightarrow> LocalDatatypeServer served" where
  "process_creating self pushed =
     (let pulled = get_pulled_stub pushed
      in if ls_created self \<and> ls_duid self \<noteq> ppp_duid pushed
         then (self, Ok (refuse pulled (PPE_CreateFailed ''already exist'')))
         else if ppp_is_readonly pulled then (self, Ok (refuse pulled PPE_ReadonlyViolation))
         else (let s1 = self\<lparr>ls_created := True, ls_creator := ppp_cuid pushed, ls_duid := ppp_duid pushed\<rparr>;
                   (s2, cseq, _) = push_transactions s1 pushed
               in (s2, Ok (pulled\<lparr>ppp_checkpoint := (ppp_checkpoint pulled)\<lparr>cp_sseq := ls_sseq s2, cp_cseq := cseq\<rparr>,
                                  ppp_state := Subscribed\<rparr>))))"

definition process_client_push ::
  "LocalDatatypeServer \<Rightarrow> PushPullPack \<Rightarrow> DatatypeState \<Rightarrow> bool \<Rightarrow> LocalDatatypeServer \<times> PushPullPack" where
  "process_client_push self pushed success_state is_realtime =
     (let pulled = get_pulled_stub pushed
      in if ppp_is_readonly pulled \<and> ppp_transactions pushed \<noteq> []
         then (self, refuse pulled PPE_ReadonlyViolation)
         else (let (s1, cseq, pushed_any) = push_transactions self pushed;
                   p1 = pulled\<lparr>ppp_checkpoint := (ppp_checkpoint pulled)
                                 \<lparr>cp_sseq := cp_sseq (ppp_checkpoint pushed), cp_cseq := cseq\<rparr>\<rparr>;
                   p2 = (pull_transactions s1 p1)\<lparr>ppp_state := success_state\<rparr>
               in (if is_realtime \<and> pushed_any then notify_pushed s1 (ppp_cuid pushed) else s1, p2)))"

definition process_subscribed ::
  "LocalDatatypeServer \<Rightarrow> PushPullPack \<Rightarrow> bool \<Rightarrow> LocalDatatypeServer served" where
  "process_subscribed self pushed is_realtime =
     (let pulled = get_pulled_stub pushed
      in if \<not> hm_contains (ls_wired_map self) (ppp_cuid pushed)
         then (self, Ok (refuse pulled (PPE_MissingSubscription
                 (''cuid '' @ [CHR 0x27] @ Uid_display (ppp_cuid pushed) @ [CHR 0x27] @
                  '' has no active datatype subscription on this server''))))
         else if ls_type self \<noteq> ppp_type pushed
         then (self, Ok (refuse pulled (PPE_ProtocolViolation
                 (''type mismatch for '' @ [CHR 0x27] @ PushPullPack_resource_id pushed @ [CHR 0x27] @
                  '': expected '' @ DataType_display (ls_type self) @ '' but got '' @
                  DataType_display (ppp_type pushed)))))
         else (let (s1, p) = process_client_push self pushed Subscribed is_realtime in (s1, Ok p)))"

definition process_unsubscribing ::
  "extern \<Rightarrow> LocalDatatypeServer \<Rightarrow> PushPullPack \<Rightarrow> bool \<Rightarrow> LocalDatatypeServer served" where
  "process_unsubscribing x self pushed is_realtime =
     (if \<not> hm_contains (ls_wired_map self) (ppp_cuid pushed)
      then (self, Ok ((get_pulled_stub pushed)\<lparr>ppp_state := Disabled\<rparr>))
      else (let (s1, pulled) = process_client_push self pushed Disabled is_realtime;
                s2 = s1\<lparr>ls_wired_map := hm_remove (ppp_cuid pushed) (ls_wired_map s1),
                        ls_sender_map := hm_remove (ppp_cuid pushed) (ls_sender_map s1)\<rparr>;
                s3 = (if ls_creator s2 = ppp_cuid pushed
                      then (case hash_first x (map (\<lambda>(c, _). uid_str c) (ls_wired_map s2)) of
                              Some next_creator \<Rightarrow> s2\<lparr>ls_creator := Uid next_creator\<rparr>
                            | None \<Rightarrow> s2)
                      else s2)
            in (s3, Ok pulled)))"

definition process_deleting :: "LocalDatatypeServer \<Rightarrow> PushPullPack \<Rightarrow> LocalDatatypeServer served" where
  "process_deleting self pushed = (self, Ok (get_pulled_stub pushed))"

definition process_disabled :: "LocalDatatypeServer \<Rightarrow> PushPullPack \<Rightarrow> LocalDatatypeServer served" where
  "process_disabled self pushed =
     (self, Ok (refuse (get_pulled_stub pushed) (PPE_ProtocolViolation ''disabled client attempted push'')))"

definition get_creator_wired_datatype :: "LocalDatatypeServer \<Rightarrow> nat option" where
  "get_creator_wired_datatype self = hm_get (ls_wired_map self) (ls_creator self)"

definition process_subscribing ::
  "SystemTime \<Rightarrow> heap \<Rightarrow> LocalDatatypeServer \<Rightarrow> PushPullPack \<Rightarrow> LocalDatatypeServer served" where
  "process_subscribing now h self pushed =
     (let pulled = get_pulled_stub pushed
      in if \<not> ls_created self
         then (self, Ok (refuse pulled (PPE_ResourceNotFound
                 (DataType_display (ppp_type pushed) @ '' '' @ [CHR 0x27] @ PushPullPack_resource_id pushed @
                  [CHR 0x27] @ '' not exists''))))
         else if ls_type self \<noteq> ppp_type pushed
         then (self, Ok (refuse pulled (PPE_ResourceNotFound
                 (''mismatched types for '' @ [CHR 0x27] @ PushPullPack_resource_id pushed @ [CHR 0x27] @
                  '': pushed type-'' @ DataType_display (ppp_type pushed) @ '' but existed type '' @
                  DataType_display (ls_type self)))))
         else if ppp_transactions pushed \<noteq> []
         then (self, Ok (refuse pulled (PPE_ProtocolViolation ''cannot push transactions when subscribing'')))
         else (let p1 = pulled\<lparr>ppp_duid := ls_duid self\<rparr>
               in case get_creator_wired_datatype self of
                    None \<Rightarrow> (self, Ok (p1\<lparr>ppp_error := Some (PPE_ServerInternalError
                        (''creator unavailable for '' @ [CHR 0x27] @ PushPullPack_resource_id pushed @ [CHR 0x27]))\<rparr>))
                  | Some wired_of_creator \<Rightarrow>
                      (let tx = get_subscribe_snapshot now (h wired_of_creator);
                           p2 = p1\<lparr>ppp_checkpoint := (ppp_checkpoint p1)\<lparr>cp_sseq := tx_sseq tx\<rparr>,
                                   ppp_snapshot_transaction := Some tx\<rparr>
                       in (self, Ok ((pull_transactions self p2)\<lparr>ppp_state := Subscribed\<rparr>)))))"

definition process_subscribing_or_creating ::
  "SystemTime \<Rightarrow> heap \<Rightarrow> LocalDatatypeServer \<Rightarrow> PushPullPack \<Rightarrow> LocalDatatypeServer served" where
  "process_subscribing_or_creating now h self pushed =
     (if ls_created self then process_subscribing now h self pushed else process_creating self pushed)"

subsection \<open>What the server keeps\<close>

text \<open>The transactions of a push that are new to the server, and their place in the total order.\<close>

fun fresh_txs :: "u64 \<Rightarrow> Transaction list \<Rightarrow> Transaction list" where
  "fresh_txs c [] = []"
| "fresh_txs c (t # ts) = (if tx_cseq t \<le> c then fresh_txs c ts else t # fresh_txs (tx_cseq t) ts)"

fun sequenced :: "u64 \<Rightarrow> Transaction list \<Rightarrow> Transaction list" where
  "sequenced n [] = []"
| "sequenced n (t # ts) = t\<lparr>tx_sseq := n + 1\<rparr> # sequenced (n + 1) ts"

definition max_cseq :: "u64 \<Rightarrow> Transaction list \<Rightarrow> u64" where
  "max_cseq c ts = foldl max c (map tx_cseq ts)"

text \<open>
  The invariant of the total order: the history is numbered 1, 2, 3, ... without a gap, and the
  client sequence numbers of each client increase along it up to what the server acknowledged.
\<close>

definition server_inv :: "LocalDatatypeServer \<Rightarrow> bool" where
  "server_inv s =
     (map tx_sseq (ls_history s) = map (\<lambda>i. of_nat (Suc i)) [0..<length (ls_history s)] \<and>
      ls_sseq s = of_nat (length (ls_history s)) \<and>
      (\<forall>cuid. sorted_wrt (<) (map tx_cseq (own cuid (ls_history s))) \<and>
        (\<forall>t \<in> set (own cuid (ls_history s)). tx_cseq t \<le> cp_cseq (client_checkpoint s cuid))))"

definition creator_inv :: "LocalDatatypeServer \<Rightarrow> bool" where
  "creator_inv s = (ls_created s \<and> \<not> server_is_empty s \<longrightarrow> hm_contains (ls_wired_map s) (ls_creator s))"

subsection \<open>Closed form of a push\<close>

lemma foldl_push_one:
  "foldl push_one (s, cp, any) txs =
     (s\<lparr>ls_sseq := ls_sseq s + of_nat (length (fresh_txs (cp_cseq cp) txs)),
        ls_history := ls_history s @ sequenced (ls_sseq s) (fresh_txs (cp_cseq cp) txs)\<rparr>,
      cp\<lparr>cp_cseq := max_cseq (cp_cseq cp) txs\<rparr>, any \<or> fresh_txs (cp_cseq cp) txs \<noteq> [])"
proof (induction txs arbitrary: s cp any)
  case (Cons t txs)
  then show ?case by (auto simp: max_cseq_def max_def Let_def algebra_simps)
qed (simp add: max_cseq_def)

lemma checkpoint_build: "(cp :: CheckPoint)\<lparr>cp_cseq := c, cp_sseq := n\<rparr> = \<lparr>cp_sseq = n, cp_cseq = c\<rparr>"
  by (cases cp) simp

lemma push_transactions_eq:
  "push_transactions s p =
     (let cp = client_checkpoint s (ppp_cuid p); ts = fresh_txs (cp_cseq cp) (ppp_transactions p);
          n = ls_sseq s + of_nat (length ts); c = max_cseq (cp_cseq cp) (ppp_transactions p)
      in (s\<lparr>ls_sseq := n, ls_history := ls_history s @ sequenced (ls_sseq s) ts,
            ls_cseq_map := hm_insert (ppp_cuid p) \<lparr>cp_sseq = n, cp_cseq = c\<rparr> (ls_cseq_map s)\<rparr>, c, ts \<noteq> []))"
  by (simp add: push_transactions_def foldl_push_one Let_def checkpoint_build)

lemma max_cseq_ge: "c \<le> max_cseq c ts"
  by (induction ts arbitrary: c) (auto simp: max_cseq_def, meson max.cobounded1 order_trans)

lemma max_cseq_upper: "t \<in> set ts \<Longrightarrow> tx_cseq t \<le> max_cseq c ts"
proof (induction ts arbitrary: c)
  case (Cons u ts)
  have "tx_cseq u \<le> max_cseq (max c (tx_cseq u)) ts" by (rule order_trans [OF max.cobounded2 max_cseq_ge])
  with Cons show ?case by (auto simp: max_cseq_def)
qed simp

lemma max_cseq_same: "(\<And>t. t \<in> set ts \<Longrightarrow> tx_cseq t \<le> c) \<Longrightarrow> max_cseq c ts = c"
  by (induction ts) (auto simp: max_cseq_def max.absorb1)

lemma fresh_txs_none: "(\<And>t. t \<in> set ts \<Longrightarrow> tx_cseq t \<le> c) \<Longrightarrow> fresh_txs c ts = []"
  by (induction ts) auto

lemma fresh_txs_set: "set (fresh_txs c ts) \<subseteq> set ts"
  by (induction ts arbitrary: c) auto

lemma fresh_txs_gt: "t \<in> set (fresh_txs c ts) \<Longrightarrow> c < tx_cseq t"
  by (induction ts arbitrary: c) (auto split: if_splits, meson linorder_not_le order_less_trans)

lemma fresh_txs_sorted: "sorted_wrt (<) (map tx_cseq (fresh_txs c ts))"
  by (induction ts arbitrary: c) (auto dest: fresh_txs_gt)

lemma sequenced_simps [simp]:
  "length (sequenced n ts) = length ts" "map tx_cseq (sequenced n ts) = map tx_cseq ts"
  "map tx_cuid (sequenced n ts) = map tx_cuid ts" "map tx_operations (sequenced n ts) = map tx_operations ts"
  "sequenced n ts = [] \<longleftrightarrow> ts = []"
  by (induction ts arbitrary: n) auto

lemma sequenced_sseq:
  "map tx_sseq (sequenced n ts) = map (\<lambda>i. n + of_nat (Suc i)) [0..<length ts]"
proof (induction ts arbitrary: n)
  case (Cons t ts)
  have "[0..<Suc (length ts)] = 0 # map Suc [0..<length ts]"
    by (simp only: upt_conv_Cons map_Suc_upt)
  then show ?case using Cons by (simp add: algebra_simps del: upt_Suc)
qed simp

lemma hm_insert_twice [simp]: "hm_insert k v (hm_insert k w m) = hm_insert k v m"
  by (simp add: hm_insert_def hm_remove_def)

lemma own_sequenced:
  assumes "\<forall>t \<in> set ts. tx_cuid t = c"
  shows "own d (sequenced n ts) = (if d = c then sequenced n ts else [])"
  using assms by (induction ts arbitrary: n) (auto simp: own_def)

lemma in_sequenced:
  "t \<in> set (sequenced n ts) \<Longrightarrow>
   \<exists>u \<in> set ts. tx_cseq t = tx_cseq u \<and> tx_cuid t = tx_cuid u \<and> tx_operations t = tx_operations u"
  by (induction ts arbitrary: n) auto

lemma server_inv_cong:
  assumes "ls_history s' = ls_history s" and "ls_sseq s' = ls_sseq s" and "ls_cseq_map s' = ls_cseq_map s"
  shows "server_inv s' = server_inv s"
  using assms by (simp add: server_inv_def client_checkpoint_def)

lemma server_inv_push [invar_intros]:
  assumes inv: "server_inv s" and p: "own_pack p" and push: "push_transactions s p = (s', cseq, any)"
  shows "server_inv s'"
proof -
  let ?cp = "client_checkpoint s (ppp_cuid p)"
  define ts where "ts = fresh_txs (cp_cseq ?cp) (ppp_transactions p)"
  have s': "ls_history s' = ls_history s @ sequenced (ls_sseq s) ts" "ls_sseq s' = ls_sseq s + of_nat (length ts)"
    "client_checkpoint s' = (client_checkpoint s)(ppp_cuid p := \<lparr>cp_sseq = ls_sseq s',
       cp_cseq = max_cseq (cp_cseq ?cp) (ppp_transactions p)\<rparr>)"
    using push by (auto simp: push_transactions_eq ts_def client_checkpoint_def fun_eq_iff Let_def)
  have mine: "\<forall>t \<in> set ts. tx_cuid t = ppp_cuid p"
    using p fresh_txs_set unfolding own_pack_def ts_def by blast
  have upt: "map f [0..<n + m] = map f [0..<n] @ map (\<lambda>i. f (n + i)) [0..<m]" for f :: "nat \<Rightarrow> u64" and n m
    by (rule nth_equalityI) (auto simp: nth_append)
  have "map tx_sseq (ls_history s') = map (\<lambda>i. of_nat (Suc i)) [0..<length (ls_history s')]"
    using inv by (simp only: s' map_append length_append upt sequenced_sseq sequenced_simps server_inv_def)
      (simp add: algebra_simps)
  moreover have "ls_sseq s' = of_nat (length (ls_history s'))"
    using inv by (simp add: s' server_inv_def)
  moreover have "sorted_wrt (<) (map tx_cseq (own d (ls_history s'))) \<and>
      (\<forall>t \<in> set (own d (ls_history s')). tx_cseq t \<le> cp_cseq (client_checkpoint s' d))" for d
  proof (cases "d = ppp_cuid p")
    case False
    with inv show ?thesis by (simp add: s' server_inv_def own_sequenced [OF mine])
  next
    case True
    have old: "tx_cseq t \<le> cp_cseq ?cp" if "t \<in> set (own d (ls_history s))" for t
      using inv that True by (auto simp: server_inv_def)
    have new: "cp_cseq ?cp < tx_cseq t \<and> tx_cseq t \<le> max_cseq (cp_cseq ?cp) (ppp_transactions p)"
      if "t \<in> set ts" for t
      using that fresh_txs_gt fresh_txs_set max_cseq_upper unfolding ts_def by blast
    have sorted: "sorted_wrt (<) (map tx_cseq ts)" unfolding ts_def by (rule fresh_txs_sorted)
    have lt: "tx_cseq t < tx_cseq u" if "t \<in> set (own d (ls_history s))" "u \<in> set ts" for t u
      using old [OF that(1)] new [OF that(2)] by (meson order_le_less_trans)
    have le: "tx_cseq t \<le> max_cseq (cp_cseq ?cp) (ppp_transactions p)" if "t \<in> set (own d (ls_history s))" for t
      using old [OF that] max_cseq_ge by (rule order_trans)
    show ?thesis
    proof
      have "sorted_wrt (<) (map tx_cseq (own d (ls_history s)) @ map tx_cseq ts)"
        unfolding sorted_wrt_append using inv sorted lt by (auto simp: server_inv_def)
      then show "sorted_wrt (<) (map tx_cseq (own d (ls_history s')))"
        using True by (simp add: s' own_sequenced [OF mine])
      show "\<forall>t \<in> set (own d (ls_history s')). tx_cseq t \<le> cp_cseq (client_checkpoint s' d)"
        using True le new by (auto simp: s' own_sequenced [OF mine] dest!: in_sequenced)
    qed
  qed
  ultimately show ?thesis by (simp add: server_inv_def)
qed

subsection \<open>Properties\<close>

text \<open>
  Retransmission. Pushing a pack a second time, after a lost response say, changes nothing:
  no transaction enters the history twice, the acknowledged number is the same, and the server
  sees nothing new to notify.
\<close>

lemma push_is_idempotent:
  "let (s', cseq, any) = push_transactions s p in push_transactions s' p = (s', cseq, False)"
proof -
  obtain s' cseq any where push: "push_transactions s p = (s', cseq, any)" by (metis prod.collapse)
  let ?c = "max_cseq (cp_cseq (client_checkpoint s (ppp_cuid p))) (ppp_transactions p)"
  have cp: "client_checkpoint s' (ppp_cuid p) = \<lparr>cp_sseq = ls_sseq s', cp_cseq = ?c\<rparr>" "cseq = ?c"
    using push by (auto simp: push_transactions_eq client_checkpoint_def Let_def)
  have none: "fresh_txs ?c (ppp_transactions p) = []" by (rule fresh_txs_none) (rule max_cseq_upper)
  have "max_cseq ?c (ppp_transactions p) = ?c"
    by (rule max_cseq_same) (rule max_cseq_upper)
  then have "push_transactions s' p = (s', cseq, False)" using push cp none by (auto simp: push_transactions_eq Let_def)
  with push show ?thesis by simp
qed

end
