(* ===== verification/Local_Connectivity.thy ===== *)
theory Local_Connectivity
  imports Local_Datatype_Server
begin

text \<open>
  The in-memory backend (\<open>connectivity/local_connectivity.rs\<close>): one datatype server per
  resource, created when the first client registers and dropped when the last one unsubscribes.
\<close>

record LocalConnectivity =
  lc_datatype_servers :: "(string \<times> LocalDatatypeServer) list"
  lc_is_realtime :: bool

definition LocalConnectivity_new :: LocalConnectivity where
  "LocalConnectivity_new = \<lparr>lc_datatype_servers = [], lc_is_realtime = True\<rparr>"

definition get_local_datatype_server :: "LocalConnectivity \<Rightarrow> string \<Rightarrow> LocalDatatypeServer option" where
  "get_local_datatype_server self resource_id = hm_get (lc_datatype_servers self) resource_id"

definition set_realtime :: "LocalConnectivity \<Rightarrow> bool \<Rightarrow> LocalConnectivity" where
  "set_realtime self tf = self\<lparr>lc_is_realtime := tf\<rparr>"

definition local_remove_client_subscription :: "LocalConnectivity \<Rightarrow> string \<Rightarrow> Cuid \<Rightarrow> LocalConnectivity" where
  "local_remove_client_subscription self resource_id cuid =
     (case get_local_datatype_server self resource_id of
        None \<Rightarrow> self
      | Some server \<Rightarrow>
          self\<lparr>lc_datatype_servers :=
            hm_insert resource_id (remove_client_subscription server cuid) (lc_datatype_servers self)\<rparr>)"

definition LocalConnectivity_register :: "LocalConnectivity \<Rightarrow> heap \<Rightarrow> nat \<Rightarrow> nat \<Rightarrow> LocalConnectivity" where
  "LocalConnectivity_register self h wired sender =
     (let attr = m_attr (wd_mutable (h wired));
          resource_id = Attribute_resource_id attr;
          server = (case get_local_datatype_server self resource_id of
                      Some s \<Rightarrow> s | None \<Rightarrow> LocalDatatypeServer_new attr)
      in self\<lparr>lc_datatype_servers := hm_insert resource_id
           (insert_client_item server (wired_cuid (h wired)) wired sender) (lc_datatype_servers self)\<rparr>)"

definition serve ::
  "extern \<Rightarrow> SystemTime \<Rightarrow> bool \<Rightarrow> heap \<Rightarrow> LocalDatatypeServer \<Rightarrow> PushPullPack \<Rightarrow> LocalDatatypeServer served" where
  "serve x now is_realtime h server pushed =
     (case ppp_state pushed of
        Creating \<Rightarrow> process_creating server pushed
      | Subscribing \<Rightarrow> process_subscribing now h server pushed
      | SubscribingOrCreating \<Rightarrow> process_subscribing_or_creating now h server pushed
      | Subscribed \<Rightarrow> process_subscribed server pushed is_realtime
      | Unsubscribing \<Rightarrow> process_unsubscribing x server pushed is_realtime
      | Deleting \<Rightarrow> process_deleting server pushed
      | Disabled \<Rightarrow> process_disabled server pushed)"

text \<open>
  The servers of the table are updated in place; the server an unsubscribe leaves without
  clients is removed, unless another one took its place meanwhile.
\<close>

definition LocalConnectivity_push_pull ::
  "extern \<Rightarrow> SystemTime \<Rightarrow> LocalConnectivity backend" where
  "LocalConnectivity_push_pull x now h self pushed =
     (let resource_id = PushPullPack_resource_id pushed
      in case get_local_datatype_server self resource_id of
           None \<Rightarrow> (self, Ok ((get_pulled_stub pushed)\<lparr>ppp_error := Some (PPE_ResourceNotFound resource_id),
                                ppp_state := Disabled\<rparr>))
         | Some server \<Rightarrow>
             (let (server', r) = serve x now (lc_is_realtime self) h server pushed
              in case r of
                   Ok pulled \<Rightarrow>
                     (if ppp_state pushed = Unsubscribing \<and> server_is_empty server'
                      then (self\<lparr>lc_datatype_servers := hm_remove resource_id (lc_datatype_servers self)\<rparr>, Ok pulled)
                      else (self\<lparr>lc_datatype_servers := hm_insert resource_id server' (lc_datatype_servers self)\<rparr>,
                            Ok pulled))
                 | Err e \<Rightarrow> (self\<lparr>lc_datatype_servers := hm_insert resource_id server' (lc_datatype_servers self)\<rparr>, Err e)
                 | Panic msg \<Rightarrow> (self, Panic msg)))"

text \<open>
  The life of one server: registrations and requests in any order. A client registers before it
  asks to create, and pushes its own transactions.
\<close>

inductive server_reachable :: "extern \<Rightarrow> LocalDatatypeServer \<Rightarrow> bool" for x where
  srv_new: "server_reachable x (insert_client_item (LocalDatatypeServer_new attr) cuid wired sender)"
| srv_register: "server_reachable x s \<Longrightarrow> \<not> server_is_empty s \<Longrightarrow>
    server_reachable x (insert_client_item s cuid wired sender)"
| srv_serve: "server_reachable x s \<Longrightarrow> own_pack p \<Longrightarrow>
    (ppp_state p = Creating \<or> ppp_state p = SubscribingOrCreating \<Longrightarrow> hm_contains (ls_wired_map s) (ppp_cuid p)) \<Longrightarrow>
    serve x now rt h s p = (s', r) \<Longrightarrow> server_reachable x s'"

definition serve_inv :: "LocalDatatypeServer \<Rightarrow> bool" where
  "serve_inv s = (server_inv s \<and> creator_inv s)"

definition local_sound :: "LocalConnectivity \<Rightarrow> bool" where
  "local_sound c = list_all (\<lambda>(_, s). counter_txs (ls_history s) \<and> server_inv s) (lc_datatype_servers c)"

definition ex_server0 :: LocalDatatypeServer where
  "ex_server0 = insert_client_item (LocalDatatypeServer_new ex_attr) (get_cuid ex_attr) 0 0"

definition ex_create :: PushPullPack where
  "ex_create = (PushPullPack_new ex_attr Creating)
     \<lparr>ppp_transactions := [(ex_tx 1 5)\<lparr>tx_cuid := get_cuid ex_attr\<rparr>, (ex_tx 2 6)\<lparr>tx_cuid := get_cuid ex_attr\<rparr>]\<rparr>"

definition ex_heap :: heap where
  "ex_heap = (\<lambda>_. WiredDatatype_new ex_mut)"

definition ex_server1 :: LocalDatatypeServer where
  "ex_server1 = fst (serve ex_extern 0 True ex_heap ex_server0 ex_create)"

definition ex_subscribe :: PushPullPack where
  "ex_subscribe = (PushPullPack_new ex_attr Subscribing)\<lparr>ppp_cuid := Uid ''cuid-00000000002''\<rparr>"

subsection \<open>What a request does to the server\<close>

lemma serve_Ok: "\<exists>q. snd (serve x now rt h s p) = Ok q"
  by (cases "ppp_state p")
    (auto simp: serve_def process_creating_def process_subscribing_def process_subscribing_or_creating_def
      process_subscribed_def process_unsubscribing_def process_deleting_def process_disabled_def Let_def
      split: prod.splits option.splits)

lemma notify_pushed_simps [simp]:
  "ls_history (notify_pushed s c) = ls_history s" "ls_sseq (notify_pushed s c) = ls_sseq s"
  "ls_cseq_map (notify_pushed s c) = ls_cseq_map s" "ls_wired_map (notify_pushed s c) = ls_wired_map s"
  "ls_created (notify_pushed s c) = ls_created s" "ls_creator (notify_pushed s c) = ls_creator s"
  "ls_sender_map (notify_pushed s c) = ls_sender_map s" "ls_duid (notify_pushed s c) = ls_duid s"
  "ls_type (notify_pushed s c) = ls_type s"
  by (simp_all add: notify_pushed_def Let_def)

lemma push_transactions_frame [simp]:
  "ls_wired_map (fst (push_transactions s p)) = ls_wired_map s"
  "ls_created (fst (push_transactions s p)) = ls_created s"
  "ls_creator (fst (push_transactions s p)) = ls_creator s"
  "ls_sender_map (fst (push_transactions s p)) = ls_sender_map s"
  "ls_duid (fst (push_transactions s p)) = ls_duid s" "ls_type (fst (push_transactions s p)) = ls_type s"
  "ls_sent (fst (push_transactions s p)) = ls_sent s"
  by (simp_all add: push_transactions_eq Let_def)

lemma push_frame:
  assumes "push_transactions s p = (s1, c, any)"
  shows "ls_wired_map s1 = ls_wired_map s" "ls_created s1 = ls_created s" "ls_creator s1 = ls_creator s"
    "ls_sender_map s1 = ls_sender_map s" "ls_duid s1 = ls_duid s" "ls_type s1 = ls_type s" "ls_sent s1 = ls_sent s"
  using push_transactions_frame [of s p] assms by simp_all

text \<open>Every request leaves the order alone, or extends it by one push.\<close>

lemma serve_order:
  assumes "serve x now rt h s p = (s', r)"
  shows "(ls_history s' = ls_history s \<and> ls_sseq s' = ls_sseq s \<and> ls_cseq_map s' = ls_cseq_map s) \<or>
    (let s1 = fst (push_transactions s p)
     in ls_history s' = ls_history s1 \<and> ls_sseq s' = ls_sseq s1 \<and> ls_cseq_map s' = ls_cseq_map s1)"
proof -
  have push: "push_transactions (s\<lparr>ls_created := a, ls_creator := b, ls_duid := d\<rparr>) p =
      ((fst (push_transactions s p))\<lparr>ls_created := a, ls_creator := b, ls_duid := d\<rparr>, snd (push_transactions s p))"
    for a b d by (simp add: push_transactions_eq client_checkpoint_def Let_def)
  have client: "(ls_history s1 = ls_history s \<and> ls_sseq s1 = ls_sseq s \<and> ls_cseq_map s1 = ls_cseq_map s) \<or>
      (let s2 = fst (push_transactions s p)
       in ls_history s1 = ls_history s2 \<and> ls_sseq s1 = ls_sseq s2 \<and> ls_cseq_map s1 = ls_cseq_map s2)"
    if "process_client_push s p st rt = (s1, q)" for s1 st q
    using that by (auto simp: process_client_push_def Let_def split: if_splits prod.splits)
  show ?thesis
  proof (cases "ppp_state p")
    case Creating
    with assms show ?thesis by (auto simp: serve_def process_creating_def push Let_def split: if_splits prod.splits)
  next
    case SubscribingOrCreating
    with assms show ?thesis
      by (auto simp: serve_def process_subscribing_or_creating_def process_subscribing_def process_creating_def
          push Let_def split: if_splits prod.splits option.splits)
  next
    case Subscribed
    with assms client show ?thesis
      by (auto simp: serve_def process_subscribed_def Let_def split: if_splits prod.splits)
  next
    case Unsubscribing
    with assms client show ?thesis
      by (fastforce simp: serve_def process_unsubscribing_def Let_def split: if_splits prod.splits option.splits)
  qed (use assms in \<open>auto simp: serve_def process_subscribing_def process_deleting_def process_disabled_def Let_def
      split: if_splits option.splits\<close>)
qed

lemma server_inv_serve [invar_intros]:
  assumes "server_inv s" and "own_pack p" and "serve x now rt h s p = (s', r)"
  shows "server_inv s'"
proof -
  obtain s1 c any where push: "push_transactions s p = (s1, c, any)" by (metis prod.collapse)
  with server_inv_push [OF assms(1,2) push] serve_order [OF assms(3)] assms(1) show ?thesis
    by (auto simp: Let_def) (metis server_inv_cong)+
qed

lemma creator_inv_insert [invar_intros]:
  assumes "creator_inv s" and "\<not> server_is_empty s \<or> \<not> ls_created s"
  shows "creator_inv (insert_client_item s cuid wired sender)"
  using assms
  by (auto simp: creator_inv_def insert_client_item_def server_is_empty_def hm_contains_simps)

lemma process_client_push_frame:
  assumes "process_client_push s p st rt = (s', q)"
  shows "ls_wired_map s' = ls_wired_map s" "ls_created s' = ls_created s" "ls_creator s' = ls_creator s"
    "ls_sender_map s' = ls_sender_map s" "ls_duid s' = ls_duid s" "ls_type s' = ls_type s"
proof -
  obtain s1 c any where push: "push_transactions s p = (s1, c, any)" by (metis prod.collapse)
  consider "s' = s" | "s' = s1" | "s' = notify_pushed s1 (ppp_cuid p)"
    using assms push by (auto simp: process_client_push_def Let_def split: if_splits)
  then show "ls_wired_map s' = ls_wired_map s" "ls_created s' = ls_created s" "ls_creator s' = ls_creator s"
    "ls_sender_map s' = ls_sender_map s" "ls_duid s' = ls_duid s" "ls_type s' = ls_type s"
    by (cases; simp add: push_frame [OF push])+
qed

lemma creator_inv_unsubscribe:
  assumes inv: "creator_inv s" and ok: "hash_first_ok x"
    and u: "process_unsubscribing x s p rt = (s', r)"
  shows "creator_inv s'"
proof (cases "hm_contains (ls_wired_map s) (ppp_cuid p)")
  case True
  obtain s1 q where push: "process_client_push s p Disabled rt = (s1, q)" by (metis prod.collapse)
  note f = process_client_push_frame [OF push]
  let ?w = "hm_remove (ppp_cuid p) (ls_wired_map s)"
  have first: "case hash_first x (map (\<lambda>(c, _). uid_str c) ?w) of None \<Rightarrow> ?w = []
      | Some k \<Rightarrow> k \<in> set (map (\<lambda>(c, _). uid_str c) ?w)"
    using ok [unfolded hash_first_ok_def, rule_format, of "map (\<lambda>(c, _). uid_str c) ?w"]
    by (simp split: option.splits)
  have mem: "hm_contains ?w (Uid k)" if "k \<in> set (map (\<lambda>(c, _). uid_str c) ?w)" for k
    using that by (force simp: hm_contains_def)
  have w': "ls_wired_map s' = ?w" and cr: "ls_created s' = ls_created s"
    and creator: "ls_creator s' = (if ls_creator s = ppp_cuid p
      then (case hash_first x (map (\<lambda>(c, _). uid_str c) ?w) of Some k \<Rightarrow> Uid k | None \<Rightarrow> ls_creator s)
      else ls_creator s)"
    using u True push f by (auto simp: process_unsubscribing_def Let_def split: option.splits if_splits)
  show ?thesis
  proof (cases "ls_creator s = ppp_cuid p")
    case True
    then show ?thesis using first mem w' cr creator
      by (auto simp: creator_inv_def server_is_empty_def split: option.splits)
  next
    case False
    have "ls_wired_map s \<noteq> []" if "?w \<noteq> []" using that by (auto simp: hm_remove_def)
    with False inv w' cr creator show ?thesis
      by (auto simp: creator_inv_def server_is_empty_def hm_contains_def hm_remove_def)
  qed
qed (use inv u in \<open>simp add: process_unsubscribing_def\<close>)

lemma creator_inv_serve [invar_intros]:
  assumes inv: "creator_inv s" and ok: "hash_first_ok x" and e: "serve x now rt h s p = (s', r)"
    and reg: "ppp_state p = Creating \<or> ppp_state p = SubscribingOrCreating \<Longrightarrow> hm_contains (ls_wired_map s) (ppp_cuid p)"
  shows "creator_inv s'"
proof -
  have create: "creator_inv s1" if c: "process_creating s p = (s1, r1)" and k: "hm_contains (ls_wired_map s) (ppp_cuid p)"
    for s1 r1
  proof -
    let ?t = "s\<lparr>ls_created := True, ls_creator := ppp_cuid p, ls_duid := ppp_duid p\<rparr>"
    consider "s1 = s" | "s1 = fst (push_transactions ?t p)"
      using c by (auto simp: process_creating_def Let_def split: if_splits prod.splits)
    then show ?thesis using inv k by cases (simp_all add: creator_inv_def)
  qed
  have same: "creator_inv s1" if "process_client_push s p st rt = (s1, q)" for s1 st q
    using process_client_push_frame [OF that] inv by (simp add: creator_inv_def server_is_empty_def)
  show ?thesis
  proof (cases "ppp_state p")
    case Creating
    with create e reg show ?thesis by (simp add: serve_def)
  next
    case SubscribingOrCreating
    with create e reg inv show ?thesis
      by (auto simp: serve_def process_subscribing_or_creating_def process_subscribing_def Let_def
          split: if_splits option.splits)
  next
    case Subscribed
    with e inv same show ?thesis
      by (auto simp: serve_def process_subscribed_def Let_def split: if_splits prod.splits)
  next
    case Unsubscribing
    with creator_inv_unsubscribe [OF inv ok] e show ?thesis by (simp add: serve_def)
  qed (use e inv in \<open>auto simp: serve_def process_subscribing_def process_deleting_def process_disabled_def Let_def
      split: if_splits option.splits\<close>)
qed

lemma server_inv_insert: "server_inv (insert_client_item s cuid wired sender) = server_inv s"
  by (rule server_inv_cong) (simp_all add: insert_client_item_def)

lemma server_inv_reachable: "server_reachable x s \<Longrightarrow> server_inv s"
proof (induction rule: server_reachable.induct)
  case (srv_new attr cuid wired sender)
  then show ?case
    by (simp add: server_inv_insert) (simp add: server_inv_def LocalDatatypeServer_new_def own_def)
next
  case (srv_serve s p now rt h s' r)
  then show ?case by (rule_tac server_inv_serve)
qed (simp add: server_inv_insert)

lemma creator_inv_reachable:
  assumes "server_reachable x s" and ok: "hash_first_ok x"
  shows "creator_inv s"
  using assms(1)
proof (induction rule: server_reachable.induct)
  case (srv_new attr cuid wired sender)
  then show ?case
    by (intro creator_inv_insert) (simp_all add: creator_inv_def LocalDatatypeServer_new_def)
next
  case (srv_register s cuid wired sender)
  then show ?case by (intro creator_inv_insert) simp_all
next
  case (srv_serve s p now rt h s' r)
  then show ?case by (intro creator_inv_serve [OF _ ok srv_serve.hyps(4)])
qed

subsection \<open>The backend keeps the contract\<close>

lemma counter_txs_sequenced: "counter_txs ts \<Longrightarrow> counter_txs (sequenced n (fresh_txs c ts))"
  by (auto simp: counter_txs_def list_all_iff dest!: in_sequenced dest: subsetD [OF fresh_txs_set]) 

lemma counter_txs_filter [simp]: "counter_txs ts \<Longrightarrow> counter_txs (filter P ts)"
  by (auto simp: counter_txs_def list_all_iff)

lemma counter_txs_serve:
  assumes "counter_txs (ls_history s)" and "counter_txs (ppp_transactions p)" and "serve x now rt h s p = (s', r)"
  shows "counter_txs (ls_history s')"
  using serve_order [OF assms(3)] assms(1,2)
  by (auto simp: push_transactions_eq Let_def counter_txs_sequenced)

lemma well_formed_refuse [simp]: "well_formed_pack p (refuse (get_pulled_stub p) e)"
  by (simp add: well_formed_pack_def refuse_def get_pulled_stub_def)

lemma well_formed_gone:
  "ppp_state p = Unsubscribing \<Longrightarrow> well_formed_pack p ((get_pulled_stub p)\<lparr>ppp_state := Disabled\<rparr>)"
  by (simp add: well_formed_pack_def get_pulled_stub_def)

lemma process_client_push_answer:
  assumes "process_client_push s p st rt = (s', q)" and "counter_txs (ls_history s)" "counter_txs (ppp_transactions p)"
    and "st = expected_state (ppp_state p)"
  shows "well_formed_pack p q"
  using assms
  by (auto simp: process_client_push_def well_formed_pack_def get_pulled_stub_def refuse_def pull_transactions_def
      push_transactions_eq counter_txs_sequenced Let_def split: if_splits prod.splits)

lemma serve_answer:
  assumes cnt: "counter_txs (ls_history s)" "counter_txs (ppp_transactions p)"
    and sync: "syncable (ppp_state p)" and e: "serve x now rt h s p = (s', Ok q)"
  shows "well_formed_pack p q"
proof -
  have snap: "well_formed_pack p q" if "process_subscribing now h s p = (s1, Ok q)" "expected_state (ppp_state p) = Subscribed"
    for s1 using that cnt
    by (auto simp: process_subscribing_def well_formed_pack_def get_pulled_stub_def refuse_def pull_transactions_def
        get_subscribe_snapshot_def push_operation_def Transaction_new_with_cuid_def Let_def
        split: if_splits option.splits) (rule exI, rule exI, rule refl)
  have create: "well_formed_pack p q" if "process_creating s p = (s1, Ok q)" "expected_state (ppp_state p) = Subscribed"
    for s1 using that
    by (auto simp: process_creating_def well_formed_pack_def get_pulled_stub_def refuse_def Let_def
        split: if_splits prod.splits)
  show ?thesis
  proof (cases "ppp_state p")
    case SubscribingOrCreating
    with e snap create show ?thesis
      by (auto simp: serve_def process_subscribing_or_creating_def split: if_splits)
  next
    case Subscribed
    with e process_client_push_answer [OF _ cnt] show ?thesis
      by (auto simp: serve_def process_subscribed_def Let_def split: if_splits prod.splits)
  next
    case Unsubscribing
    with e process_client_push_answer [OF _ cnt] show ?thesis
      by (auto simp: serve_def process_unsubscribing_def Let_def well_formed_gone split: if_splits prod.splits)
  qed (use e snap create sync in \<open>auto simp: serve_def syncable_def\<close>)
qed

lemma local_soundD:
  "local_sound c \<Longrightarrow> get_local_datatype_server c rid = Some s \<Longrightarrow> counter_txs (ls_history s)"
  "local_sound c \<Longrightarrow> get_local_datatype_server c rid = Some s \<Longrightarrow> server_inv s"
  by (auto simp: local_sound_def get_local_datatype_server_def hm_get_def list_all_iff dest!: map_of_SomeD)

lemma local_sound_update:
  "local_sound c \<Longrightarrow> counter_txs (ls_history s) \<Longrightarrow> server_inv s \<Longrightarrow>
     local_sound (c\<lparr>lc_datatype_servers := hm_insert rid s (lc_datatype_servers c)\<rparr>)"
  "local_sound c \<Longrightarrow> local_sound (c\<lparr>lc_datatype_servers := hm_remove rid (lc_datatype_servers c)\<rparr>)"
  by (auto simp: local_sound_def list_all_iff hm_insert_def hm_remove_def)

interpretation local: connectivity "LocalConnectivity_push_pull x now" local_sound for x now
proof unfold_locales
  fix p :: PushPullPack and h :: heap and c :: LocalConnectivity
  show "\<not> is_panic (snd (LocalConnectivity_push_pull x now h c p))"
    using serve_Ok [of x now "lc_is_realtime c" h _ p]
    by (auto simp: LocalConnectivity_push_pull_def Let_def split: option.splits prod.splits result.splits)
      (metis result.distinct(3) snd_conv)
next
  fix c c' :: LocalConnectivity and p q :: PushPullPack and h :: heap
  assume snd: "local_sound c" and sync: "syncable (ppp_state p)" and cnt: "counter_txs (ppp_transactions p)"
    and e: "LocalConnectivity_push_pull x now h c p = (c', Ok q)"
  show "well_formed_pack p q"
  proof (cases "get_local_datatype_server c (PushPullPack_resource_id p)")
    case None
    with e show ?thesis
      by (auto simp: LocalConnectivity_push_pull_def Let_def well_formed_pack_def get_pulled_stub_def)
  next
    case (Some s)
    obtain s' r where serve: "serve x now (lc_is_realtime c) h s p = (s', r)" by (metis prod.collapse)
    with e Some have "r = Ok q" by (auto simp: LocalConnectivity_push_pull_def Let_def split: result.splits if_splits)
    with serve serve_answer [OF local_soundD(1) [OF snd Some] cnt sync] show ?thesis by blast
  qed
next
  fix c :: LocalConnectivity and p :: PushPullPack and h :: heap
  assume snd: "local_sound c" and cnt: "counter_txs (ppp_transactions p)" and own: "own_pack p"
  show "local_sound (fst (LocalConnectivity_push_pull x now h c p))"
  proof (cases "get_local_datatype_server c (PushPullPack_resource_id p)")
    case None
    with snd show ?thesis by (simp add: LocalConnectivity_push_pull_def Let_def)
  next
    case (Some s)
    obtain s' r where serve: "serve x now (lc_is_realtime c) h s p = (s', r)" by (metis prod.collapse)
    have "counter_txs (ls_history s')" using counter_txs_serve [OF local_soundD(1) [OF snd Some] cnt serve] .
    moreover have "server_inv s'" using server_inv_serve [OF local_soundD(2) [OF snd Some] own serve] .
    ultimately show ?thesis using snd Some serve
      by (auto simp: LocalConnectivity_push_pull_def Let_def local_sound_update split: result.splits)
  qed
qed

lemma server_inv_distinct:
  assumes "server_inv s"
  shows "distinct (map (\<lambda>t. (tx_cuid t, tx_cseq t)) (ls_history s))"
proof -
  have "distinct (map (\<lambda>t. (tx_cuid t, tx_cseq t)) ts)" if "\<And>c. sorted_wrt (<) (map tx_cseq (own c ts))" for ts
    using that
  proof (induction ts)
    case (Cons t ts)
    have "sorted_wrt (<) (map tx_cseq (own c ts))" for c
      using Cons.prems [of c] by (auto simp: own_def split: if_splits)
    moreover have "tx_cseq t \<noteq> tx_cseq u" if "u \<in> set ts" "tx_cuid u = tx_cuid t" for u
      using Cons.prems [of "tx_cuid t"] that by (auto simp: own_def)
    ultimately show ?case using Cons.IH by (auto simp: image_iff)
  qed simp
  with assms show ?thesis by (simp add: server_inv_def)
qed

subsection \<open>Properties\<close>

text \<open>
  C7: One total order. Whatever clients register, create, subscribe, push, retransmit and
  unsubscribe in whatever order, the server's history is numbered 1, 2, 3, ... without a gap up to
  its sequence number, no transaction of a client is in it twice, and the transactions of one client
  are in the order the client made them.
\<close>

theorem server_total_order:
  assumes "server_reachable x s"
  shows "map tx_sseq (ls_history s) = map (\<lambda>i. of_nat (Suc i)) [0..<length (ls_history s)] \<and>
    ls_sseq s = of_nat (length (ls_history s)) \<and>
    distinct (map (\<lambda>t. (tx_cuid t, tx_cseq t)) (ls_history s)) \<and>
    (\<forall>cuid. sorted_wrt (<) (map tx_cseq (own cuid (ls_history s))) \<and>
      (\<forall>t \<in> set (own cuid (ls_history s)). tx_cseq t \<le> cp_cseq (client_checkpoint s cuid)))"
proof -
  have inv: "server_inv s" using assms by (rule server_inv_reachable)
  with server_inv_distinct [OF inv] show ?thesis by (simp add: server_inv_def)
qed

lemma ex_server1_reachable: "server_reachable ex_extern ex_server1"
proof -
  have "server_reachable ex_extern ex_server0" unfolding ex_server0_def by (rule srv_new)
  moreover have "own_pack ex_create" by (simp add: own_pack_def ex_create_def PushPullPack_new_def get_cuid_def)
  moreover have "hm_contains (ls_wired_map ex_server0) (ppp_cuid ex_create)"
    by (simp add: ex_server0_def insert_client_item_def ex_create_def PushPullPack_new_def get_cuid_def)
  ultimately show ?thesis
    unfolding ex_server1_def by (rule srv_serve [OF _ _ _ prod.collapse [symmetric]])
qed

lemma ex_server1_eq:
  "ex_server1 = ex_server0\<lparr>ls_created := True, ls_sseq := 2,
     ls_history := [(ex_tx 1 5)\<lparr>tx_cuid := get_cuid ex_attr, tx_sseq := 1\<rparr>,
                    (ex_tx 2 6)\<lparr>tx_cuid := get_cuid ex_attr, tx_sseq := 2\<rparr>],
     ls_cseq_map := [(get_cuid ex_attr, \<lparr>cp_sseq = 2, cp_cseq = 2\<rparr>)]\<rparr>"
  by (simp add: ex_server1_def serve_def ex_create_def PushPullPack_new_def process_creating_def
      ex_server0_def insert_client_item_def LocalDatatypeServer_new_def get_pulled_stub_def
      push_transactions_eq client_checkpoint_def hm_insert_def hm_remove_def CheckPoint_new_def max_cseq_def
      ex_attr_def Attribute_new_def set_transactional_def get_cuid_def Let_def ex_tx_def push_operation_def
      word_le_nat_alt)

theorem server_total_order_witness:
  "server_reachable ex_extern ex_server1 \<and> length (ls_history ex_server1) = 2 \<and> ls_sseq ex_server1 = 2 \<and>
   distinct (map (\<lambda>t. (tx_cuid t, tx_cseq t)) (ls_history ex_server1))"
  using server_total_order [OF ex_server1_reachable] ex_server1_reachable by (simp add: ex_server1_eq)

text \<open>
  C23: A snapshot is always available. As long as a created datatype has a subscriber, the creator
  the server remembers is one of them, also after the original creator unsubscribed, so a subscribe
  request of the right type without transactions is answered with a snapshot of the creator's replica,
  the history beyond that snapshot, and no error.
\<close>

theorem subscribe_finds_creator:
  assumes reach: "server_reachable x s" and ok: "hash_first_ok x" and cr: "ls_created s" "\<not> server_is_empty s"
    and p: "ls_type s = ppp_type p" "ppp_transactions p = []"
  shows "\<exists>q a. hm_get (ls_wired_map s) (ls_creator s) = Some a \<and> process_subscribing now h s p = (s, Ok q) \<and>
    ppp_error q = None \<and> ppp_state q = Subscribed \<and> ppp_duid q = ls_duid s \<and>
    ppp_snapshot_transaction q = Some (get_subscribe_snapshot now (h a)) \<and>
    ppp_transactions q = filter (\<lambda>t. cp_sseq (m_checkpoint (wd_mutable (h a))) < tx_sseq t \<and> tx_cuid t \<noteq> ppp_cuid p)
      (ls_history s) \<and> cp_sseq (ppp_checkpoint q) = ls_sseq s"
proof -
  have "hm_contains (ls_wired_map s) (ls_creator s)"
    using creator_inv_reachable [OF reach ok] cr by (simp add: creator_inv_def)
  then obtain a where "hm_get (ls_wired_map s) (ls_creator s) = Some a" by (auto simp: hm_contains_iff)
  with cr p show ?thesis
    by (simp add: process_subscribing_def get_creator_wired_datatype_def pull_transactions_def
        get_pulled_stub_def get_subscribe_snapshot_def Let_def)
qed

theorem subscribe_finds_creator_witness:
  "\<exists>q. process_subscribing 0 ex_heap ex_server1 ex_subscribe = (ex_server1, Ok q) \<and> ppp_error q = None \<and>
     length (ppp_transactions q) = 2"
proof -
  have "ls_created ex_server1" and "\<not> server_is_empty ex_server1" and "ls_type ex_server1 = ppp_type ex_subscribe"
    and "ppp_transactions ex_subscribe = []"
    by (simp_all add: ex_server1_eq ex_server0_def insert_client_item_def LocalDatatypeServer_new_def
        server_is_empty_def hm_insert_def ex_subscribe_def PushPullPack_new_def)
  from subscribe_finds_creator [OF ex_server1_reachable ex_extern_ok(1) this, of 0 ex_heap] show ?thesis
    by (auto simp: ex_server1_eq ex_heap_def WiredDatatype_new_def ex_subscribe_def PushPullPack_new_def
        ex_attr_def Attribute_new_def set_transactional_def get_cuid_def)
qed

lemma serve_type [simp]: "ls_type (fst (serve x now rt h s p)) = ls_type s"
  by (cases "ppp_state p")
    (auto simp: serve_def process_creating_def process_subscribing_def process_subscribing_or_creating_def
      process_subscribed_def process_unsubscribing_def process_deleting_def process_disabled_def Let_def
      dest: push_frame process_client_push_frame split: prod.splits option.splits)

lemma wrong_type_answer:
  assumes "ppp_type p \<noteq> ls_type s"
    and "ppp_state p = Subscribed \<or> ppp_state p = Subscribing \<or> ppp_state p = SubscribingOrCreating \<and> ls_created s"
  shows "\<exists>e. serve x now rt h s p = (s, Ok (refuse (get_pulled_stub p) e)) \<and> (\<forall>msg. e \<noteq> PPE_ServerInternalError msg)"
  using assms
  by (auto simp: serve_def process_subscribing_def process_subscribing_or_creating_def process_subscribed_def Let_def)

text \<open>
  C32: Types are kept apart. No request changes the type of a server. A replica of another type that asks to
  subscribe, or to exchange as a subscriber, is refused: the server is left exactly as it was, no transaction
  of either side is applied on the other, and the replica is disabled with its data untouched, without a retry.
\<close>

theorem types_kept_apart:
  assumes kept: "unacked_kept m" and p: "create_push_pull_pack x m = Ok p" and ty: "at_type (m_attr m) \<noteq> ls_type s"
    and st: "m_state m = Subscribed \<or> m_state m = Subscribing \<or> m_state m = SubscribingOrCreating \<and> ls_created s"
  shows "(\<forall>p'. ls_type (fst (serve x now rt h s p')) = ls_type s) \<and>
    (\<exists>q m' e. serve x now rt h s p = (s, Ok q) \<and> apply_pull q m = (m', Err e) \<and> dewa_recovery e = Disable \<and>
      m_state m' = Disabled \<and> m_crdt m' = m_crdt m \<and> m_push_buffer m' = m_push_buffer m \<and>
      m_checkpoint m' = m_checkpoint m \<and> m_op_id m' = m_op_id m \<and> m_tx_record m' = m_tx_record m)"
proof -
  have "ppp_type p = at_type (m_attr m)" "ppp_state p = m_state m"
    by (subst pack_contents(4) [OF kept p]; simp add: PushPullPack_new_def)+
  then obtain w where e: "serve x now rt h s p = (s, Ok (refuse (get_pulled_stub p) w))" and w: "\<forall>msg. w \<noteq> PPE_ServerInternalError msg"
    using wrong_type_answer [of p s x now rt h] ty st by metis
  have "ppp_error (refuse (get_pulled_stub p) w) = Some w" "ppp_state (refuse (get_pulled_stub p) w) = Disabled"
    by (simp_all add: refuse_def)
  with apply_pull_error [of "refuse (get_pulled_stub p) w" w m] e w show ?thesis by (cases w) simp_all
qed

theorem types_kept_apart_witness:
  "\<exists>q m' e. serve ex_extern 0 True ex_heap (ex_server1\<lparr>ls_type := Type_Map\<rparr>)
       (checkpointing (PushPullPack_new ex_attr Subscribing) CheckPoint_default 0) = (ex_server1\<lparr>ls_type := Type_Map\<rparr>, Ok q) \<and>
     apply_pull q (ex_mut\<lparr>m_state := Subscribing\<rparr>) = (m', Err e) \<and> m_state m' = Disabled"
proof -
  let ?m = "ex_mut\<lparr>m_state := Subscribing\<rparr>" and ?p = "checkpointing (PushPullPack_new ex_attr Subscribing) CheckPoint_default 0"
  have "unacked_kept ?m" by (simp add: unacked_kept_def) (simp add: MemoryPushBuffer_new_def)
  moreover have "create_push_pull_pack ex_extern ?m = Ok ?p"
    by (simp add: create_push_pull_pack_def get_pushing_transactions_def MemoryPushBuffer_new_def PushPullPack_new_def)
  moreover have "at_type (m_attr ?m) \<noteq> ls_type (ex_server1\<lparr>ls_type := Type_Map\<rparr>)"
    by (simp add: ex_attr_def Attribute_new_def set_transactional_def)
  ultimately show ?thesis
    using types_kept_apart [of ?m ex_extern ?p "ex_server1\<lparr>ls_type := Type_Map\<rparr>" 0 True ex_heap] by auto
qed

text \<open>
  C31: An exchange with the in-memory backend is safe. If the histories of its servers are made of counter transactions and in
  order, an exchange of a replica that can still sync and buffers its own counter transactions does not panic (with arithmetic that wraps, as in a build without overflow
  checks), changes no other replica, and on success leaves the replica in the state its request leads to. The histories are again made of counter
  transactions, numbered 1, 2, 3, ... without a gap, with no transaction twice and in the order of each client.
\<close>

theorem local_exchange_safe:
  assumes sound: "local_sound c" and w: "wd_interceptor (h self) = WiredInterceptor_new" "unacked_kept (wd_mutable (h self))"
      "counter_txs (pb_transaction (m_push_buffer (wd_mutable (h self))))" "own_buffer (wd_mutable (h self))"
    and sync: "syncable (m_state (wd_mutable (h self)))"
    and fits: "\<And>p c' q. push_phase x (h self) = Ok p \<Longrightarrow> LocalConnectivity_push_pull x now h c p = (c', Ok q) \<Longrightarrow>
        length (ppp_transactions q) < 2 ^ 64"
    and e: "do_push_pull x (LocalConnectivity_push_pull x now) self (h, c) = ((h', c'), r)"
  shows "\<not> is_panic r \<and> (\<forall>j. j \<noteq> self \<longrightarrow> h' j = h j) \<and>
    (r = Ok () \<longrightarrow> m_state (wd_mutable (h' self)) = expected_state (m_state (wd_mutable (h self)))) \<and> local_sound c' \<and>
    (\<forall>rid s. get_local_datatype_server c' rid = Some s \<longrightarrow> (let H = ls_history s
      in counter_txs H \<and> map tx_sseq H = map (\<lambda>i. of_nat (Suc i)) [0..<length H] \<and> ls_sseq s = of_nat (length H) \<and>
         distinct (map (\<lambda>t. (tx_cuid t, tx_cseq t)) H) \<and> (\<forall>u. sorted_wrt (<) (map tx_cseq (own u H)))))"
proof -
  have ex: "\<not> is_panic r \<and> local_sound c' \<and> (\<forall>j. j \<noteq> self \<longrightarrow> h' j = h j) \<and>
    (r = Ok () \<longrightarrow> m_state (wd_mutable (h' self)) = expected_state (m_state (wd_mutable (h self))))"
    by (rule local.exchange [OF sound w sync _ e]) (rule fits)
  have "let H = ls_history s in counter_txs H \<and> map tx_sseq H = map (\<lambda>i. of_nat (Suc i)) [0..<length H] \<and> ls_sseq s = of_nat (length H) \<and>
      distinct (map (\<lambda>t. (tx_cuid t, tx_cseq t)) H) \<and> (\<forall>u. sorted_wrt (<) (map tx_cseq (own u H)))"
    if "get_local_datatype_server c' rid = Some s" for rid s
    using local_soundD [OF _ that] server_inv_distinct [of s] ex by (simp add: server_inv_def)
  with ex show ?thesis by blast
qed

definition ex_conn :: LocalConnectivity where
  "ex_conn = \<lparr>lc_datatype_servers = [(Attribute_resource_id ex_attr, ex_server0)], lc_is_realtime = True\<rparr>"

theorem local_exchange_safe_witness:
  "\<not> is_panic (snd (do_push_pull ex_extern (LocalConnectivity_push_pull ex_extern 0) 0 (ex_heap, ex_conn)))"
proof -
  obtain h' c' r where e: "do_push_pull ex_extern (LocalConnectivity_push_pull ex_extern 0) 0 (ex_heap, ex_conn) = ((h', c'), r)"
    by (metis prod.collapse)
  have w: "wd_interceptor (ex_heap 0) = WiredInterceptor_new" "wd_mutable (ex_heap 0) = ex_mut"
    by (simp_all add: ex_heap_def WiredDatatype_new_def)
  have "unacked_kept ex_mut" by (simp add: unacked_kept_def) (simp add: MemoryPushBuffer_new_def)
  moreover have "counter_txs (pb_transaction (m_push_buffer ex_mut))" "own_buffer ex_mut" "syncable (m_state ex_mut)"
    by (simp_all add: MemoryPushBuffer_new_def syncable_def own_buffer_def)
  moreover have "server_inv ex_server0" unfolding ex_server0_def by (rule server_inv_reachable [OF srv_new])
  then have "local_sound ex_conn"
    by (simp add: local_sound_def ex_conn_def) (simp add: ex_server0_def insert_client_item_def LocalDatatypeServer_new_def)
  moreover have "length (ppp_transactions q) < 2 ^ 64"
    if "push_phase ex_extern (ex_heap 0) = Ok p" "LocalConnectivity_push_pull ex_extern 0 ex_heap ex_conn p = (c1, Ok q)" for p c1 q
  proof -
    have "p = checkpointing (PushPullPack_new ex_attr Creating) CheckPoint_default 0"
      using that(1) w by (simp add: push_phase_def create_push_pull_pack_def get_pushing_transactions_def MemoryPushBuffer_new_def
          WiredInterceptor_new_def PushPullPack_new_def)
    with that(2) show ?thesis
      by (auto simp: LocalConnectivity_push_pull_def checkpointing_def PushPullPack_new_def serve_def process_creating_def
          refuse_def get_pulled_stub_def Let_def split: option.splits if_splits prod.splits)
  qed
  ultimately show ?thesis
    using local_exchange_safe [where h = ex_heap and self = 0, OF _ w(1), unfolded w(2), OF _ _ _ _ _ _ e] e by simp
qed

end
