(* ===== verification/Convergence.thy ===== *)
theory Convergence
  imports Local_Connectivity
begin

text \<open>
  The replicas of one datatype and their server as one system. A replica's user thread runs operations,
  ends transactions and may unsubscribe; its event loop asks (the first critical section of \<open>do_push_pull\<close>),
  the server answers, and the loop applies the answer (the second one). These steps interleave freely: an
  unsubscribe call may overtake a request or its answer; a request or a response may be lost, which the
  loop answers by asking again.

  Four guards of the relation exclude situations in which the implementation does lose or duplicate
  updates; the theorems of theory Protocol_Gaps show the first three of them to be real:
  a creation request is answered only while the history holds nothing but the creator's own transactions;
  a snapshot is taken only of a creator that has everything acknowledged and no transaction in progress;
  a subscriber's client id is new to the history, and it is not the creator asking again;
  and a rollback does not bring back an older lifecycle state. The relation follows one server: that
  the backend removes a server without clients, and makes a new one for the next client, is not a step of it.
\<close>

subsection \<open>The system\<close>

datatype flight = Idle | Asked PushPullPack | Answered PushPullPack

record sys =
  sy_server :: LocalDatatypeServer
  sy_rep :: "nat \<Rightarrow> MutableDatatype"
  sy_flight :: "nat \<Rightarrow> flight"

definition sys_heap :: "sys \<Rightarrow> heap" where
  "sys_heap s = (\<lambda>i. WiredDatatype_new (sy_rep s i))"

definition set_rep :: "sys \<Rightarrow> nat \<Rightarrow> MutableDatatype \<Rightarrow> sys" where
  "set_rep s i m = s\<lparr>sy_rep := (sy_rep s)(i := m)\<rparr>"

definition set_flight :: "sys \<Rightarrow> nat \<Rightarrow> flight \<Rightarrow> sys" where
  "set_flight s i f = s\<lparr>sy_flight := (sy_flight s)(i := f)\<rparr>"

definition quiescent :: "MutableDatatype \<Rightarrow> bool" where
  "quiescent m = (pending (m_tx_record m) = None \<and>
     unat (cp_cseq (m_checkpoint m)) = length (pb_transaction (m_push_buffer m)))"

text \<open>Ending a transaction as the transactional layer does: a commit that fails is rolled back.\<close>

definition end_or_rollback :: "MutableDatatype \<Rightarrow> string option \<Rightarrow> bool \<Rightarrow> MutableDatatype" where
  "end_or_rollback m tag committed =
     (case end_transaction m tag committed of
        (m1, Err e) \<Rightarrow> fst (apply_action m1 (dewa_recovery e))
      | (m1, _) \<Rightarrow> m1)"

text \<open>Applying an answer as the event loop does: an error is followed by its recovery.\<close>

definition pull_and_recover :: "PushPullPack \<Rightarrow> MutableDatatype \<Rightarrow> MutableDatatype" where
  "pull_and_recover q m =
     (case apply_pull q m of
        (m1, Err d) \<Rightarrow> fst (apply_action m1 (dewa_recovery d))
      | (m1, _) \<Rightarrow> m1)"

text \<open>The guards on what the server is asked.\<close>

definition creation_ok :: "LocalDatatypeServer \<Rightarrow> PushPullPack \<Rightarrow> bool" where
  "creation_ok s p = (own (ppp_cuid p) (ls_history s) = ls_history s)"

definition subscription_ok :: "(nat \<Rightarrow> bool) \<Rightarrow> sys \<Rightarrow> PushPullPack \<Rightarrow> bool" where
  "subscription_ok R s p =
     (own (ppp_cuid p) (ls_history (sy_server s)) = [] \<and> ppp_duid p \<noteq> ls_duid (sy_server s) \<and>
      (case get_creator_wired_datatype (sy_server s) of
         None \<Rightarrow> True
       | Some a \<Rightarrow> R a \<and> m_state (sy_rep s a) \<noteq> Disabled \<and> quiescent (sy_rep s a)))"

definition serve_ok :: "(nat \<Rightarrow> bool) \<Rightarrow> sys \<Rightarrow> PushPullPack \<Rightarrow> bool" where
  "serve_ok R s p =
     (length (ls_history (sy_server s)) + length (ppp_transactions p) < 2 ^ 64 \<and>
      (if ppp_state p = Creating \<or> ppp_state p = SubscribingOrCreating \<and> \<not> ls_created (sy_server s)
       then creation_ok (sy_server s) p
       else if ppp_state p = Subscribing \<or> ppp_state p = SubscribingOrCreating
       then subscription_ok R s p else True))"

inductive sys_step :: "extern \<Rightarrow> (nat \<Rightarrow> bool) \<Rightarrow> sys \<Rightarrow> sys \<Rightarrow> bool" for x R where
  sys_op: "R i \<Longrightarrow> is_read_writable (m_state (sy_rep s i)) \<Longrightarrow> counter_op op \<Longrightarrow>
    unat (oid_cseq (m_op_id (sy_rep s i))) + 3 < 2 ^ 64 \<Longrightarrow>
    sys_step x R s (set_rep s i (fst (execute_local_operation (sy_rep s i) op)))"
| sys_end: "R i \<Longrightarrow> m_state (sy_rep s i) \<noteq> Disabled \<Longrightarrow>
    m_state (end_or_rollback (sy_rep s i) tag committed) = m_state (sy_rep s i) \<Longrightarrow>
    sys_step x R s (set_rep s i (end_or_rollback (sy_rep s i) tag committed))"
| sys_ask: "R i \<Longrightarrow> m_state (sy_rep s i) \<noteq> Disabled \<Longrightarrow> sy_flight s i = Idle \<Longrightarrow>
    create_push_pull_pack x (sy_rep s i) = Ok p \<Longrightarrow> sys_step x R s (set_flight s i (Asked p))"
| sys_serve: "R i \<Longrightarrow> sy_flight s i = Asked p \<Longrightarrow> m_state (sy_rep s i) \<noteq> Disabled \<Longrightarrow> serve_ok R s p \<Longrightarrow>
    serve x now rt (sys_heap s) (sy_server s) p = (srv, Ok q) \<Longrightarrow>
    sys_step x R s (set_flight (s\<lparr>sy_server := srv\<rparr>) i (Answered q))"
| sys_lose: "R i \<Longrightarrow> sys_step x R s (set_flight s i Idle)"
| sys_pull: "R i \<Longrightarrow> sy_flight s i = Answered q \<Longrightarrow> m_state (sy_rep s i) \<noteq> Disabled \<Longrightarrow>
    sys_step x R s (set_flight (set_rep s i (pull_and_recover q (sy_rep s i))) i Idle)"
| sys_unsubscribe: "R i \<Longrightarrow> m_state (sy_rep s i) = Subscribed \<Longrightarrow>
    sys_step x R s (set_rep s i (set_state (sy_rep s i) Unsubscribing))"
| sys_register: "R i \<Longrightarrow> sys_step x R s (s\<lparr>sy_server :=
    insert_client_item (sy_server s) (get_cuid (m_attr (sy_rep s i))) i sender\<rparr>)"

definition sys_init :: "(nat \<Rightarrow> bool) \<Rightarrow> sys \<Rightarrow> bool" where
  "sys_init R s =
     ((\<exists>attr. sy_server s = LocalDatatypeServer_new attr) \<and>
      (\<forall>i. R i \<longrightarrow> sy_flight s i = Idle \<and>
         (\<exists>attr state hs. MutableDatatype_new attr state hs = Ok (sy_rep s i) \<and>
            (state = Creating \<or> state = Subscribing \<or> state = SubscribingOrCreating))) \<and>
      (\<forall>i j. R i \<longrightarrow> R j \<longrightarrow> get_cuid (m_attr (sy_rep s i)) = get_cuid (m_attr (sy_rep s j)) \<longrightarrow> i = j))"

inductive sys_reachable :: "extern \<Rightarrow> (nat \<Rightarrow> bool) \<Rightarrow> sys \<Rightarrow> bool" for x R where
  sys_start: "sys_init R s \<Longrightarrow> sys_reachable x R s"
| sys_next: "sys_reachable x R s \<Longrightarrow> sys_step x R s s' \<Longrightarrow> sys_reachable x R s'"

subsection \<open>The invariant\<close>

definition pending_delta :: "MutableDatatype \<Rightarrow> i64" where
  "pending_delta m = (case pending (m_tx_record m) of None \<Rightarrow> 0 | Some tx \<Rightarrow> ops_delta (tx_operations tx))"

text \<open>The buffer of a replica holds all its transactions since it (re)started, numbered from 1.\<close>

definition buffer_inv :: "Cuid \<Rightarrow> MutableDatatype \<Rightarrow> bool" where
  "buffer_inv u m =
     (let b = m_push_buffer m; B = pb_transaction b
      in pb_inv b \<and> (B = [] \<or> pb_first_cseq b = 1) \<and> length B + 2 < 2 ^ 64 \<and> counter_txs B \<and>
         (\<forall>t \<in> set B. tx_cuid t = u) \<and> get_cuid (m_attr m) = u \<and> oid_cuid (m_op_id m) = u \<and>
         (case pending (m_tx_record m) of
            None \<Rightarrow> oid_cseq (m_op_id m) = of_nat (length B)
          | Some tx \<Rightarrow> list_all counter_op (tx_operations tx) \<and> tx_cuid tx = u \<and>
              oid_cseq (m_op_id m) = of_nat (Suc (length B)) \<and> tx_cseq tx = of_nat (Suc (length B)) \<and>
              oid_cseq (rollback_op_id (m_tx_record m)) = of_nat (length B) \<and>
              oid_cuid (rollback_op_id (m_tx_record m)) = u \<and> length B + 3 < 2 ^ 64))"

text \<open>How a replica relates to the history \<open>H\<close>.\<close>

definition linked :: "Transaction list \<Rightarrow> Cuid \<Rightarrow> MutableDatatype \<Rightarrow> bool" where
  "linked H u m =
     (let B = pb_transaction (m_push_buffer m); S = unat (cp_sseq (m_checkpoint m)); C = unat (cp_cseq (m_checkpoint m))
      in S \<le> length H \<and> C = length (own u (take S H)) \<and> length (own u H) \<le> length B \<and>
         map tx_operations (own u H) = map tx_operations (take (length (own u H)) B) \<and>
         crdt_value (m_crdt m) = txs_delta (take S H) + txs_delta (drop C B) + pending_delta m)"

definition asked_ok :: "MutableDatatype \<Rightarrow> PushPullPack \<Rightarrow> bool" where
  "asked_ok m p =
     (ppp_cuid p = get_cuid (m_attr m) \<and> (ppp_state p = m_state m \<or> m_state m = Unsubscribing \<and> ppp_state p = Subscribed) \<and>
      ppp_duid p = get_duid (m_attr m) \<and>
      cp_sseq (ppp_checkpoint p) = cp_sseq (m_checkpoint m) \<and>
      (\<exists>k \<le> length (pb_transaction (m_push_buffer m)) - unat (cp_cseq (m_checkpoint m)).
         ppp_transactions p = take k (drop (unat (cp_cseq (m_checkpoint m))) (pb_transaction (m_push_buffer m)))))"

definition answered_ok :: "Transaction list \<Rightarrow> Cuid \<Rightarrow> MutableDatatype \<Rightarrow> PushPullPack \<Rightarrow> bool" where
  "answered_ok H u m q =
     (if ppp_error q \<noteq> None then ppp_state q = m_state m \<and> m_state m \<noteq> Subscribed \<or> ppp_state q = Disabled
      else (let N = unat (cp_sseq (ppp_checkpoint q)); K = unat (cp_cseq (ppp_checkpoint q)); S = unat (cp_sseq (m_checkpoint m))
       in ppp_state q = Subscribed \<and> counter_txs (ppp_transactions q) \<and> S \<le> N \<and> N \<le> length H \<and>
          K = length (own u (take N H)) \<and>
          (if no_snapshot m q
           then ppp_transactions q = filter (\<lambda>t. tx_cuid t \<noteq> u) (drop S (take N H))
           else own u H = [] \<and> length (ppp_transactions q) \<le> N \<and> S = 0 \<and>
                (\<exists>tx now src. ppp_snapshot_transaction q = Some tx \<and> tx_operations tx = [new_snapshot_operation now src] \<and>
                   crdt_value (m_crdt src) + txs_delta (ppp_transactions q) = txs_delta (take N H)))))"

text \<open>
  A replica that has been told to unsubscribe is disabled by any answer: by the one to its request, and
  by one to a request it made before.
\<close>

definition parting_ok :: "PushPullPack \<Rightarrow> bool" where
  "parting_ok q =
     (if ppp_error q \<noteq> None then ppp_state q = Disabled
      else ppp_state q = Subscribed \<or>
           ppp_state q = Disabled \<and> counter_txs (ppp_transactions q) \<and> length (ppp_transactions q) < 2 ^ 64)"

definition response_ok :: "Transaction list \<Rightarrow> Cuid \<Rightarrow> MutableDatatype \<Rightarrow> PushPullPack \<Rightarrow> bool" where
  "response_ok H u m q = (if m_state m = Unsubscribing then parting_ok q else answered_ok H u m q)"

definition flight_ok :: "Transaction list \<Rightarrow> Cuid \<Rightarrow> MutableDatatype \<Rightarrow> flight \<Rightarrow> bool" where
  "flight_ok H u m f =
     (case f of Idle \<Rightarrow> True | Asked p \<Rightarrow> asked_ok m p | Answered q \<Rightarrow> response_ok H u m q)"

definition order_inv :: "LocalDatatypeServer \<Rightarrow> bool" where
  "order_inv s =
     (let H = ls_history s
      in map tx_sseq H = map (\<lambda>i. of_nat (Suc i)) [0..<length H] \<and> ls_sseq s = of_nat (length H) \<and>
         length H < 2 ^ 64 \<and> counter_txs H \<and>
         (\<forall>u. cp_cseq (client_checkpoint s u) = of_nat (length (own u H))))"

definition replica_inv :: "Transaction list \<Rightarrow> MutableDatatype \<Rightarrow> flight \<Rightarrow> bool" where
  "replica_inv H m f =
     (m_state m \<noteq> Disabled \<longrightarrow>
        m_state m \<noteq> Deleting \<and>
        (m_state m \<noteq> Subscribed \<and> m_state m \<noteq> Unsubscribing \<longrightarrow> cp_sseq (m_checkpoint m) = 0) \<and>
        buffer_inv (get_cuid (m_attr m)) m \<and> linked H (get_cuid (m_attr m)) m \<and>
        flight_ok H (get_cuid (m_attr m)) m f)"

definition sys_inv :: "(nat \<Rightarrow> bool) \<Rightarrow> sys \<Rightarrow> bool" where
  "sys_inv R s =
     (order_inv (sy_server s) \<and>
      (\<forall>i. R i \<longrightarrow> replica_inv (ls_history (sy_server s)) (sy_rep s i) (sy_flight s i)) \<and>
      (\<forall>i j. R i \<longrightarrow> R j \<longrightarrow> get_cuid (m_attr (sy_rep s i)) = get_cuid (m_attr (sy_rep s j)) \<longrightarrow> i = j))"


subsection \<open>Lists of transactions, split by client\<close>

lemma txs_delta_cong: "map tx_operations xs = map tx_operations ys \<Longrightarrow> txs_delta xs = txs_delta ys"
  by (simp add: txs_delta_def txs_ops_def)

lemma txs_delta_cut: "txs_delta xs = txs_delta (take n xs) + txs_delta (drop n xs)"
  by (metis append_take_drop_id txs_delta_simps(3))

lemma txs_delta_split: "txs_delta xs = txs_delta (own u xs) + txs_delta (filter (\<lambda>t. tx_cuid t \<noteq> u) xs)"
  by (induction xs) (simp_all add: own_def algebra_simps)

lemma sseq_drop:
  assumes num: "map tx_sseq H = map (\<lambda>i. of_nat (Suc i)) [0..<length H]" and len: "length H < 2 ^ 64"
  shows "filter (\<lambda>t. s < tx_sseq t \<and> P t) H = filter P (drop (unat s) H)"
proof -
  have nth: "unat (tx_sseq (H ! i)) = Suc i" if "i < length H" for i
  proof -
    have "tx_sseq (H ! i) = of_nat (Suc i)"
      using that arg_cong [OF num, of "\<lambda>l. l ! i"] by simp
    with that len show ?thesis by (simp only: unat_of_nat_u64)
  qed
  have early: "\<not> s < tx_sseq t" if "t \<in> set (take (unat s) H)" for t
  proof -
    from that obtain i where "i < length H" "i < unat s" "t = H ! i" by (auto simp: in_set_conv_nth)
    with nth show ?thesis by (auto simp: word_less_nat_alt)
  qed
  have late: "s < tx_sseq t" if "t \<in> set (drop (unat s) H)" for t
  proof -
    from that obtain i where "i < length H - unat s" "t = H ! (unat s + i)" by (auto simp: in_set_conv_nth)
    with nth [of "unat s + i"] show ?thesis by (auto simp: word_less_nat_alt)
  qed
  have "filter (\<lambda>t. s < tx_sseq t \<and> P t) (take (unat s) H) = []"
    and "filter (\<lambda>t. s < tx_sseq t \<and> P t) (drop (unat s) H) = filter P (drop (unat s) H)"
    using early late by (auto simp: filter_empty_conv intro!: filter_cong)
  then show ?thesis
    using filter_append [of "\<lambda>t. s < tx_sseq t \<and> P t" "take (unat s) H" "drop (unat s) H"] by simp
qed

lemma fresh_consec:
  assumes "consec (of_nat (Suc c)) ts" and "c + length ts < 2 ^ 64" and "c \<le> n" and "n < 2 ^ 64"
  shows "fresh_txs (of_nat n) ts = drop (n - c) ts \<and> max_cseq (of_nat n) ts = of_nat (max n (c + length ts))"
  using assms
proof (induction ts arbitrary: c n)
  case (Cons t ts)
  have u: "unat (of_nat n :: u64) = n" "unat (of_nat (Suc c) :: u64) = Suc c"
    using Cons.prems(2-4) by (auto intro!: unat_of_nat_u64 simp del: of_nat_Suc)
  have t: "tx_cseq t = of_nat (Suc c)" and ts: "consec (of_nat (Suc (Suc c))) ts"
    using Cons.prems(1) by (simp_all add: algebra_simps)
  have le: "tx_cseq t \<le> of_nat n \<longleftrightarrow> c < n" using u by (simp add: t word_le_nat_alt del: of_nat_Suc) auto
  show ?case
  proof (cases "c < n")
    case True
    with Cons.IH [OF ts, of n] Cons.prems le show ?thesis
      by (auto simp: max_cseq_def max_def Suc_diff_Suc [symmetric])
  next
    case False
    then have "c = n" using Cons.prems by simp
    moreover have "max (of_nat n) (tx_cseq t) = tx_cseq t" using le False by (simp add: max.absorb2)
    ultimately show ?thesis using Cons.IH [OF ts, of "Suc n"] Cons.prems le False t
      by (auto simp: max_cseq_def max_def simp del: of_nat_Suc)
  qed
qed (simp add: max_cseq_def)

subsection \<open>One replica\<close>

lemma linked_append:
  assumes "linked H u m" and "own u ts = []"
  shows "linked (H @ ts) u m"
  using assms by (simp add: linked_def Let_def)

lemma answered_append:
  assumes "answered_ok H u m q" and "own u ts = []"
  shows "answered_ok (H @ ts) u m q"
  using assms by (auto simp: answered_ok_def Let_def)

lemma linked_acked: "linked H u m \<Longrightarrow> unat (cp_cseq (m_checkpoint m)) \<le> length (pb_transaction (m_push_buffer m))"
  using own_take_le [of u _ H] by (auto simp: linked_def Let_def intro: order_trans)

lemma buffer_unacked:
  assumes inv: "buffer_inv u m" and acked: "unat (cp_cseq (m_checkpoint m)) \<le> length (pb_transaction (m_push_buffer m))"
  shows "unacked_kept m"
    and "filter (\<lambda>t. cp_cseq (m_checkpoint m) + 1 \<le> tx_cseq t) (pb_transaction (m_push_buffer m)) =
           drop (unat (cp_cseq (m_checkpoint m))) (pb_transaction (m_push_buffer m))"
proof -
  let ?c = "cp_cseq (m_checkpoint m)" and ?b = "m_push_buffer m"
  have c: "unat (?c + 1) = Suc (unat ?c)"
    using inv acked by (intro unat_plus_one_small) (simp add: buffer_inv_def Let_def)
  then have nz: "?c + 1 \<noteq> 0" by (metis nat.distinct(1) unsigned_0)
  have first: "pb_first_cseq ?b \<le> ?c + 1"
    using inv c by (auto simp: buffer_inv_def Let_def pb_inv_def word_le_nat_alt)
  with nz inv show "unacked_kept m" by (simp add: unacked_kept_def buffer_inv_def Let_def)
  show "filter (\<lambda>t. ?c + 1 \<le> tx_cseq t) (pb_transaction ?b) = drop (unat ?c) (pb_transaction ?b)"
  proof (cases "pb_transaction ?b = []")
    case False
    with inv have "pb_first_cseq ?b = 1" and "pb_inv ?b" by (auto simp: buffer_inv_def Let_def)
    with False first filter_ge_drop [of 1 "pb_transaction ?b" "?c + 1"] show ?thesis
      by (simp add: pb_inv_def)
  qed simp
qed

lemma ask_ok:
  assumes "buffer_inv u m" and "unat (cp_cseq (m_checkpoint m)) \<le> length (pb_transaction (m_push_buffer m))"
    and pack: "create_push_pull_pack x m = Ok p"
  shows "asked_ok m p"
proof -
  let ?c = "unat (cp_cseq (m_checkpoint m))" and ?B = "pb_transaction (m_push_buffer m)"
  note b = buffer_unacked [OF assms(1,2)]
  note contents = pack_contents [OF b(1) pack]
  obtain rest where rest: "ppp_transactions p @ rest = drop ?c ?B" using contents(1) b(2) by auto
  then have "ppp_transactions p = take (length (ppp_transactions p)) (drop ?c ?B)" by (metis append_eq_conv_conj)
  moreover have "length (ppp_transactions p) \<le> length ?B - ?c"
    using arg_cong [OF rest, of length] by simp
  moreover have "ppp_cuid p = get_cuid (m_attr m)" "ppp_state p = m_state m" "ppp_duid p = get_duid (m_attr m)"
    by (subst contents(4); simp add: PushPullPack_new_def get_cuid_def)+
  ultimately show ?thesis unfolding asked_ok_def using contents(3) by auto
qed

text \<open>Both kinds of answers install a prefix of the order, with what the replica still has to push on top.\<close>

lemma linked_pulled:
  assumes l: "linked H u m" and a: "answered_ok H u m q" "ppp_error q = None" "no_snapshot m q" and len: "length H < 2 ^ 64"
  shows "linked H u (pulled_into q m)"
proof -
  define S where "S = unat (cp_sseq (m_checkpoint m))"
  define C where "C = unat (cp_cseq (m_checkpoint m))"
  define N where "N = unat (cp_sseq (ppp_checkpoint q))"
  define K where "K = unat (cp_cseq (ppp_checkpoint q))"
  let ?B = "pb_transaction (m_push_buffer m)" and ?F = "filter (\<lambda>t. tx_cuid t \<noteq> u) (drop S (take N H))"
  have SN: "S \<le> N" "N \<le> length H" and K: "K = length (own u (take N H))" and F: "ppp_transactions q = ?F"
    using a by (auto simp: answered_ok_def Let_def S_def N_def K_def)
  have C: "C = length (own u (take S H))" and B: "map tx_operations (own u H) = map tx_operations (take (length (own u H)) ?B)"
    and val: "crdt_value (m_crdt m) = txs_delta (take S H) + txs_delta (drop C ?B) + pending_delta m"
    and lB: "length (own u H) \<le> length ?B"
    using l by (auto simp: linked_def Let_def S_def C_def)
  note between = foreign_between [OF SN, of u]
  have CK: "C \<le> K" "K \<le> length (own u H)" using between(2) own_take_le by (simp_all add: C K)
  have "m_checkpoint m = seen_upto H u S" "ppp_checkpoint q = seen_upto H u N"
    unfolding seen_upto_def C [symmetric] K [symmetric] by (simp_all add: S_def C_def N_def K_def)
  with unskipped_order [OF len order_refl SN, of q u] F
  have unskipped: "unskipped (m_checkpoint m) q = ?F" and cp: "check_with (m_checkpoint m) (ppp_checkpoint q) = ppp_checkpoint q"
    by simp_all
  have own: "txs_delta (own u (drop S (take N H))) = txs_delta (take (K - C) (drop C ?B))"
  proof (rule txs_delta_cong)
    have "own u (take N H) = take K (own u H)" using own_take [of u N H] by (simp add: K)
    then have "own u (drop S (take N H)) = drop C (take K (own u H))"
      using own_between [OF SN(1), of u H] C by (metis append_eq_conv_conj)
    then have "map tx_operations (own u (drop S (take N H))) = drop C (take K (map tx_operations (own u H)))"
      by (simp add: take_map drop_map)
    also have "\<dots> = map tx_operations (take (K - C) (drop C ?B))"
      using CK by (simp add: B take_map drop_map drop_take min_absorb1)
    finally show "map tx_operations (own u (drop S (take N H))) = map tx_operations (take (K - C) (drop C ?B))" .
  qed
  have "txs_delta (take N H) = txs_delta (take S H) + txs_delta (drop S (take N H))"
    using SN txs_delta_cut [of "take N H" S] by (simp add: min_absorb1)
  moreover have "txs_delta (drop C ?B) = txs_delta (take (K - C) (drop C ?B)) + txs_delta (drop K ?B)"
    using CK txs_delta_cut [of "drop C ?B" "K - C"] by simp
  ultimately have "crdt_value (m_crdt m) + txs_delta ?F = txs_delta (take N H) + txs_delta (drop K ?B) + pending_delta m"
    using own txs_delta_split [of "drop S (take N H)" u] by (simp add: val)
  with SN K B lB show ?thesis
    by (simp add: linked_def cp unskipped Let_def N_def [symmetric] K_def [symmetric] pending_delta_def)
qed

lemma linked_installed:
  assumes l: "linked H u m" and a: "answered_ok H u m q" "ppp_error q = None" "\<not> no_snapshot m q"
    and tx: "ppp_snapshot_transaction q = Some tx" "tx_operations tx = [op]"
  shows "\<exists>now src. op = new_snapshot_operation now src \<and> linked H u (pulled_into q (subscribed_from q op (m_crdt src) m))"
proof -
  obtain now src where src: "op = new_snapshot_operation now src"
      "crdt_value (m_crdt src) + txs_delta (ppp_transactions q) = txs_delta (take (unat (cp_sseq (ppp_checkpoint q))) H)"
    and own: "own u H = []" and n: "length (ppp_transactions q) \<le> unat (cp_sseq (ppp_checkpoint q))"
      "unat (cp_sseq (ppp_checkpoint q)) \<le> length H"
    and k: "unat (cp_cseq (ppp_checkpoint q)) = length (own u (take (unat (cp_sseq (ppp_checkpoint q))) H))"
    and s0: "unat (cp_sseq (m_checkpoint m)) = 0"
    using a tx by (auto simp: answered_ok_def Let_def)
  then have s: "cp_sseq (m_checkpoint m) = 0" by (simp add: unat_eq_zero)
  have z: "own u (take n H) = []" for n using own_take [of u n H] own by simp
  with k have k0: "cp_cseq (ppp_checkpoint q) = 0" by (simp add: unat_eq_zero)
  have c0: "cp_cseq (m_checkpoint m) = 0" using l z by (simp add: linked_def Let_def unat_eq_zero)
  have cp: "check_with (m_checkpoint m) (ppp_checkpoint q) = ppp_checkpoint q"
    using s c0 by (cases "ppp_checkpoint q") (simp add: check_with_def max_def)
  have "unskipped (m_checkpoint m) q = ppp_transactions q"
    using n s c0 k0 by (simp add: unskipped_def calculate_pulling_transactions_def Let_def)
  with src n own z k0 cp show ?thesis
    by (intro exI [of _ now] exI [of _ src])
      (simp add: linked_def subscribed_from_def Let_def MemoryPushBuffer_new_def TxRecord_new_def pending_delta_def)
qed

text \<open>What the user thread does to its replica.\<close>

lemma flight_grow:
  assumes "flight_ok H u m f" and "m_attr m' = m_attr m" "m_state m' = m_state m" "m_checkpoint m' = m_checkpoint m"
    and "pb_transaction (m_push_buffer m') = pb_transaction (m_push_buffer m) @ ts"
  shows "flight_ok H u m' f"
proof (cases f)
  case (Asked p)
  with assms(1) obtain k where
      "k \<le> length (pb_transaction (m_push_buffer m)) - unat (cp_cseq (m_checkpoint m))"
      "ppp_transactions p = take k (drop (unat (cp_cseq (m_checkpoint m))) (pb_transaction (m_push_buffer m)))"
    by (auto simp: flight_ok_def asked_ok_def)
  with Asked assms show ?thesis by (auto simp: flight_ok_def asked_ok_def intro!: exI [of _ k])
next
  case (Answered q)
  have "no_snapshot m' q = no_snapshot m q" using assms by (simp add: no_snapshot_def)
  moreover have "response_ok H u m q" using Answered assms(1) by (simp add: flight_ok_def)
  ultimately have "response_ok H u m' q" using assms(3,4) unfolding response_ok_def answered_ok_def by presburger
  with Answered show ?thesis by (simp add: flight_ok_def)
qed (simp add: flight_ok_def)

lemma operation_keeps:
  assumes inv: "buffer_inv u m" "linked H u m" and op: "counter_op op"
    and small: "unat (oid_cseq (m_op_id m)) + 3 < 2 ^ 64" and e: "m' = fst (execute_local_operation m op)"
  shows "buffer_inv u m'" "linked H u m'" "m_attr m' = m_attr m" "m_state m' = m_state m"
    "m_checkpoint m' = m_checkpoint m" "m_push_buffer m' = m_push_buffer m"
proof -
  have m': "m' = m\<lparr>m_crdt := crdt_apply op (m_crdt m),
       m_tx_record := fst (record_operation (m_tx_record m) (m_op_id m) (m_state m)
                        (set_lamport op (oid_lamport (m_op_id m) + 1))),
       m_op_id := OperationId_next (m_op_id m) (pending (m_tx_record m) = None)\<rparr>"
    by (simp add: e execute_local_operation_counter [OF op])
  show "m_attr m' = m_attr m" "m_state m' = m_state m" "m_checkpoint m' = m_checkpoint m"
    "m_push_buffer m' = m_push_buffer m" by (simp_all add: m')
  have n: "unat (oid_cseq (m_op_id m)) = length (pb_transaction (m_push_buffer m))"
    if "pending (m_tx_record m) = None"
    using inv(1) that by (simp add: buffer_inv_def Let_def unat_of_nat_u64)
  have p: "pending_delta m' = pending_delta m + op_delta op"
    by (cases "pending (m_tx_record m)") (simp_all add: m' pending_delta_def record_operation_def push_operation_def Transaction_new_def)
  show "buffer_inv u m'"
  proof (cases "pending (m_tx_record m)")
    case None
    with inv(1) small n op show ?thesis
      by (simp add: m' buffer_inv_def Let_def record_operation_def push_operation_def Transaction_new_def OperationId_next_def)
  next
    case (Some tx)
    with inv(1) op show ?thesis
      by (simp add: m' buffer_inv_def Let_def record_operation_def push_operation_def OperationId_next_def)
  qed
  show "linked H u m'" using inv(2) p by (simp add: linked_def Let_def m')
qed

lemma rollback_keeps:
  assumes inv: "buffer_inv u m" "linked H u m" and e: "m' = fst (do_rollback m)"
  shows "buffer_inv u m'" "linked H u m'" "m_attr m' = m_attr m"
    "m_checkpoint m' = m_checkpoint m" "m_push_buffer m' = m_push_buffer m"
proof -
  have "buffer_inv u m' \<and> linked H u m' \<and> m_attr m' = m_attr m \<and>
    m_checkpoint m' = m_checkpoint m \<and> m_push_buffer m' = m_push_buffer m"
  proof (cases "pending (m_tx_record m)")
    case None
    with e inv show ?thesis by (simp add: do_rollback_def)
  next
    case (Some tx)
    with inv(1) have ops: "list_all counter_op (tx_operations tx)" by (simp add: buffer_inv_def Let_def)
    have m': "m' = set_state (m\<lparr>m_tx_record := (m_tx_record m)\<lparr>pending := None\<rparr>,
                  m_crdt := fold crdt_undo (rev (tx_operations tx)) (m_crdt m),
                  m_op_id := rollback_op_id (m_tx_record m)\<rparr>) (rollback_state (m_tx_record m))"
      by (simp add: e do_rollback_counter [OF Some ops])
    have "crdt_value (m_crdt m') = crdt_value (m_crdt m) - ops_delta (tx_operations tx)"
      using ops by (simp add: m' crdt_value_undo_all)
    with inv Some show ?thesis
      by (simp add: m' buffer_inv_def linked_def pending_delta_def Let_def)
  qed
  then show "buffer_inv u m'" "linked H u m'" "m_attr m' = m_attr m"
    "m_checkpoint m' = m_checkpoint m" "m_push_buffer m' = m_push_buffer m" by simp_all
qed

lemma commit_keeps:
  assumes inv: "buffer_inv u m" "linked H u m" and p: "pending (m_tx_record m) = Some tx"
    and enq: "enqueue (m_push_buffer m) (set_tag tx tag) = (b, Ok ())"
    and m': "m' = m\<lparr>m_tx_record := (m_tx_record m)\<lparr>pending := None\<rparr>, m_push_buffer := b\<rparr>"
  shows "buffer_inv u m'" "linked H u m'" "pb_transaction b = pb_transaction (m_push_buffer m) @ [set_tag tx tag]"
proof -
  let ?B = "pb_transaction (m_push_buffer m)"
  show b: "pb_transaction b = ?B @ [set_tag tx tag]" using enq by (simp add: enqueue_Ok_iff)
  from inv(1) p have tx: "tx_cseq tx = of_nat (Suc (length ?B))" "length ?B + 3 < 2 ^ 64" "tx_cuid tx = u"
      "list_all counter_op (tx_operations tx)" and pb: "pb_inv (m_push_buffer m)"
    by (simp_all add: buffer_inv_def Let_def)
  have "unat (tx_cseq tx) = Suc (length ?B)" unfolding tx(1) using tx(2) by (intro unat_of_nat_u64) simp
  then have "tx_cseq tx \<noteq> 0" by auto
  then have pb': "pb_inv b" using pb_inv_enqueue [OF pb _ enq] by (simp add: set_tag_def)
  have "pb_first_cseq b = 1"
    using enq inv(1) tx(1) pb by (cases "?B = []") (auto simp: enqueue_Ok_iff buffer_inv_def pb_inv_def set_tag_def Let_def)
  with inv(1) p tx pb' b show "buffer_inv u m'"
    by (simp add: m' buffer_inv_def Let_def set_tag_def)
  have "unat (cp_cseq (m_checkpoint m)) \<le> length ?B" using inv(2) by (rule linked_acked)
  with inv(2) p show "linked H u m'"
    by (auto simp: m' b linked_def Let_def pending_delta_def set_tag_def)
qed

lemma end_keeps:
  assumes inv: "buffer_inv u m" "linked H u m" and e: "m' = end_or_rollback m tag committed"
  shows "buffer_inv u m' \<and> linked H u m' \<and> m_attr m' = m_attr m \<and> m_checkpoint m' = m_checkpoint m \<and>
    (\<exists>ts. pb_transaction (m_push_buffer m') = pb_transaction (m_push_buffer m) @ ts)"
proof -
  have same: ?thesis if "m' = m" using inv that by simp
  have undone: ?thesis if "m' = fst (do_rollback m)" using rollback_keeps [OF inv that] by simp
  show ?thesis
  proof (cases "committed \<and> pending (m_tx_record m) \<noteq> None")
    case False
    have "(case panic_or r (Ok False) of Err e \<Rightarrow> f e | _ \<Rightarrow> s) = s"
      for r :: "(unit, DatatypeError) result" and f :: "DatatypeErrorWithAction \<Rightarrow> MutableDatatype" and s
      by (cases r) simp_all
    with False same undone e show ?thesis
      by (auto simp: end_or_rollback_def end_transaction_def Let_def case_prod_beta split: option.splits)
  next
    case True
    then obtain tx where p: "pending (m_tx_record m) = Some tx" and committed by auto
    have cuid: "tx_cuid tx = oid_cuid (m_op_id m)" using inv(1) p by (simp add: buffer_inv_def Let_def)
    show ?thesis
    proof (cases "m_push_buffer m" "set_tag tx tag" rule: enqueue_cases)
      case (ok b)
      have "m' = m\<lparr>m_tx_record := (m_tx_record m)\<lparr>pending := None\<rparr>, m_push_buffer := b\<rparr>"
        using e \<open>committed\<close> end_transaction_commit [OF p cuid ok] by (simp add: end_or_rollback_def)
      with commit_keeps [OF inv p ok this] show ?thesis by simp
    next
      case (failed er)
      let ?m = "m\<lparr>m_tx_record := (m_tx_record m)\<lparr>pending := Some (set_tag tx tag)\<rparr>\<rparr>"
      have r: "m' = fst (do_rollback ?m)"
        using e \<open>committed\<close> end_transaction_commit [OF p cuid failed(1)] by (simp add: end_or_rollback_def)
      have i: "buffer_inv u ?m" "linked H u ?m"
        using inv p by (simp_all add: buffer_inv_def linked_def Let_def set_tag_def pending_delta_def)
      note k = rollback_keeps [OF i r]
      have "pb_transaction (m_push_buffer m') = pb_transaction (m_push_buffer m) @ []" by (simp add: k(5))
      moreover have "m_attr m' = m_attr m" "m_checkpoint m' = m_checkpoint m" by (simp_all add: k(3,4))
      ultimately show ?thesis using k(1,2) by blast
    qed
  qed
qed

lemma buffer_inv_cong:
  assumes "m_push_buffer m' = m_push_buffer m" "m_tx_record m' = m_tx_record m" "get_cuid (m_attr m') = get_cuid (m_attr m)"
    "oid_cseq (m_op_id m') = oid_cseq (m_op_id m)" "oid_cuid (m_op_id m') = oid_cuid (m_op_id m)"
  shows "buffer_inv u m' = buffer_inv u m"
  using assms by (simp add: buffer_inv_def Let_def split: option.splits)

lemma linked_cong:
  assumes "m_push_buffer m' = m_push_buffer m" "m_tx_record m' = m_tx_record m" "m_checkpoint m' = m_checkpoint m"
    "m_crdt m' = m_crdt m"
  shows "linked H u m' = linked H u m"
  using assms by (simp add: linked_def pending_delta_def Let_def)

subsection \<open>The server\<close>

lemma order_inv_cong:
  assumes "ls_history s' = ls_history s" and "ls_sseq s' = ls_sseq s" and "ls_cseq_map s' = ls_cseq_map s"
  shows "order_inv s' = order_inv s"
  using assms by (simp add: order_inv_def client_checkpoint_def)

lemma numbering_append:
  assumes "map tx_sseq H = map (\<lambda>i. of_nat (Suc i)) [0..<length H]"
  shows "map tx_sseq (H @ sequenced (of_nat (length H)) ts) =
    map (\<lambda>i. of_nat (Suc i)) [0..<length (H @ sequenced (of_nat (length H)) ts)]"
proof -
  have "map f [0..<n + k] = map f [0..<n] @ map (\<lambda>i. f (n + i)) [0..<k]" for f :: "nat \<Rightarrow> u64" and n k
    by (rule nth_equalityI) (auto simp: nth_append)
  with assms show ?thesis by (simp add: sequenced_sseq algebra_simps)
qed

lemma consec_take: "consec c ts \<Longrightarrow> consec c (take k ts)"
  by (metis append_take_drop_id consec_append)

lemma asked_consec:
  assumes b: "buffer_inv u m" and p: "asked_ok m p"
  shows "consec (of_nat (Suc (unat (cp_cseq (m_checkpoint m))))) (ppp_transactions p)"
proof -
  let ?C = "unat (cp_cseq (m_checkpoint m))" and ?B = "pb_transaction (m_push_buffer m)"
  obtain k where k: "k \<le> length ?B - ?C" "ppp_transactions p = take k (drop ?C ?B)"
    using p by (auto simp: asked_ok_def)
  show ?thesis
  proof (cases "drop ?C ?B = []")
    case False
    then have "?C \<le> length ?B" "?B \<noteq> []" by auto
    with b have "consec 1 ?B" by (auto simp: buffer_inv_def pb_inv_def Let_def)
    then have "consec (1 + of_nat (length (take ?C ?B))) (drop ?C ?B)"
      using consec_append [of 1 "take ?C ?B" "drop ?C ?B"] by simp
    with \<open>?C \<le> length ?B\<close> show ?thesis by (simp add: k(2) consec_take min_absorb2)
  qed (simp add: k)
qed

text \<open>
  A push of what a replica has not got acknowledged extends the order by the part of it the server has
  not got yet, whatever part of it arrived before.
\<close>

lemma push_extends:
  assumes ord: "order_inv s" and b: "buffer_inv u m" "linked (ls_history s) u m" and p: "asked_ok m p" "u = get_cuid (m_attr m)"
    and len: "length (ls_history s) + length (ppp_transactions p) < 2 ^ 64"
    and push: "push_transactions s p = (s', cseq, any)"
  shows "\<exists>ts. ls_history s' = ls_history s @ ts \<and> (\<forall>t \<in> set ts. tx_cuid t = u)"
    and "order_inv s'" and "linked (ls_history s') u m" and "cseq = of_nat (length (own u (ls_history s')))"
    and "length (own u (ls_history s')) = max (length (own u (ls_history s)))
           (unat (cp_cseq (m_checkpoint m)) + length (ppp_transactions p))"
proof -
  define H where "H = ls_history s"
  define C where "C = unat (cp_cseq (m_checkpoint m))"
  define Q where "Q = length (own u H)"
  let ?B = "pb_transaction (m_push_buffer m)"
  have cuid: "ppp_cuid p = u" using p by (simp add: asked_ok_def)
  obtain k where k: "k \<le> length ?B - C" "ppp_transactions p = take k (drop C ?B)"
    using p(1) by (auto simp: asked_ok_def C_def)
  then have lenp: "length (ppp_transactions p) = k" by simp
  have l: "unat (cp_sseq (m_checkpoint m)) \<le> length H" "C = length (own u (take (unat (cp_sseq (m_checkpoint m))) H))"
      "Q \<le> length ?B" "map tx_operations (own u H) = map tx_operations (take Q ?B)"
      "crdt_value (m_crdt m) = txs_delta (take (unat (cp_sseq (m_checkpoint m))) H) + txs_delta (drop C ?B) + pending_delta m"
    using b(2) by (simp_all add: linked_def Let_def H_def C_def Q_def)
  have CQ: "C \<le> Q" "C \<le> length ?B" using own_take_le [of u _ H] l(2,3) by (auto simp: Q_def intro: order_trans)
  have big: "length ?B + 2 < 2 ^ 64" "counter_txs ?B" "\<forall>t \<in> set ?B. tx_cuid t = u" using b(1) by (simp_all add: buffer_inv_def Let_def)
  have o: "ls_sseq s = of_nat (length H)" "cp_cseq (client_checkpoint s v) = of_nat (length (own v H))"
      "map tx_sseq H = map (\<lambda>i. of_nat (Suc i)) [0..<length H]" "counter_txs H" for v
    using ord by (simp_all add: order_inv_def Let_def H_def)
  have fresh: "fresh_txs (of_nat Q) (ppp_transactions p) = drop (Q - C) (ppp_transactions p)"
    and top: "max_cseq (of_nat Q) (ppp_transactions p) = of_nat (max Q (C + k))"
    using fresh_consec [OF asked_consec [OF b(1) p(1), folded C_def], of Q] CQ l(3) big(1) k lenp by simp_all
  define ts where "ts = sequenced (of_nat (length H)) (drop (Q - C) (ppp_transactions p))"
  have e: "push_transactions s p = (s\<lparr>ls_sseq := of_nat (length H) + of_nat (length ts), ls_history := H @ ts,
      ls_cseq_map := hm_insert u \<lparr>cp_sseq = of_nat (length H) + of_nat (length ts), cp_cseq = of_nat (max Q (C + k))\<rparr>
        (ls_cseq_map s)\<rparr>, of_nat (max Q (C + k)), ts \<noteq> [])"
    unfolding push_transactions_eq cuid o(1,2) Q_def [symmetric] fresh top Let_def by (simp add: ts_def H_def)
  have s': "ls_history s' = H @ ts" "ls_sseq s' = of_nat (length H) + of_nat (length ts)" "cseq = of_nat (max Q (C + k))"
      "cp_cseq (client_checkpoint s' v) = (if v = u then of_nat (max Q (C + k)) else cp_cseq (client_checkpoint s v))" for v
    using push unfolding e by (auto simp: client_checkpoint_def simp del: of_nat_max)
  have mine: "\<forall>t \<in> set (drop (Q - C) (ppp_transactions p)). tx_cuid t = u"
    using big(3) k(2) by (auto dest!: in_set_dropD in_set_takeD)
  have owns: "own v ts = (if v = u then ts else [])" for v unfolding ts_def by (rule own_sequenced [OF mine])
  have "\<forall>t \<in> set ts. tx_cuid t = u" using mine unfolding ts_def by (auto dest!: in_sequenced)
  with s'(1) show "\<exists>ts. ls_history s' = ls_history s @ ts \<and> (\<forall>t \<in> set ts. tx_cuid t = u)" unfolding H_def by blast
  have n: "Q + length ts = max Q (C + k)" using CQ by (simp add: ts_def lenp)
  have own': "length (own u (H @ ts)) = max Q (C + k)" using n by (simp add: owns Q_def)
  then show "cseq = of_nat (length (own u (ls_history s')))" by (simp only: s')
  show "length (own u (ls_history s')) = max (length (own u (ls_history s))) (unat (cp_cseq (m_checkpoint m)) + length (ppp_transactions p))"
    using own' by (simp only: s' H_def [symmetric] Q_def [symmetric] C_def [symmetric] lenp)
  have "counter_txs ts"
    using big(2) unfolding ts_def k(2) by (auto simp: counter_txs_def list_all_iff dest!: in_sequenced in_set_dropD in_set_takeD)
  moreover have "length (H @ ts) < 2 ^ 64" using len by (simp add: ts_def H_def)
  moreover have "map tx_sseq (H @ ts) = map (\<lambda>i. of_nat (Suc i)) [0..<length (H @ ts)]"
    unfolding ts_def by (rule numbering_append [OF o(3)])
  moreover have "cp_cseq (client_checkpoint s' v) = of_nat (length (own v (H @ ts)))" for v
    using own' by (cases "v = u") (simp_all add: s'(4) o(2) owns del: of_nat_max)
  ultimately show "order_inv s'"
    unfolding order_inv_def s'(1,2) Let_def using o(4) by simp
  have "map tx_operations ts = map tx_operations (take (k - (Q - C)) (drop Q ?B))"
    using CQ by (simp add: ts_def k(2) drop_take add.commute)
  then have "map tx_operations (own u (H @ ts)) = map tx_operations (take (Q + (k - (Q - C))) ?B)"
    by (simp add: owns l(4) take_add)
  moreover have "Q + (k - (Q - C)) = length (own u (H @ ts))" unfolding own' using CQ by linarith
  moreover have "length (own u (H @ ts)) \<le> length ?B" unfolding own' using l(3) k(1) CQ by linarith
  ultimately show "linked (ls_history s') u m"
    using l by (simp add: linked_def s' Let_def C_def [symmetric])
qed

text \<open>What serving one request of a replica \<open>m\<close> of client \<open>u\<close> keeps.\<close>

definition served_ok :: "LocalDatatypeServer \<Rightarrow> LocalDatatypeServer \<Rightarrow> Cuid \<Rightarrow> MutableDatatype \<Rightarrow> PushPullPack \<Rightarrow> bool" where
  "served_ok s s' u m q =
     ((\<exists>ts. ls_history s' = ls_history s @ ts \<and> (\<forall>t \<in> set ts. tx_cuid t = u)) \<and>
      order_inv s' \<and> linked (ls_history s') u m \<and> response_ok (ls_history s') u m q)"

lemma served_error:
  assumes "order_inv s" "linked (ls_history s) u m" "s' = s" "ppp_error q \<noteq> None"
    "ppp_state q = m_state m \<and> m_state m \<noteq> Subscribed \<and> m_state m \<noteq> Unsubscribing \<or> ppp_state q = Disabled"
  shows "served_ok s s' u m q"
  using assms by (auto simp: served_ok_def response_ok_def parting_ok_def answered_ok_def)

lemma order_numbers:
  assumes "order_inv s"
  shows "unat (ls_sseq s) = length (ls_history s)" "length (own u (ls_history s)) < 2 ^ 64"
    "unat (of_nat (length (own u (ls_history s))) :: u64) = length (own u (ls_history s))"
proof -
  have n: "ls_sseq s = of_nat (length (ls_history s))" "length (ls_history s) < 2 ^ 64"
    using assms by (simp_all add: order_inv_def Let_def)
  then show "unat (ls_sseq s) = length (ls_history s)" by (simp add: unat_of_nat_u64)
  have "length (own u (ls_history s)) \<le> length (ls_history s)" by (simp add: own_def)
  with n(2) show "length (own u (ls_history s)) < 2 ^ 64" by linarith
  then show "unat (of_nat (length (own u (ls_history s))) :: u64) = length (own u (ls_history s))"
    by (rule unat_of_nat_u64)
qed

lemma creating_serves:
  assumes ord: "order_inv s" and b: "buffer_inv u m" "linked (ls_history s) u m" and p: "asked_ok m p" "u = get_cuid (m_attr m)"
    and len: "length (ls_history s) + length (ppp_transactions p) < 2 ^ 64" and ok: "creation_ok s p"
    and st: "m_state m = Creating \<or> m_state m = SubscribingOrCreating" "cp_sseq (m_checkpoint m) = 0"
    and e: "process_creating s p = (s', Ok q)"
  shows "served_ok s s' u m q"
proof (cases "ls_created s \<and> ls_duid s \<noteq> ppp_duid p \<or> ppp_is_readonly p")
  case True
  with e have "s' = s" "ppp_error q \<noteq> None" "ppp_state q = Disabled"
    by (auto simp: process_creating_def refuse_def get_pulled_stub_def Let_def split: if_splits)
  with ord b show ?thesis by (intro served_error) simp_all
next
  case False
  let ?s = "s\<lparr>ls_created := True, ls_creator := ppp_cuid p, ls_duid := ppp_duid p\<rparr>"
  obtain cseq any where push: "push_transactions ?s p = (s', cseq, any)"
    and q: "q = (get_pulled_stub p)\<lparr>ppp_checkpoint := CheckPoint_default\<lparr>cp_sseq := ls_sseq s', cp_cseq := cseq\<rparr>, ppp_state := Subscribed\<rparr>"
    using e False by (auto simp: process_creating_def get_pulled_stub_def Let_def split: prod.splits)
  have ord': "order_inv ?s" using ord order_inv_cong [of ?s s] by simp
  note ext = push_extends [OF ord' b(1) _ p _ push]
  have l: "linked (ls_history ?s) u m" "length (ls_history ?s) + length (ppp_transactions p) < 2 ^ 64" using b len by simp_all
  note h = ext [OF l]
  obtain ts where ts: "ls_history s' = ls_history s @ ts" "\<forall>t \<in> set ts. tx_cuid t = u" using h(1) by auto
  note num = order_numbers [OF h(2)]
  have "own u (ls_history s) = ls_history s" using ok p by (simp add: creation_ok_def asked_ok_def)
  then have "\<forall>t \<in> set (ls_history s). tx_cuid t = u" by (simp add: own_def filter_id_conv)
  with ts have none: "filter (\<lambda>t. tx_cuid t \<noteq> u) (ls_history s') = []" by (auto simp: filter_empty_conv)
  have duid: "ppp_duid q = get_duid (m_attr m)" using p by (simp add: q get_pulled_stub_def asked_ok_def)
  have "answered_ok (ls_history s') u m q"
    using st duid num none h(4)
    by (auto simp: answered_ok_def no_snapshot_def q get_pulled_stub_def Let_def)
  with ts h st show ?thesis by (auto simp: served_ok_def response_ok_def)
qed

lemma subscribed_serves:
  assumes ord: "order_inv s" and b: "buffer_inv u m" "linked (ls_history s) u m" and p: "asked_ok m p" "u = get_cuid (m_attr m)"
    and len: "length (ls_history s) + length (ppp_transactions p) < 2 ^ 64" and st: "m_state m = Subscribed"
    and e: "process_subscribed s p rt = (s', Ok q)"
  shows "served_ok s s' u m q"
proof (cases "ppp_error q")
  case (Some er)
  with e have "s' = s" "ppp_state q = Disabled"
    by (auto simp: process_subscribed_def process_client_push_def refuse_def get_pulled_stub_def pull_transactions_def Let_def
        split: if_splits prod.splits)
  with ord b Some show ?thesis by (intro served_error) simp_all
next
  case None
  obtain s1 cseq any where push: "push_transactions s p = (s1, cseq, any)" by (metis prod.collapse)
  let ?q = "(get_pulled_stub p)\<lparr>ppp_checkpoint := CheckPoint_default\<lparr>cp_sseq := cp_sseq (ppp_checkpoint p), cp_cseq := cseq\<rparr>\<rparr>"
  have q: "q = (pull_transactions s1 ?q)\<lparr>ppp_state := Subscribed\<rparr>" and s': "s' = s1 \<or> s' = notify_pushed s1 (ppp_cuid p)"
    using e None push
    by (auto simp: process_subscribed_def process_client_push_def refuse_def get_pulled_stub_def Let_def split: if_splits prod.splits)
  note h = push_extends [OF ord b p len push]
  have same: "ls_history s' = ls_history s1" "order_inv s' = order_inv s1" using s' order_inv_cong [of s' s1] by auto
  have num: "map tx_sseq (ls_history s1) = map (\<lambda>i. of_nat (Suc i)) [0..<length (ls_history s1)]" "length (ls_history s1) < 2 ^ 64"
      "counter_txs (ls_history s1)" using h(2) by (simp_all add: order_inv_def Let_def)
  have pulled: "filter (\<lambda>t. cp_sseq (m_checkpoint m) < tx_sseq t \<and> tx_cuid t \<noteq> u) (ls_history s1) =
      filter (\<lambda>t. tx_cuid t \<noteq> u) (drop (unat (cp_sseq (m_checkpoint m))) (ls_history s1))" by (rule sseq_drop [OF num(1,2)])
  have pu: "ppp_cuid p = u" "cp_sseq (ppp_checkpoint p) = cp_sseq (m_checkpoint m)" using p by (simp_all add: asked_ok_def)
  have q': "ppp_error q = None" "ppp_state q = Subscribed" "cp_sseq (ppp_checkpoint q) = ls_sseq s1" "cp_cseq (ppp_checkpoint q) = cseq"
      "ppp_transactions q = filter (\<lambda>t. tx_cuid t \<noteq> u) (drop (unat (cp_sseq (m_checkpoint m))) (ls_history s1))"
    unfolding q pulled [symmetric] by (simp_all add: pull_transactions_def get_pulled_stub_def pu)
  have "unat (cp_sseq (m_checkpoint m)) \<le> length (ls_history s1)" using h(3) by (simp add: linked_def Let_def)
  then have "answered_ok (ls_history s1) u m q"
    using st q' order_numbers [OF h(2)] h(4) num(3) by (simp add: answered_ok_def no_snapshot_def Let_def)
  with h(1-3) st show ?thesis by (simp add: served_ok_def response_ok_def same)
qed

lemma unsubscribing_serves:
  assumes ord: "order_inv s" and b: "buffer_inv u m" "linked (ls_history s) u m" and p: "asked_ok m p" "u = get_cuid (m_attr m)"
    and len: "length (ls_history s) + length (ppp_transactions p) < 2 ^ 64" and st: "m_state m = Unsubscribing"
    and e: "process_unsubscribing x s p rt = (s', Ok q)"
  shows "served_ok s s' u m q"
proof (cases "hm_contains (ls_wired_map s) (ppp_cuid p)")
  case False
  with e have "s' = s" "parting_ok q" by (auto simp: process_unsubscribing_def parting_ok_def get_pulled_stub_def)
  with ord b st show ?thesis by (simp add: served_ok_def response_ok_def)
next
  case True
  obtain s1 where push: "process_client_push s p Disabled rt = (s1, q)" and s': "ls_history s' = ls_history s1" "order_inv s' = order_inv s1"
    using e True order_inv_cong [of s'] by (auto simp: process_unsubscribing_def Let_def split: prod.splits option.splits if_splits)
  show ?thesis
  proof (cases "ppp_error q")
    case (Some er)
    with push have "s1 = s" "ppp_state q = Disabled"
      by (auto simp: process_client_push_def refuse_def get_pulled_stub_def pull_transactions_def Let_def split: if_splits prod.splits)
    with ord b st Some s' show ?thesis by (simp add: served_ok_def response_ok_def parting_ok_def)
  next
    case None
    obtain s2 cseq any where push2: "push_transactions s p = (s2, cseq, any)" by (metis prod.collapse)
    note h = push_extends [OF ord b p len push2]
    from push None push2 have s1: "s1 = s2 \<or> s1 = notify_pushed s2 (ppp_cuid p)" and q: "ppp_state q = Disabled"
        "ppp_transactions q = filter (\<lambda>t. cp_sseq (ppp_checkpoint p) < tx_sseq t \<and> tx_cuid t \<noteq> ppp_cuid p) (ls_history s2)"
      by (auto simp: process_client_push_def refuse_def get_pulled_stub_def pull_transactions_def Let_def split: if_splits)
    have same: "ls_history s1 = ls_history s2" "order_inv s1 = order_inv s2" using s1 order_inv_cong [of s1 s2] by auto
    have "counter_txs (ls_history s2)" "length (ls_history s2) < 2 ^ 64" using h(2) by (simp_all add: order_inv_def Let_def)
    then have "parting_ok q"
      using None q le_less_trans [OF length_filter_le] by (auto simp: parting_ok_def counter_txs_def list_all_iff)
    with h(1-3) st show ?thesis by (simp add: served_ok_def response_ok_def s' same)
  qed
qed

text \<open>An answer to a request that was made before the call of unsubscribe.\<close>

lemma overtaken_serves:
  assumes ord: "order_inv s" and b: "buffer_inv u m" "linked (ls_history s) u m" and p: "asked_ok m p" "u = get_cuid (m_attr m)"
    and len: "length (ls_history s) + length (ppp_transactions p) < 2 ^ 64" and st: "m_state m = Unsubscribing" "ppp_state p = Subscribed"
    and e: "process_subscribed s p rt = (s', Ok q)"
  shows "served_ok s s' u m q"
proof -
  let ?m = "m\<lparr>m_state := Subscribed\<rparr>"
  have "buffer_inv u ?m" "linked (ls_history s) u ?m" using b buffer_inv_cong [of ?m m] linked_cong [of ?m m] by simp_all
  moreover have "asked_ok ?m p" using p st by (simp add: asked_ok_def)
  ultimately have sv: "served_ok s s' u ?m q" using subscribed_serves [OF ord, of u ?m p rt s' q] p(2) len e by simp
  then have "parting_ok q" by (auto simp: served_ok_def response_ok_def answered_ok_def parting_ok_def Let_def split: if_splits)
  moreover have "linked (ls_history s') u m" using sv linked_cong [of ?m m] by (simp add: served_ok_def)
  ultimately show ?thesis using sv st by (simp add: served_ok_def response_ok_def)
qed

lemma snapshot_of_quiescent:
  assumes "linked H v a" and "quiescent a"
  shows "crdt_value (m_crdt a) = txs_delta (take (unat (cp_sseq (m_checkpoint a))) H)"
  using assms by (simp add: linked_def quiescent_def pending_delta_def Let_def)

lemma subscribing_serves:
  assumes ord: "order_inv s" and l: "linked (ls_history s) u m" and p: "asked_ok m p" "u = get_cuid (m_attr m)"
    and new: "own u (ls_history s) = []" and duid: "ppp_duid p \<noteq> ls_duid s"
    and st: "m_state m = Subscribing \<or> m_state m = SubscribingOrCreating" "cp_sseq (m_checkpoint m) = 0"
    and creator: "\<And>a. get_creator_wired_datatype s = Some a \<Longrightarrow>
        quiescent (wd_mutable (h a)) \<and> (\<exists>v. linked (ls_history s) v (wd_mutable (h a)))"
    and e: "process_subscribing now h s p = (s', Ok q)"
  shows "served_ok s s' u m q"
proof (cases "ppp_error q")
  case (Some er)
  have "ppp_state p = m_state m" using p(1) st(1) by (auto simp: asked_ok_def)
  with Some e have "s' = s" "ppp_state q = Disabled \<or> ppp_state q = m_state m"
    by (auto simp: process_subscribing_def refuse_def get_pulled_stub_def pull_transactions_def Let_def
        split: if_splits option.splits)
  with ord l Some st show ?thesis by (intro served_error) auto
next
  case None
  then obtain a where a: "get_creator_wired_datatype s = Some a" using e
    by (auto simp: process_subscribing_def refuse_def Let_def split: if_splits option.splits)
  let ?a = "wd_mutable (h a)" and ?H = "ls_history s"
  have pu: "ppp_cuid p = u" "ppp_duid p = get_duid (m_attr m)" using p by (simp_all add: asked_ok_def)
  obtain v where v: "linked ?H v ?a" and quiet: "quiescent ?a" using creator [OF a] by auto
  have num: "map tx_sseq ?H = map (\<lambda>i. of_nat (Suc i)) [0..<length ?H]" "length ?H < 2 ^ 64" "counter_txs ?H"
    using ord by (simp_all add: order_inv_def Let_def)
  have others: "filter (\<lambda>t. tx_cuid t \<noteq> u) (drop n ?H) = drop n ?H" for n
    using new by (auto simp: own_def filter_empty_conv filter_id_conv dest: in_set_dropD)
  have q: "s' = s" "ppp_state q = Subscribed" "ppp_duid q = ls_duid s" "cp_sseq (ppp_checkpoint q) = ls_sseq s"
      "cp_cseq (ppp_checkpoint q) = 0" "ppp_snapshot_transaction q = Some (get_subscribe_snapshot now (h a))"
      "ppp_transactions q = filter (\<lambda>t. cp_sseq (m_checkpoint ?a) < tx_sseq t \<and> tx_cuid t \<noteq> u) ?H"
    using e a None pu
    by (auto simp: process_subscribing_def refuse_def get_pulled_stub_def pull_transactions_def get_subscribe_snapshot_def Let_def
        split: if_splits)
  have txs: "ppp_transactions q = drop (unat (cp_sseq (m_checkpoint ?a))) ?H"
    by (simp add: q(7) sseq_drop [OF num(1,2)] others)
  have total: "crdt_value (m_crdt ?a) + txs_delta (ppp_transactions q) = txs_delta ?H"
    using snapshot_of_quiescent [OF v quiet] txs_delta_cut [of ?H "unat (cp_sseq (m_checkpoint ?a))"] by (simp add: txs)
  have ops: "tx_operations (get_subscribe_snapshot now (h a)) = [new_snapshot_operation now ?a]"
    by (simp add: get_subscribe_snapshot_def push_operation_def Transaction_new_with_cuid_def)
  have "\<not> no_snapshot m q" using st duid pu q by (auto simp: no_snapshot_def)
  then have "answered_ok ?H u m q"
    using None q(2,4-6) order_numbers(1) [OF ord] new st(2) num(3) total ops txs
    by (auto simp: answered_ok_def Let_def)
  with ord l q(1) st show ?thesis by (auto simp: served_ok_def response_ok_def)
qed

subsection \<open>Every step keeps the invariant\<close>

lemma replica_inv_frame:
  assumes "replica_inv H m f" and "own (get_cuid (m_attr m)) ts = []"
  shows "replica_inv (H @ ts) m f"
  using assms linked_append answered_append
  by (cases f) (auto simp: replica_inv_def flight_ok_def response_ok_def)


lemma pull_error_recovered:
  assumes "ppp_error q = Some e"
  shows "pull_and_recover q m = set_state m (ppp_state q) \<or>
    pull_and_recover q m = mutable_disable (set_state m (ppp_state q))"
  using apply_pull_error [OF assms, of m] by (cases e) (simp_all add: pull_and_recover_def)

lemma set_state_keeps [simp]:
  "buffer_inv u (set_state m st) = buffer_inv u m" "linked H u (set_state m st) = linked H u m"
  by (rule buffer_inv_cong linked_cong; simp)+

lemma buffer_inv_subscribed:
  assumes "buffer_inv u m"
  shows "buffer_inv u (pulled_into q (subscribed_from q op c m))"
  using assms
  by (simp add: buffer_inv_def subscribed_from_def TxRecord_new_def MemoryPushBuffer_new_def pb_inv_def
      get_cuid_def set_duid_def Let_def)

lemma answered_accepted:
  assumes "answered_ok H u m q" "ppp_error q = None" "length H < 2 ^ 64"
    and "m_state m = Creating \<or> m_state m = Subscribing \<or> m_state m = SubscribingOrCreating \<or> m_state m = Subscribed"
  shows "accepted m q" "expected_state (m_state m) = Subscribed"
proof -
  have "length (filter P (drop n (take k H))) \<le> length H" for P n k
    using length_filter_le [of P "drop n (take k H)"] by simp
  then have "length (ppp_transactions q) \<le> length H"
    using assms(1,2) by (auto simp: answered_ok_def Let_def split: if_splits)
  with assms show "accepted m q" "expected_state (m_state m) = Subscribed"
    by (auto simp: accepted_def answered_ok_def syncable_def Let_def)
qed

lemma pull_parting:
  assumes q: "parting_ok q" and st: "m_state m = Unsubscribing"
  shows "m_state (pull_and_recover q m) = Disabled \<and> get_cuid (m_attr (pull_and_recover q m)) = get_cuid (m_attr m)"
proof (cases "ppp_error q")
  case (Some e)
  with q pull_error_recovered [OF Some, of m] show ?thesis by (auto simp: parting_ok_def mutable_disable_def)
next
  case None
  show ?thesis
  proof (cases "ppp_state q = Disabled")
    case True
    with None q st have "accepted m q" "no_snapshot m q" by (simp_all add: parting_ok_def accepted_def no_snapshot_def syncable_def)
    from apply_pull_accepted [OF this] st show ?thesis by (simp add: pull_and_recover_def)
  next
    case False
    with None st apply_pull_illegal [of m q] show ?thesis
      by (simp add: pull_and_recover_def syncable_def process_illegal_state_response_def mutable_disable_def)
  qed
qed

lemma replica_inv_pull:
  assumes inv: "replica_inv H m (Answered q)" and live: "m_state m \<noteq> Disabled" and len: "length H < 2 ^ 64"
  shows "replica_inv H (pull_and_recover q m) Idle \<and> get_cuid (m_attr (pull_and_recover q m)) = get_cuid (m_attr m)"
proof (cases "m_state m = Unsubscribing")
  case True
  with inv have "parting_ok q" by (simp add: replica_inv_def flight_ok_def response_ok_def)
  with pull_parting [OF this True] show ?thesis by (simp add: replica_inv_def)
next
  case False
  let ?u = "get_cuid (m_attr m)"
  have b: "buffer_inv ?u m" and l: "linked H ?u m" and a: "answered_ok H ?u m q"
    using inv live False by (simp_all add: replica_inv_def flight_ok_def response_ok_def)
  have st: "m_state m = Creating \<or> m_state m = Subscribing \<or> m_state m = SubscribingOrCreating \<or> m_state m = Subscribed"
    using inv live False by (cases "m_state m") (simp_all add: replica_inv_def)
  have settle: ?thesis if m': "pull_and_recover q m = set_state m' Subscribed" and "get_cuid (m_attr m') = ?u"
      "buffer_inv ?u m'" "linked H ?u m'" for m'
    using that by (simp add: replica_inv_def flight_ok_def)
  show ?thesis
  proof (cases "ppp_error q")
    case (Some e)
    with a have "ppp_state q = m_state m \<or> ppp_state q = Disabled" by (auto simp: answered_ok_def)
    with pull_error_recovered [OF Some, of m] inv live show ?thesis
      by (auto simp: replica_inv_def mutable_disable_def flight_ok_def)
  next
    case None
    note acc = answered_accepted [OF a None len st]
    show ?thesis
    proof (cases "no_snapshot m q")
      case True
      have "pull_and_recover q m = set_state (pulled_into q m) Subscribed"
        by (simp add: pull_and_recover_def apply_pull_accepted [OF acc(1) True] acc(2))
      moreover have "buffer_inv ?u (pulled_into q m)" using b buffer_inv_cong [of "pulled_into q m" m] by simp
      ultimately show ?thesis using settle linked_pulled [OF l a None True len] by simp
    next
      case False
      then obtain tx now src where tx: "ppp_snapshot_transaction q = Some tx" "tx_operations tx = [new_snapshot_operation now src]"
        using a None by (auto simp: answered_ok_def Let_def)
      obtain now' src' where src: "new_snapshot_operation now src = new_snapshot_operation now' src'"
          "linked H ?u (pulled_into q (subscribed_from q (new_snapshot_operation now src) (m_crdt src') m))"
        using linked_installed [OF l a None False tx] by auto
      have "pull_and_recover q m = set_state (pulled_into q (subscribed_from q (new_snapshot_operation now src) (m_crdt src') m)) Subscribed"
        using apply_pull_snapshot [OF acc(1) False tx(1) tx(2) [unfolded src(1)] snapshot_op_simps(1)] src(1)
        by (simp add: pull_and_recover_def)
      moreover have "get_cuid (m_attr (subscribed_from q op c m)) = ?u" for op c
        by (simp add: subscribed_from_def get_cuid_def set_duid_def Let_def)
      ultimately show ?thesis using src(2) b by (intro settle) (simp_all add: buffer_inv_subscribed)
    qed
  qed
qed

lemma sys_inv_replica:
  assumes "sys_inv R s" "R i" "replica_inv (ls_history (sy_server s)) m f" "get_cuid (m_attr m) = get_cuid (m_attr (sy_rep s i))"
  shows "sys_inv R (set_flight (set_rep s i m) i f)"
proof -
  let ?s = "set_flight (set_rep s i m) i f"
  have eq: "get_cuid (m_attr (sy_rep ?s j)) = get_cuid (m_attr (sy_rep s j))" "sy_server ?s = sy_server s" for j
    using assms(4) by (simp_all add: set_flight_def set_rep_def)
  have "replica_inv (ls_history (sy_server s)) (sy_rep ?s j) (sy_flight ?s j)" if "R j" for j
    using assms that by (cases "j = i") (simp_all add: sys_inv_def set_flight_def set_rep_def)
  with assms(1) show ?thesis unfolding sys_inv_def eq by blast
qed

lemma set_flight_id: "set_flight s i (sy_flight s i) = s" "set_rep s i (sy_rep s i) = s"
  by (simp_all add: set_flight_def set_rep_def)

lemma set_rep_flight: "sy_flight s i = f \<Longrightarrow> set_rep s i m = set_flight (set_rep s i m) i f"
  by (auto simp: set_flight_def set_rep_def)

lemma sys_inv_served:
  assumes inv: "sys_inv R s" and i: "R i" and live: "m_state (sy_rep s i) \<noteq> Disabled"
    and sv: "served_ok (sy_server s) srv (get_cuid (m_attr (sy_rep s i))) (sy_rep s i) q"
  shows "sys_inv R (set_flight (s\<lparr>sy_server := srv\<rparr>) i (Answered q))"
proof -
  let ?H = "ls_history (sy_server s)" and ?u = "get_cuid (m_attr (sy_rep s i))"
  obtain ts where ts: "ls_history srv = ?H @ ts" "\<forall>t \<in> set ts. tx_cuid t = ?u" using sv by (auto simp: served_ok_def)
  have "replica_inv (ls_history srv) (sy_rep s j) (if j = i then Answered q else sy_flight s j)" if j: "R j" for j
  proof (cases "j = i")
    case True
    with inv i sv live show ?thesis by (auto simp: sys_inv_def replica_inv_def served_ok_def flight_ok_def)
  next
    case False
    with inv i j have "get_cuid (m_attr (sy_rep s j)) \<noteq> ?u" by (auto simp: sys_inv_def)
    with ts(2) have "own (get_cuid (m_attr (sy_rep s j))) ts = []" by (auto simp: own_def filter_empty_conv)
    with inv j False show ?thesis by (simp add: ts(1) replica_inv_frame sys_inv_def)
  qed
  with inv sv show ?thesis by (simp add: sys_inv_def set_flight_def served_ok_def)
qed

lemma serve_served:
  assumes inv: "sys_inv R s" and i: "R i" and fl: "sy_flight s i = Asked p" and live: "m_state (sy_rep s i) \<noteq> Disabled"
    and ok: "serve_ok R s p" and e: "serve x now rt (sys_heap s) (sy_server s) p = (srv, Ok q)"
  shows "served_ok (sy_server s) srv (get_cuid (m_attr (sy_rep s i))) (sy_rep s i) q"
proof -
  let ?m = "sy_rep s i" and ?s = "sy_server s"
  let ?u = "get_cuid (m_attr ?m)"
  have rep: "replica_inv (ls_history ?s) ?m (Asked p)" and ord: "order_inv ?s"
    using inv i fl unfolding sys_inv_def by (metis, blast)
  then have b: "buffer_inv ?u ?m" "linked (ls_history ?s) ?u ?m" and p: "asked_ok ?m p"
    and z: "m_state ?m \<noteq> Subscribed \<Longrightarrow> m_state ?m \<noteq> Unsubscribing \<Longrightarrow> cp_sseq (m_checkpoint ?m) = 0"
    using live by (auto simp: replica_inv_def flight_ok_def)
  have st: "m_state ?m = Creating \<or> m_state ?m = Subscribing \<or> m_state ?m = SubscribingOrCreating \<or> m_state ?m = Subscribed \<or> m_state ?m = Unsubscribing"
    using rep live by (cases "m_state ?m") (simp_all add: replica_inv_def)
  have ps: "ppp_state p = m_state ?m \<or> m_state ?m = Unsubscribing \<and> ppp_state p = Subscribed" "ppp_cuid p = ?u"
    using p by (simp_all add: asked_ok_def)
  have len: "length (ls_history ?s) + length (ppp_transactions p) < 2 ^ 64" using ok by (simp add: serve_ok_def)
  have creator: "quiescent (wd_mutable (sys_heap s a)) \<and> (\<exists>v. linked (ls_history ?s) v (wd_mutable (sys_heap s a)))"
    if "subscription_ok R s p" "get_creator_wired_datatype ?s = Some a" for a
    using that inv by (auto simp: subscription_ok_def sys_heap_def WiredDatatype_new_def sys_inv_def replica_inv_def)
  have create: ?thesis if "process_creating ?s p = (srv, Ok q)" "creation_ok ?s p"
      "m_state ?m = Creating \<or> m_state ?m = SubscribingOrCreating"
    using creating_serves [OF ord b p refl len that(2,3) _ that(1)] z that(3) by auto
  have subscribe: ?thesis if "process_subscribing now (sys_heap s) ?s p = (srv, Ok q)" "subscription_ok R s p"
      "m_state ?m = Subscribing \<or> m_state ?m = SubscribingOrCreating"
    using subscribing_serves [OF ord b(2) p refl _ _ that(3) _ creator [OF that(2)] that(1)] z that(2,3) ps
    by (auto simp: subscription_ok_def)
  from st show ?thesis
  proof (elim disjE)
    assume "m_state ?m = Creating"
    with e ok ps create show ?thesis by (simp add: serve_def serve_ok_def)
  next
    assume "m_state ?m = Subscribing"
    with e ok ps subscribe show ?thesis by (simp add: serve_def serve_ok_def)
  next
    assume "m_state ?m = SubscribingOrCreating"
    with e ok ps subscribe create show ?thesis
      by (auto simp: serve_def serve_ok_def process_subscribing_or_creating_def split: if_splits)
  next
    assume "m_state ?m = Subscribed"
    with e ps subscribed_serves [OF ord b p refl len] show ?thesis by (simp add: serve_def)
  next
    assume "m_state ?m = Unsubscribing"
    with e ps unsubscribing_serves [OF ord b p refl len] overtaken_serves [OF ord b p refl len] show ?thesis
      by (auto simp: serve_def)
  qed
qed

lemma replica_inv_parting:
  assumes inv: "replica_inv H m f" and st: "m_state m = Subscribed"
  shows "replica_inv H (set_state m Unsubscribing) f"
proof -
  have "flight_ok H (get_cuid (m_attr m)) m f" using inv st by (simp add: replica_inv_def)
  then have "flight_ok H (get_cuid (m_attr m)) (set_state m Unsubscribing) f"
    using st by (cases f)
      (auto simp: flight_ok_def asked_ok_def response_ok_def answered_ok_def parting_ok_def Let_def split: if_splits)
  with inv st show ?thesis by (simp add: replica_inv_def)
qed

lemma sys_inv_step:
  assumes inv: "sys_inv R s" and step: "sys_step x R s s'"
  shows "sys_inv R s'"
  using step
proof cases
  case (sys_op i op)
  let ?m = "sy_rep s i"
  have live: "m_state ?m \<noteq> Disabled" using sys_op(3) by auto
  have rep: "replica_inv (ls_history (sy_server s)) ?m (sy_flight s i)" using inv sys_op(2) by (simp add: sys_inv_def)
  with live have b: "buffer_inv (get_cuid (m_attr ?m)) ?m" "linked (ls_history (sy_server s)) (get_cuid (m_attr ?m)) ?m"
    by (simp_all add: replica_inv_def)
  define m' where "m' = fst (execute_local_operation ?m op)"
  note k = operation_keeps [OF b sys_op(4,5) m'_def]
  have "pb_transaction (m_push_buffer m') = pb_transaction (m_push_buffer ?m) @ []" by (simp add: k(6))
  from flight_grow [OF _ k(3-5) this] rep live
  have "flight_ok (ls_history (sy_server s)) (get_cuid (m_attr ?m)) m' (sy_flight s i)" by (simp add: replica_inv_def)
  with rep live k(1-5) have "replica_inv (ls_history (sy_server s)) m' (sy_flight s i)" by (simp add: replica_inv_def)
  from sys_inv_replica [OF inv sys_op(2) this] k(3) show ?thesis
    by (simp add: sys_op(1) m'_def [symmetric] set_rep_flight [OF refl, symmetric])
next
  case (sys_end i tag committed)
  let ?m = "sy_rep s i"
  define m' where "m' = end_or_rollback ?m tag committed"
  have rep: "replica_inv (ls_history (sy_server s)) ?m (sy_flight s i)" using inv sys_end(2) by (simp add: sys_inv_def)
  with sys_end(3) have b: "buffer_inv (get_cuid (m_attr ?m)) ?m" "linked (ls_history (sy_server s)) (get_cuid (m_attr ?m)) ?m"
    by (simp_all add: replica_inv_def)
  obtain ts where k: "buffer_inv (get_cuid (m_attr ?m)) m'" "linked (ls_history (sy_server s)) (get_cuid (m_attr ?m)) m'"
      "m_attr m' = m_attr ?m" "m_checkpoint m' = m_checkpoint ?m"
      "pb_transaction (m_push_buffer m') = pb_transaction (m_push_buffer ?m) @ ts"
    using end_keeps [OF b m'_def] by blast
  have "flight_ok (ls_history (sy_server s)) (get_cuid (m_attr ?m)) m' (sy_flight s i)"
    using flight_grow [OF _ k(3) sys_end(4) [folded m'_def] k(4,5)] rep sys_end(3) by (simp add: replica_inv_def)
  with rep sys_end(3) sys_end(4) [folded m'_def] k(1-4) have "replica_inv (ls_history (sy_server s)) m' (sy_flight s i)"
    by (simp add: replica_inv_def)
  from sys_inv_replica [OF inv sys_end(2) this] k(3) show ?thesis by (simp add: sys_end(1) m'_def [symmetric] set_rep_flight [OF refl, symmetric])
next
  case (sys_ask i p)
  let ?m = "sy_rep s i"
  have rep: "replica_inv (ls_history (sy_server s)) ?m (sy_flight s i)" using inv sys_ask(2) by (simp add: sys_inv_def)
  with sys_ask(3) have b: "buffer_inv (get_cuid (m_attr ?m)) ?m" "linked (ls_history (sy_server s)) (get_cuid (m_attr ?m)) ?m"
    by (simp_all add: replica_inv_def)
  have "asked_ok ?m p" by (rule ask_ok [OF b(1) linked_acked [OF b(2)] sys_ask(5)])
  with rep have "replica_inv (ls_history (sy_server s)) ?m (Asked p)" by (simp add: replica_inv_def flight_ok_def)
  from sys_inv_replica [OF inv sys_ask(2) this refl] show ?thesis by (simp add: sys_ask(1) set_flight_id)
next
  case (sys_serve i p now rt srv q)
  then show ?thesis using serve_served [OF inv] sys_inv_served [OF inv] by blast
next
  case (sys_lose i)
  have "replica_inv (ls_history (sy_server s)) (sy_rep s i) Idle"
    using inv sys_lose(2) by (auto simp: sys_inv_def replica_inv_def flight_ok_def)
  from sys_inv_replica [OF inv sys_lose(2) this refl] show ?thesis by (simp add: sys_lose(1) set_flight_id)
next
  case (sys_pull i q)
  have "replica_inv (ls_history (sy_server s)) (sy_rep s i) (Answered q)" "length (ls_history (sy_server s)) < 2 ^ 64"
    using inv sys_pull(2,3) unfolding sys_inv_def order_inv_def Let_def by (metis, blast)
  from replica_inv_pull [OF this(1) sys_pull(4) this(2)] sys_inv_replica [OF inv sys_pull(2)] show ?thesis
    by (simp add: sys_pull(1))
next
  case (sys_unsubscribe i)
  let ?m = "sy_rep s i"
  have rep: "replica_inv (ls_history (sy_server s)) ?m (sy_flight s i)" using inv sys_unsubscribe(2) by (simp add: sys_inv_def)
  from replica_inv_parting [OF rep sys_unsubscribe(3)]
  have "replica_inv (ls_history (sy_server s)) (set_state ?m Unsubscribing) (sy_flight s i)" .
  from sys_inv_replica [OF inv sys_unsubscribe(2) this] show ?thesis
    by (simp add: sys_unsubscribe(1) set_rep_flight [OF refl, symmetric])
next
  case (sys_register i sender)
  let ?s = "insert_client_item (sy_server s) (get_cuid (m_attr (sy_rep s i))) i sender"
  have "ls_history ?s = ls_history (sy_server s)" "order_inv ?s = order_inv (sy_server s)"
    using order_inv_cong [of ?s "sy_server s"] by (simp_all add: insert_client_item_def)
  with inv show ?thesis by (simp add: sys_register(1) sys_inv_def)
qed

lemma replica_inv_new:
  assumes "MutableDatatype_new a st hs = Ok m" and "st = Creating \<or> st = Subscribing \<or> st = SubscribingOrCreating"
  shows "replica_inv [] m Idle"
proof -
  have "m_attr m = a" "m_state m = st" "crdt_value (m_crdt m) = 0" "m_op_id m = OperationId_new_with_cuid (get_cuid a)"
      "m_push_buffer m = MemoryPushBuffer_new (at_option a)" "m_checkpoint m = CheckPoint_default"
      "pending (m_tx_record m) = None"
    using assms(1) by (cases "at_type a"; auto simp: MutableDatatype_new_def TxRecord_new_def CounterCrdt_default_def get_cuid_def Let_def)+
  then show ?thesis using assms(2)
    by (auto simp: replica_inv_def flight_ok_def buffer_inv_def linked_def MemoryPushBuffer_new_def pb_inv_def
        pending_delta_def OperationId_new_with_cuid_def Let_def)
qed

lemma sys_inv_init:
  assumes "sys_init R s"
  shows "sys_inv R s"
proof -
  obtain attr where srv: "sy_server s = LocalDatatypeServer_new attr" using assms by (auto simp: sys_init_def)
  have "order_inv (sy_server s)" by (simp add: srv order_inv_def LocalDatatypeServer_new_def client_checkpoint_def CheckPoint_new_def)
  moreover have "replica_inv (ls_history (sy_server s)) (sy_rep s i) (sy_flight s i)" if "R i" for i
    using assms that replica_inv_new unfolding sys_init_def srv by (fastforce simp: LocalDatatypeServer_new_def)
  ultimately show ?thesis using assms by (simp add: sys_inv_def sys_init_def)
qed

lemma sys_inv_reachable: "sys_reachable x R s \<Longrightarrow> sys_inv R s"
  by (induction rule: sys_reachable.induct) (auto intro: sys_inv_init sys_inv_step)

lemma replica_inv_reachable:
  assumes "sys_reachable x R s" and "R i" and "m_state (sy_rep s i) \<noteq> Disabled"
  shows "buffer_inv (get_cuid (m_attr (sy_rep s i))) (sy_rep s i)"
    and "linked (ls_history (sy_server s)) (get_cuid (m_attr (sy_rep s i))) (sy_rep s i)"
  using sys_inv_reachable [OF assms(1)] assms(2,3) by (simp_all add: sys_inv_def replica_inv_def)

end
