(* ===== verification/Replication.thy ===== *)
theory Replication
  imports Convergence
begin

text \<open>
  What the invariant of the replicated system means for its users: the value of every replica at every
  moment, convergence, and progress of an exchange; with one concrete run of two replicas.
\<close>

subsection \<open>A run of two replicas\<close>

definition ex_attr_b :: Attribute where
  "ex_attr_b = ex_attr\<lparr>at_duid := Uid ''duid-00000000002'',
     at_client_common := (at_client_common ex_attr)\<lparr>cc_cuid := Uid ''cuid-00000000002''\<rparr>\<rparr>"

definition ex_new :: "Attribute \<Rightarrow> DatatypeState \<Rightarrow> MutableDatatype" where
  "ex_new attr state = (case MutableDatatype_new attr state [] of Ok m \<Rightarrow> m | _ \<Rightarrow> ex_mut)"

definition ex_two :: "nat \<Rightarrow> bool" where
  "ex_two i = (i < 2)"

definition ex_sys0 :: sys where
  "ex_sys0 = \<lparr>sy_server = LocalDatatypeServer_new ex_attr,
     sy_rep = (\<lambda>i. if i = 0 then ex_new ex_attr Creating else ex_new ex_attr_b Subscribing), sy_flight = (\<lambda>_. Idle)\<rparr>"

definition ex_tx1 :: "Transaction" where
  "ex_tx1 = \<lparr>tx_cuid = Uid ''cuid-00000000001'', tx_cseq = 1, tx_sseq = 0, tx_tag = None, tx_event = False,
             tx_operations = [\<lparr>op_lamport = 1, op_body = CounterIncrease (CounterIncreaseBody 5), op_at = 0\<rparr>]\<rparr>"

definition ex_a1 :: "MutableDatatype" where
 "ex_a1 = (ex_new ex_attr Creating)\<lparr>m_crdt := Crdt_Counter \<lparr>cnt_value = 5\<rparr>,
    m_op_id := \<lparr>oid_lamport = 1, oid_cuid = Uid ''cuid-00000000001'', oid_cseq = 1\<rparr>,
    m_push_buffer := \<lparr>pb_transaction = [ex_tx1], pb_mem_size = 113, pb_option = \<lparr>max_mem_size_of_push_buffer = 1000000\<rparr>,
         pb_first_cseq = 1, pb_last_cseq = 1\<rparr>\<rparr>"

definition ex_p1 :: "PushPullPack" where
  "ex_p1 = (PushPullPack_new ex_attr Creating)\<lparr>ppp_transactions := [ex_tx1], ppp_checkpoint := \<lparr>cp_sseq = 0, cp_cseq = 1\<rparr>\<rparr>"

definition ex_srv1 :: LocalDatatypeServer where
  "ex_srv1 = insert_client_item (insert_client_item (LocalDatatypeServer_new ex_attr) (get_cuid ex_attr) 0 0) (get_cuid ex_attr_b) 1 1"

definition ex_srv2 :: LocalDatatypeServer where
  "ex_srv2 = ex_srv1\<lparr>ls_created := True, ls_sseq := 1, ls_history := [ex_tx1\<lparr>tx_sseq := 1\<rparr>],
     ls_cseq_map := [(get_cuid ex_attr, \<lparr>cp_sseq = 1, cp_cseq = 1\<rparr>)]\<rparr>"

definition ex_q1 :: PushPullPack where
  "ex_q1 = (PushPullPack_new ex_attr Subscribed)\<lparr>ppp_checkpoint := \<lparr>cp_sseq = 1, cp_cseq = 1\<rparr>\<rparr>"

definition ex_a2 :: MutableDatatype where
  "ex_a2 = ex_a1\<lparr>m_checkpoint := \<lparr>cp_sseq = 1, cp_cseq = 1\<rparr>, m_state := Subscribed\<rparr>"

definition ex_b0 :: MutableDatatype where "ex_b0 = ex_new ex_attr_b Subscribing"

definition ex_p2 :: PushPullPack where "ex_p2 = PushPullPack_new ex_attr_b Subscribing"

definition ex_q2 :: PushPullPack where
  "ex_q2 = (PushPullPack_new ex_attr_b Subscribed)\<lparr>ppp_duid := get_duid ex_attr, ppp_checkpoint := \<lparr>cp_sseq = 1, cp_cseq = 0\<rparr>,
      ppp_snapshot_transaction := Some (get_subscribe_snapshot 0 (WiredDatatype_new ex_a2))\<rparr>"

definition ex_b1 :: MutableDatatype where
  "ex_b1 = ex_b0\<lparr>m_attr := set_duid ex_attr_b (get_duid ex_attr), m_crdt := m_crdt ex_a2, m_op_id := (m_op_id ex_b0)\<lparr>oid_lamport := 1\<rparr>,
     m_checkpoint := \<lparr>cp_sseq = 1, cp_cseq = 0\<rparr>, m_tx_record := TxRecord_new Subscribing ((m_op_id ex_b0)\<lparr>oid_lamport := 1\<rparr>), m_state := Subscribed\<rparr>"

definition ex_sysA :: sys where
  "ex_sysA = \<lparr>sy_server = ex_srv1, sy_rep = (\<lambda>i. if i = 0 then ex_a1 else ex_b0), sy_flight = (\<lambda>_. Idle)\<rparr>"

definition ex_sysB :: sys where
  "ex_sysB = \<lparr>sy_server = ex_srv2, sy_rep = (\<lambda>i. if i = 0 then ex_a2 else ex_b0), sy_flight = (\<lambda>_. Idle)\<rparr>"
definition ex_sysC :: sys where
  "ex_sysC = \<lparr>sy_server = ex_srv2, sy_rep = (\<lambda>i. if i = 0 then ex_a2 else if i = 1 then ex_b1 else ex_b0), sy_flight = (\<lambda>_. Idle)\<rparr>"

subsection \<open>The run, step by step\<close>

lemma dispatch_Nil [simp]: "dispatch [] attr notify = []"
  by (simp add: dispatch_def split: option.splits)

lemmas ex_run_defs = ex_attr_b_def ex_attr_def set_transactional_def Attribute_new_def get_cuid_def get_duid_def ex_new_def
  MutableDatatype_new_def TxRecord_new_def MemoryPushBuffer_new_def OperationId_new_with_cuid_def CounterCrdt_default_def
  CheckPoint_default_def HandlersManager_new_def Let_def

lemma ex_commit_a: "end_or_rollback (fst (execute_local_operation (ex_new ex_attr Creating) (new_counter_increase 0 5))) None True = ex_a1"
  by (simp add: ex_a1_def
    end_or_rollback_def ex_run_defs execute_local_operation_counter record_operation_def push_operation_def Transaction_new_def
    new_counter_increase_def Operation_new_def set_lamport_def counter_op_def end_transaction_def set_tag_def OperationId_next_def
    enqueue_def Transaction_size_def TRANSACTION_CONSTANT_SIZE_def UID_LEN_def Operation_size_def CounterIncreaseBody_size_def
    crdt_eq_iff op_delta_def ex_tx1_def)

lemma ex_ask_a: "create_push_pull_pack ex_extern ex_a1 = Ok ex_p1"
  by (simp add: create_push_pull_pack_def ex_a1_def ex_run_defs get_pushing_transactions_def ex_p1_def ex_tx1_def PushPullPack_new_def
    Transaction_size_def TRANSACTION_CONSTANT_SIZE_def UID_LEN_def Operation_size_def CounterIncreaseBody_size_def
    DEFAULT_MAX_TRANSMISSION_SIZE_def ex_extern_def checkpointing_def)

lemma ex_serve_a: "serve ex_extern 0 True h ex_srv1 ex_p1 = (ex_srv2, Ok ex_q1)"
  by (simp add: serve_def ex_p1_def PushPullPack_new_def process_creating_def ex_srv1_def insert_client_item_def LocalDatatypeServer_new_def
      get_pulled_stub_def push_transactions_eq client_checkpoint_def hm_insert_def hm_remove_def CheckPoint_new_def max_cseq_def ex_run_defs
      ex_q1_def ex_srv2_def ex_tx1_def)

lemma ex_pull_a: "pull_and_recover ex_q1 ex_a1 = ex_a2"
proof -
  have "accepted ex_a1 ex_q1" "no_snapshot ex_a1 ex_q1"
    by (simp_all add: accepted_def no_snapshot_def syncable_def ex_q1_def ex_a1_def PushPullPack_new_def ex_run_defs)
  from apply_pull_accepted [OF this] show ?thesis
    by (simp add: pull_and_recover_def pulled_into_def unskipped_def ex_q1_def ex_a1_def ex_a2_def PushPullPack_new_def ex_run_defs
       set_state_def notify_state_change_def check_with_def lamport_max_def)
qed

lemma ex_ask_b: "create_push_pull_pack ex_extern ex_b0 = Ok ex_p2"
  by (simp add: create_push_pull_pack_def ex_b0_def ex_run_defs get_pushing_transactions_def ex_p2_def PushPullPack_new_def checkpointing_def)

lemma ex_serve_b: "h 0 = WiredDatatype_new ex_a2 \<Longrightarrow> serve ex_extern 0 True h ex_srv2 ex_p2 = (ex_srv2, Ok ex_q2)"
  by (simp add: serve_def ex_p2_def PushPullPack_new_def process_subscribing_def ex_srv2_def ex_srv1_def insert_client_item_def LocalDatatypeServer_new_def
      get_pulled_stub_def get_creator_wired_datatype_def hm_insert_def hm_remove_def ex_run_defs pull_transactions_def
      ex_q2_def ex_tx1_def get_subscribe_snapshot_def WiredDatatype_new_def ex_a2_def)

lemma ex_pull_b: "pull_and_recover ex_q2 ex_b0 = ex_b1"
proof -
  have acc: "accepted ex_b0 ex_q2" and sn: "\<not> no_snapshot ex_b0 ex_q2"
    by (simp_all add: accepted_def no_snapshot_def syncable_def ex_q2_def ex_b0_def PushPullPack_new_def ex_run_defs)
  have tx: "ppp_snapshot_transaction ex_q2 = Some (get_subscribe_snapshot 0 (WiredDatatype_new ex_a2))"
    "tx_operations (get_subscribe_snapshot 0 (WiredDatatype_new ex_a2)) = [new_snapshot_operation 0 ex_a2]"
    by (simp_all add: ex_q2_def get_subscribe_snapshot_def push_operation_def Transaction_new_with_cuid_def WiredDatatype_new_def)
  have e: "apply_pull ex_q2 ex_b0 = (set_state (pulled_into ex_q2
      (subscribed_from ex_q2 (new_snapshot_operation 0 ex_a2) (m_crdt ex_a2) ex_b0)) Subscribed, Ok ())"
    by (rule apply_pull_snapshot [OF acc sn tx snapshot_op_simps(1)]) simp
  show ?thesis unfolding pull_and_recover_def e
    by (simp add: pulled_into_def subscribed_from_def mutable_reset_def unskipped_def ex_q2_def ex_b0_def ex_b1_def
       PushPullPack_new_def ex_a2_def ex_a1_def ex_run_defs set_state_def notify_state_change_def check_with_def lamport_max_def set_duid_def)
qed

lemma serve_ok_flight [simp]: "serve_ok R (set_flight s i f) p = serve_ok R s p"
  by (simp add: serve_ok_def subscription_ok_def set_flight_def split: option.splits)

text \<open>The lossless exchange as three steps of the system.\<close>

lemma exchange_reachable:
  assumes reach: "sys_reachable x R s" and i: "R i" "sy_flight s i = Idle" "m_state (sy_rep s i) \<noteq> Disabled"
    and p: "create_push_pull_pack x (sy_rep s i) = Ok p" and ok: "serve_ok R s p"
    and q: "serve x now rt (sys_heap s) (sy_server s) p = (srv, Ok q)"
  shows "sys_reachable x R (set_rep (s\<lparr>sy_server := srv\<rparr>) i (pull_and_recover q (sy_rep s i)))"
proof -
  let ?s1 = "set_flight s i (Asked p)" and ?s2 = "set_flight (s\<lparr>sy_server := srv\<rparr>) i (Answered q)"
  have "sys_reachable x R ?s1" using sys_next [OF reach sys_ask [where R = R and i = i and s = s, OF i(1,3,2) p]] .
  moreover have "sys_step x R ?s1 (set_flight (?s1\<lparr>sy_server := srv\<rparr>) i (Answered q))"
    using i ok q by (intro sys_serve [where p = p and R = R and i = i]) 
      (simp_all, simp_all add: set_flight_def sys_heap_def)
  moreover have "set_flight (?s1\<lparr>sy_server := srv\<rparr>) i (Answered q) = ?s2" by (simp add: set_flight_def)
  ultimately have "sys_reachable x R ?s2" using sys_next by metis
  moreover have "sys_step x R ?s2 (set_flight (set_rep ?s2 i (pull_and_recover q (sy_rep ?s2 i))) i Idle)"
    using i by (intro sys_pull [where R = R and i = i]) (simp_all add: set_flight_def)
  moreover have "set_flight (set_rep ?s2 i (pull_and_recover q (sy_rep ?s2 i))) i Idle =
      set_rep (s\<lparr>sy_server := srv\<rparr>) i (pull_and_recover q (sy_rep s i))"
    using i(2) by (auto simp: set_flight_def set_rep_def fun_eq_iff)
  ultimately show ?thesis using sys_next by metis
qed

text \<open>A local operation and the commit after it as two steps of the system.\<close>

lemma commit_reachable:
  assumes reach: "sys_reachable x R s" and i: "R i" "is_read_writable (m_state (sy_rep s i))" and op: "counter_op op"
    and room: "unat (oid_cseq (m_op_id (sy_rep s i))) + 3 < 2 ^ 64"
    and m: "fst (execute_local_operation (sy_rep s i) op) = m" "m_state m \<noteq> Disabled"
    and m': "end_or_rollback m None True = m'" "m_state m' = m_state m"
  shows "sys_reachable x R (set_rep s i m')"
proof -
  have "sys_reachable x R (set_rep s i m)"
    using sys_next [OF reach sys_op [where R = R and i = i and s = s, OF i op room]] m(1) by simp
  moreover have "sys_step x R (set_rep s i m) (set_rep (set_rep s i m) i (end_or_rollback (sy_rep (set_rep s i m) i) None True))"
    using i(1) m(2) m' by (intro sys_end [where R = R and i = i]) (simp_all add: set_rep_def)
  moreover have "set_rep (set_rep s i m) i (end_or_rollback (sy_rep (set_rep s i m) i) None True) = set_rep s i m'"
    using m'(1) by (simp add: set_rep_def)
  ultimately show ?thesis using sys_next by metis
qed

lemma ex_run_start: "sys_init ex_two ex_sys0"
proof -
  have new: "MutableDatatype_new ex_attr st [] = Ok (ex_new ex_attr st)" "MutableDatatype_new ex_attr_b st [] = Ok (ex_new ex_attr_b st)" for st
    by (simp_all add: ex_run_defs)
  have "get_cuid (m_attr (ex_new ex_attr Creating)) \<noteq> get_cuid (m_attr (ex_new ex_attr_b Subscribing))"
    by (simp add: ex_run_defs)
  moreover have "\<exists>attr state hs. MutableDatatype_new attr state hs = Ok (sy_rep ex_sys0 i) \<and>
      (state = Creating \<or> state = Subscribing \<or> state = SubscribingOrCreating)" for i
    using new(1) [of Creating] new(2) [of Subscribing] unfolding ex_sys0_def by (cases "i = 0") (simp_all, blast+)
  ultimately show ?thesis unfolding sys_init_def by (auto simp: ex_sys0_def ex_two_def less_2_cases_iff)
qed

lemma ex_run_a: "sys_reachable ex_extern ex_two ex_sysA"
proof -
  let ?op = "new_counter_increase 0 5"
  let ?m = "fst (execute_local_operation (ex_new ex_attr Creating) ?op)"
  let ?reg = "ex_sys0\<lparr>sy_server := ex_srv1\<rparr>"
  have two: "ex_two 0" "ex_two 1" by (simp_all add: ex_two_def)
  have "sys_reachable ex_extern ex_two (ex_sys0\<lparr>sy_server := insert_client_item (sy_server ex_sys0) (get_cuid (m_attr (sy_rep ex_sys0 0))) 0 0\<rparr>)"
    (is "sys_reachable _ _ ?s1")
    by (rule sys_next [OF sys_start [OF ex_run_start] sys_register [where R = ex_two and i = 0, OF two(1)]])
  then have "sys_reachable ex_extern ex_two (?s1\<lparr>sy_server := insert_client_item (sy_server ?s1) (get_cuid (m_attr (sy_rep ?s1 1))) 1 1\<rparr>)"
    by (rule sys_next [OF _ sys_register [where R = ex_two and i = 1, OF two(2)]])
  then have reg: "sys_reachable ex_extern ex_two ?reg"
    by (simp add: ex_sys0_def ex_srv1_def ex_run_defs)
  have "sys_reachable ex_extern ex_two (set_rep ?reg 0 ex_a1)"
    by (rule commit_reachable [OF reg two(1), where op = ?op and m = ?m])
      (simp_all add: ex_commit_a, simp_all add: ex_sys0_def ex_a1_def ex_run_defs execute_local_operation_counter)
  moreover have "set_rep ?reg 0 ex_a1 = ex_sysA" by (auto simp: set_rep_def ex_sysA_def ex_sys0_def ex_b0_def fun_eq_iff)
  ultimately show ?thesis by simp
qed

lemma ex_run_b: "sys_reachable ex_extern ex_two ex_sysB"
proof -
  have "sys_reachable ex_extern ex_two (set_rep (ex_sysA\<lparr>sy_server := ex_srv2\<rparr>) 0 (pull_and_recover ex_q1 (sy_rep ex_sysA 0)))"
  proof (rule exchange_reachable [OF ex_run_a, where now = 0 and rt = True])
    show "serve_ok ex_two ex_sysA ex_p1"
      by (simp add: serve_ok_def creation_ok_def ex_sysA_def ex_srv1_def insert_client_item_def LocalDatatypeServer_new_def
          ex_p1_def PushPullPack_new_def)
  qed (simp_all add: ex_two_def ex_sysA_def ex_ask_a ex_serve_a, simp add: ex_a1_def ex_run_defs)
  moreover have "set_rep (ex_sysA\<lparr>sy_server := ex_srv2\<rparr>) 0 (pull_and_recover ex_q1 (sy_rep ex_sysA 0)) = ex_sysB"
    by (auto simp: set_rep_def ex_sysA_def ex_sysB_def ex_pull_a fun_eq_iff)
  ultimately show ?thesis by simp
qed

lemma ex_run_c: "sys_reachable ex_extern ex_two ex_sysC"
proof -
  have "sys_reachable ex_extern ex_two (set_rep (ex_sysB\<lparr>sy_server := ex_srv2\<rparr>) 1 (pull_and_recover ex_q2 (sy_rep ex_sysB 1)))"
  proof (rule exchange_reachable [OF ex_run_b, where now = 0 and rt = True])
    show "serve_ok ex_two ex_sysB ex_p2"
      by (simp add: serve_ok_def subscription_ok_def ex_sysB_def ex_srv2_def ex_srv1_def insert_client_item_def LocalDatatypeServer_new_def
          ex_p2_def PushPullPack_new_def own_def ex_tx1_def get_creator_wired_datatype_def ex_a2_def ex_a1_def quiescent_def ex_two_def
          hm_insert_def hm_remove_def ex_run_defs)
  qed (simp_all add: ex_two_def ex_sysB_def ex_ask_b ex_serve_b sys_heap_def, simp add: ex_b0_def ex_run_defs)
  moreover have "set_rep (ex_sysB\<lparr>sy_server := ex_srv2\<rparr>) 1 (pull_and_recover ex_q2 (sy_rep ex_sysB 1)) = ex_sysC"
    by (auto simp: set_rep_def ex_sysB_def ex_sysC_def ex_pull_b fun_eq_iff)
  ultimately show ?thesis by simp
qed


lemma ex_sysC_simps:
  "sy_server ex_sysC = ex_srv2" "sy_rep ex_sysC 0 = ex_a2" "sy_rep ex_sysC 1 = ex_b1"
  "m_state ex_a2 = Subscribed" "m_state ex_b1 = Subscribed" "quiescent ex_a2" "quiescent ex_b1"
  "cp_sseq (m_checkpoint ex_a2) = ls_sseq ex_srv2" "cp_sseq (m_checkpoint ex_b1) = ls_sseq ex_srv2"
  "crdt_value (m_crdt ex_a2) = 5" "ex_two 0" "ex_two 1"
  by (simp_all add: ex_sysC_def ex_a2_def ex_b1_def ex_b0_def ex_a1_def quiescent_def ex_srv2_def ex_two_def ex_run_defs)

subsection \<open>Progress\<close>

definition accepted_client :: "LocalDatatypeServer \<Rightarrow> MutableDatatype \<Rightarrow> bool" where
  "accepted_client srv m =
     (hm_contains (ls_wired_map srv) (get_cuid (m_attr m)) \<and> ls_type srv = at_type (m_attr m) \<and> \<not> at_is_readonly (m_attr m))"

lemma pack_fields:
  assumes "buffer_inv u m" "linked H u m" and p: "create_push_pull_pack x m = Ok p"
  shows "ppp_type p = at_type (m_attr m)" "ppp_is_readonly p = at_is_readonly (m_attr m)" "ppp_state p = m_state m"
    "ppp_cuid p = get_cuid (m_attr m)"
proof -
  have p': "p = (PushPullPack_new (m_attr m) (m_state m))\<lparr>ppp_transactions := ppp_transactions p, ppp_checkpoint := ppp_checkpoint p\<rparr>"
    by (rule pack_contents(4) [OF buffer_unacked(1) [OF assms(1) linked_acked [OF assms(2)]] p])
  show "ppp_type p = at_type (m_attr m)" "ppp_is_readonly p = at_is_readonly (m_attr m)" "ppp_state p = m_state m"
    "ppp_cuid p = get_cuid (m_attr m)"
    by (subst p'; simp add: PushPullPack_new_def get_cuid_def)+
qed

lemma subscribed_answer:
  assumes ord: "order_inv s" and b: "buffer_inv u m" "linked (ls_history s) u m" and u: "u = get_cuid (m_attr m)"
    and st: "m_state m = Subscribed" and acc: "accepted_client s m"
    and p: "create_push_pull_pack x m = Ok p" and len: "length (ls_history s) + length (ppp_transactions p) < 2 ^ 64"
    and e: "serve x now rt h s p = (s', Ok q)"
  shows "ppp_error q = None" "cp_sseq (ppp_checkpoint q) = ls_sseq s'"
    "unat (cp_cseq (ppp_checkpoint q)) = max (length (own u (ls_history s))) (unat (cp_cseq (m_checkpoint m)) + length (ppp_transactions p))"
    "ls_wired_map s' = ls_wired_map s" "ls_type s' = ls_type s" "filter (\<lambda>t. tx_cuid t \<noteq> u) (ls_history s') = filter (\<lambda>t. tx_cuid t \<noteq> u) (ls_history s)"
proof -
  have ask: "asked_ok m p" by (rule ask_ok [OF b(1) linked_acked [OF b(2)] p])
  note pf = pack_fields [OF b p, unfolded st u [symmetric]]
  obtain s1 cseq any where push: "push_transactions s p = (s1, cseq, any)" by (metis prod.collapse)
  note h = push_extends [OF ord b ask u len push]
  have "process_subscribed s p rt = (s', Ok q)" using e pf by (simp add: serve_def)
  then have q: "ppp_error q = None" "cp_sseq (ppp_checkpoint q) = ls_sseq s1" "cp_cseq (ppp_checkpoint q) = cseq"
      "s' = s1 \<or> s' = notify_pushed s1 (ppp_cuid p)"
    using acc pf push u
    by (auto simp: process_subscribed_def process_client_push_def get_pulled_stub_def pull_transactions_def accepted_client_def Let_def
        split: if_splits)
  then show "ppp_error q = None" "cp_sseq (ppp_checkpoint q) = ls_sseq s'" by auto
  show "unat (cp_cseq (ppp_checkpoint q)) = max (length (own u (ls_history s))) (unat (cp_cseq (m_checkpoint m)) + length (ppp_transactions p))"
    unfolding q(3) h(4) order_numbers(3) [OF h(2)] by (rule h(5))
  show "ls_wired_map s' = ls_wired_map s" "ls_type s' = ls_type s" using q(4) push_frame [OF push] by auto
  show "filter (\<lambda>t. tx_cuid t \<noteq> u) (ls_history s') = filter (\<lambda>t. tx_cuid t \<noteq> u) (ls_history s)"
    using q(4) h(1) by auto
qed

lemma unsubscribing_answer:
  assumes ord: "order_inv s" and b: "buffer_inv u m" "linked (ls_history s) u m" and u: "u = get_cuid (m_attr m)"
    and st: "m_state m = Unsubscribing" and acc: "accepted_client s m"
    and p: "create_push_pull_pack x m = Ok p" and len: "length (ls_history s) + length (ppp_transactions p) < 2 ^ 64"
    and e: "serve x now rt h s p = (s', Ok q)"
  shows "ppp_error q = None" "ppp_state q = Disabled" "\<not> hm_contains (ls_wired_map s') u"
    "length (own u (ls_history s')) = max (length (own u (ls_history s))) (unat (cp_cseq (m_checkpoint m)) + length (ppp_transactions p))"
proof -
  have ask: "asked_ok m p" by (rule ask_ok [OF b(1) linked_acked [OF b(2)] p])
  note pf = pack_fields [OF b p, unfolded st u [symmetric]]
  obtain s1 cseq any where push: "push_transactions s p = (s1, cseq, any)" by (metis prod.collapse)
  note h = push_extends [OF ord b ask u len push]
  have un: "process_unsubscribing x s p rt = (s', Ok q)" using e pf by (simp add: serve_def)
  then show q: "ppp_error q = None" "ppp_state q = Disabled" "\<not> hm_contains (ls_wired_map s') u"
    using acc pf push u
    by (auto simp: process_unsubscribing_def process_client_push_def get_pulled_stub_def pull_transactions_def accepted_client_def
        Let_def split: if_splits option.splits)
  have "ls_history s' = ls_history s1"
    using un acc pf push u
    by (auto simp: process_unsubscribing_def process_client_push_def get_pulled_stub_def pull_transactions_def accepted_client_def
        Let_def split: if_splits option.splits)
  with h(5) show "length (own u (ls_history s')) = max (length (own u (ls_history s))) (unat (cp_cseq (m_checkpoint m)) + length (ppp_transactions p))"
    by simp
qed

text \<open>One lossless exchange of a subscribed replica, in full.\<close>

lemma subscribed_exchange:
  assumes reach: "sys_reachable x R s" and i: "R i" "sy_flight s i = Idle" "m_state (sy_rep s i) = Subscribed"
    and acc: "accepted_client (sy_server s) (sy_rep s i)"
    and p: "create_push_pull_pack x (sy_rep s i) = Ok p"
    and len: "length (ls_history (sy_server s)) + length (ppp_transactions p) < 2 ^ 64"
  obtains srv q m where "serve x now rt (sys_heap s) (sy_server s) p = (srv, Ok q)" "apply_pull q (sy_rep s i) = (m, Ok ())"
    "sys_reachable x R (set_rep (s\<lparr>sy_server := srv\<rparr>) i m)" "m = set_state (pulled_into q (sy_rep s i)) Subscribed"
    "m_checkpoint m = ppp_checkpoint q" "cp_sseq (ppp_checkpoint q) = ls_sseq srv"
    "unat (cp_cseq (ppp_checkpoint q)) = max (length (own (get_cuid (m_attr (sy_rep s i))) (ls_history (sy_server s))))
       (unat (cp_cseq (m_checkpoint (sy_rep s i))) + length (ppp_transactions p))"
    "ls_wired_map srv = ls_wired_map (sy_server s)" "ls_type srv = ls_type (sy_server s)"
    "filter (\<lambda>t. tx_cuid t \<noteq> get_cuid (m_attr (sy_rep s i))) (ls_history srv) =
       filter (\<lambda>t. tx_cuid t \<noteq> get_cuid (m_attr (sy_rep s i))) (ls_history (sy_server s))"
proof -
  let ?m = "sy_rep s i" and ?s = "sy_server s"
  let ?u = "get_cuid (m_attr ?m)"
  have live: "m_state ?m \<noteq> Disabled" using i by simp
  note inv = sys_inv_reachable [OF reach] and b = replica_inv_reachable [OF reach i(1) live]
  have ord: "order_inv ?s" using inv by (simp add: sys_inv_def)
  obtain srv q where e: "serve x now rt (sys_heap s) ?s p = (srv, Ok q)" using serve_Ok by (metis prod.collapse)
  have ps: "ppp_state p = Subscribed" using ask_ok [OF b(1) linked_acked [OF b(2)] p] i by (simp add: asked_ok_def)
  then have ok: "serve_ok R s p" using len by (simp add: serve_ok_def)
  note ans = subscribed_answer [OF ord b refl i(3) acc p len e]
  have "served_ok ?s srv ?u ?m q"
    using subscribed_serves [OF ord b ask_ok [OF b(1) linked_acked [OF b(2)] p] refl len i(3)] e ps by (simp add: serve_def)
  then have a: "answered_ok (ls_history srv) ?u ?m q" and ord': "order_inv srv" by (simp_all add: served_ok_def response_ok_def i(3))
  have ns: "no_snapshot ?m q" using i by (simp add: no_snapshot_def)
  have "accepted ?m q" using answered_accepted(1) [OF a ans(1)] ord' i by (simp add: order_inv_def Let_def)
  from apply_pull_accepted [OF this ns] i
  have ap: "apply_pull q ?m = (set_state (pulled_into q ?m) Subscribed, Ok ())" by simp
  have le: "cp_sseq (m_checkpoint ?m) \<le> cp_sseq (ppp_checkpoint q)"
    using a ans(1) by (simp add: answered_ok_def Let_def word_le_nat_alt)
  have "cp_cseq (m_checkpoint ?m) \<le> cp_cseq (ppp_checkpoint q)" using ans(3) by (simp add: word_le_nat_alt)
  with le have cp: "check_with (m_checkpoint ?m) (ppp_checkpoint q) = ppp_checkpoint q"
    by (cases "ppp_checkpoint q") (simp add: check_with_def max.absorb2)
  have "sys_reachable x R (set_rep (s\<lparr>sy_server := srv\<rparr>) i (pull_and_recover q ?m))"
    by (rule exchange_reachable [OF reach i(1,2) live p ok e])
  moreover have "pull_and_recover q ?m = set_state (pulled_into q ?m) Subscribed" by (simp add: pull_and_recover_def ap)
  ultimately show thesis using that [OF e ap _ refl _ ans(2-6)] cp by simp
qed

subsection \<open>Properties\<close>

text \<open>
  C1: Replicas converge in guarded runs. Local operations, commits, rollbacks, unsubscribe calls, requests, answers and losses
  interleave freely, within the guards of \<open>sys_step\<close>: a creation request is answered only while the history holds nothing but the
  creator's own transactions; a snapshot is taken only of a creator with everything acknowledged and no transaction in progress; a subscriber's
  client id is new to the history; a rollback does not change the lifecycle state; one server lives throughout and has fewer than \<open>2 ^ 64\<close> transactions.
  (Theory Protocol_Gaps has runs outside the first three in which replicas differ.) Then two replicas that are not disabled, have everything of theirs
  acknowledged, no transaction in progress and the server's sequence number as their checkpoint hold the same value:
  the sum of all transactions in the server's total order.
\<close>

theorem replicas_converge:
  assumes reach: "sys_reachable x R s" and rep: "R i" "R j"
    and live: "m_state (sy_rep s i) \<noteq> Disabled" "m_state (sy_rep s j) \<noteq> Disabled"
    and quiet: "quiescent (sy_rep s i)" "quiescent (sy_rep s j)"
    and upto: "cp_sseq (m_checkpoint (sy_rep s i)) = ls_sseq (sy_server s)"
      "cp_sseq (m_checkpoint (sy_rep s j)) = ls_sseq (sy_server s)"
  shows "crdt_value (m_crdt (sy_rep s i)) = txs_delta (ls_history (sy_server s)) \<and>
    crdt_value (m_crdt (sy_rep s j)) = crdt_value (m_crdt (sy_rep s i))"
proof -
  have "order_inv (sy_server s)" using sys_inv_reachable [OF reach] by (simp add: sys_inv_def)
  note n = order_numbers(1) [OF this]
  have "crdt_value (m_crdt (sy_rep s k)) = txs_delta (ls_history (sy_server s))"
    if "R k" "m_state (sy_rep s k) \<noteq> Disabled" "quiescent (sy_rep s k)"
      "cp_sseq (m_checkpoint (sy_rep s k)) = ls_sseq (sy_server s)" for k
    using snapshot_of_quiescent [OF replica_inv_reachable(2) [OF reach that(1,2)] that(3)] that(4) n by simp
  with assms show ?thesis by simp
qed

theorem replicas_converge_witness:
  "sys_reachable ex_extern ex_two ex_sysC \<and> crdt_value (m_crdt (sy_rep ex_sysC 1)) = crdt_value (m_crdt (sy_rep ex_sysC 0)) \<and>
   crdt_value (m_crdt (sy_rep ex_sysC 0)) = 5"
  using replicas_converge [of ex_extern ex_two ex_sysC 0 1] ex_run_c by (simp add: ex_sysC_simps del: One_nat_def)




text \<open>
  An exchange catches up. From any reachable state, one lossless exchange of a subscribed replica
  whose unacknowledged transactions fit into one pack is answered and applied without an error, and
  leaves the replica with the server's sequence number and everything it committed acknowledged; the
  values of the others do not change. With the convergence theorem, one exchange per replica after the
  last commit and a second one for those that went before it bring all replicas to the same value.
\<close>

lemma exchange_catches_up:
  assumes reach: "sys_reachable x R s" and i: "R i" "sy_flight s i = Idle" "m_state (sy_rep s i) = Subscribed"
    and acc: "accepted_client (sy_server s) (sy_rep s i)"
    and p: "create_push_pull_pack x (sy_rep s i) = Ok p"
    and all: "unat (cp_cseq (m_checkpoint (sy_rep s i))) + length (ppp_transactions p) =
        length (pb_transaction (m_push_buffer (sy_rep s i)))"
    and len: "length (ls_history (sy_server s)) + length (ppp_transactions p) < 2 ^ 64"
    and idle: "pending (m_tx_record (sy_rep s i)) = None"
  shows "\<exists>srv q m. serve x now rt (sys_heap s) (sy_server s) p = (srv, Ok q) \<and> apply_pull q (sy_rep s i) = (m, Ok ()) \<and>
    sys_reachable x R (set_rep (s\<lparr>sy_server := srv\<rparr>) i m) \<and> m_state m = Subscribed \<and>
    cp_sseq (m_checkpoint m) = ls_sseq srv \<and> quiescent m"
proof -
  let ?m = "sy_rep s i"
  obtain srv q m where e: "serve x now rt (sys_heap s) (sy_server s) p = (srv, Ok q)" "apply_pull q ?m = (m, Ok ())"
      "sys_reachable x R (set_rep (s\<lparr>sy_server := srv\<rparr>) i m)" and m: "m = set_state (pulled_into q ?m) Subscribed"
      "m_checkpoint m = ppp_checkpoint q" "cp_sseq (ppp_checkpoint q) = ls_sseq srv"
      "unat (cp_cseq (ppp_checkpoint q)) = max (length (own (get_cuid (m_attr ?m)) (ls_history (sy_server s))))
         (unat (cp_cseq (m_checkpoint ?m)) + length (ppp_transactions p))"
    using subscribed_exchange [OF reach i acc p len, of now rt] by blast
  have "length (own (get_cuid (m_attr ?m)) (ls_history (sy_server s))) \<le> length (pb_transaction (m_push_buffer ?m))"
    using replica_inv_reachable(2) [OF reach i(1)] i(3) by (simp add: linked_def Let_def)
  with m(4) all have "unat (cp_cseq (ppp_checkpoint q)) = length (pb_transaction (m_push_buffer ?m))" by simp
  with e m(2,3) idle show ?thesis by (auto simp: quiescent_def m(1))
qed

lemma ex_ask_again:
  "create_push_pull_pack ex_extern ex_b1 =
     Ok ((PushPullPack_new (m_attr ex_b1) Subscribed)\<lparr>ppp_checkpoint := \<lparr>cp_sseq = 1, cp_cseq = 0\<rparr>\<rparr>)"
  by (simp add: create_push_pull_pack_def ex_b1_def ex_b0_def ex_run_defs get_pushing_transactions_def PushPullPack_new_def
      checkpointing_def)

lemma exchange_catches_up_witness:
  "\<exists>srv q m. serve ex_extern 0 True (sys_heap ex_sysC) ex_srv2
       ((PushPullPack_new (m_attr ex_b1) Subscribed)\<lparr>ppp_checkpoint := \<lparr>cp_sseq = 1, cp_cseq = 0\<rparr>\<rparr>) = (srv, Ok q) \<and>
     apply_pull q ex_b1 = (m, Ok ()) \<and> cp_sseq (m_checkpoint m) = ls_sseq srv \<and> quiescent m"
proof -
  have acc: "accepted_client (sy_server ex_sysC) (sy_rep ex_sysC 1)"
    unfolding ex_sysC_simps
    by (simp add: accepted_client_def ex_srv2_def ex_srv1_def insert_client_item_def LocalDatatypeServer_new_def
        ex_b1_def ex_b0_def set_duid_def ex_run_defs)
  have flight: "sy_flight ex_sysC 1 = Idle" by (simp add: ex_sysC_def)
  have sub: "m_state (sy_rep ex_sysC 1) = Subscribed" unfolding ex_sysC_simps by (rule refl)
  note c = exchange_catches_up [OF ex_run_c ex_sysC_simps(12) flight sub acc, unfolded ex_sysC_simps, OF ex_ask_again, of 0 True]
  have "pending (m_tx_record ex_b1) = None" "pb_transaction (m_push_buffer ex_b1) = []" "cp_cseq (m_checkpoint ex_b1) = 0"
      "length (ls_history ex_srv2) = 1"
    by (simp_all add: ex_b1_def ex_b0_def ex_srv2_def ex_run_defs)
  with c show ?thesis by (auto simp: PushPullPack_new_def)
qed

text \<open>
  C18: Unsubscribing hands everything over. In every state the system reaches within the guards of \<open>sys_step\<close> (in particular, the client id has not
  been used for an earlier subscription), for a writable replica that the server has as a subscriber of its type, one exchange without
  losses of a replica that has been told to unsubscribe, whose unacknowledged transactions fit into one pack,
  leaves every transaction it ever committed in the server's order, operation by operation and in the
  order of the commits; the replica is disabled without an error and the server has dropped the client.
\<close>

theorem unsubscribe_hands_over:
  assumes reach: "sys_reachable x R s" and i: "R i" "sy_flight s i = Idle" "m_state (sy_rep s i) = Unsubscribing"
    and acc: "accepted_client (sy_server s) (sy_rep s i)"
    and p: "create_push_pull_pack x (sy_rep s i) = Ok p"
    and all: "unat (cp_cseq (m_checkpoint (sy_rep s i))) + length (ppp_transactions p) =
        length (pb_transaction (m_push_buffer (sy_rep s i)))"
    and len: "length (ls_history (sy_server s)) + length (ppp_transactions p) < 2 ^ 64"
  shows "\<exists>srv q m. serve x now rt (sys_heap s) (sy_server s) p = (srv, Ok q) \<and> apply_pull q (sy_rep s i) = (m, Ok ()) \<and>
    sys_reachable x R (set_rep (s\<lparr>sy_server := srv\<rparr>) i m) \<and> m_state m = Disabled \<and>
    map tx_operations (own (get_cuid (m_attr (sy_rep s i))) (ls_history srv)) =
      map tx_operations (pb_transaction (m_push_buffer (sy_rep s i))) \<and>
    \<not> hm_contains (ls_wired_map srv) (get_cuid (m_attr (sy_rep s i)))"
proof -
  let ?m = "sy_rep s i" and ?s = "sy_server s"
  let ?u = "get_cuid (m_attr ?m)"
  have live: "m_state ?m \<noteq> Disabled" using i by simp
  note inv = sys_inv_reachable [OF reach] and b = replica_inv_reachable [OF reach i(1) live]
  have ord: "order_inv ?s" using inv by (simp add: sys_inv_def)
  obtain srv q where e: "serve x now rt (sys_heap s) ?s p = (srv, Ok q)" using serve_Ok by (metis prod.collapse)
  note ask = ask_ok [OF b(1) linked_acked [OF b(2)] p]
  note ans = unsubscribing_answer [OF ord b refl i(3) acc p len e]
  have ps: "ppp_state p = Unsubscribing" using pack_fields(3) [OF b p] i(3) by simp
  then have ok: "serve_ok R s p" using len by (simp add: serve_ok_def)
  have sv: "served_ok ?s srv ?u ?m q" using unsubscribing_serves [OF ord b ask refl len i(3)] e ps by (simp add: serve_def)
  then have l: "linked (ls_history srv) ?u ?m" and a: "parting_ok q" by (simp_all add: served_ok_def response_ok_def i(3))
  have "accepted ?m q" "no_snapshot ?m q"
    using a ans(1,2) i(3) by (simp_all add: parting_ok_def accepted_def no_snapshot_def syncable_def)
  from apply_pull_accepted [OF this] i(3)
  have ap: "apply_pull q ?m = (set_state (pulled_into q ?m) Disabled, Ok ())" by simp
  have "length (own ?u (ls_history ?s)) \<le> length (pb_transaction (m_push_buffer ?m))" using b(2) by (simp add: linked_def Let_def)
  with ans(4) all have "length (own ?u (ls_history srv)) = length (pb_transaction (m_push_buffer ?m))" by simp
  with l have "map tx_operations (own ?u (ls_history srv)) = map tx_operations (pb_transaction (m_push_buffer ?m))"
    by (simp add: linked_def Let_def)
  moreover have "sys_reachable x R (set_rep (s\<lparr>sy_server := srv\<rparr>) i (pull_and_recover q ?m))"
    by (rule exchange_reachable [OF reach i(1,2) live p ok e])
  moreover have "pull_and_recover q ?m = set_state (pulled_into q ?m) Disabled" by (simp add: pull_and_recover_def ap)
  ultimately show ?thesis using e ap ans(3) by auto
qed

text \<open>The second replica of the run adds 3, commits, and is told to unsubscribe before its event loop has pushed.\<close>

definition ex_tx3 :: "Transaction" where
  "ex_tx3 = \<lparr>tx_cuid = Uid ''cuid-00000000002'', tx_cseq = 1, tx_sseq = 0, tx_tag = None, tx_event = False,
             tx_operations = [\<lparr>op_lamport = 2, op_body = CounterIncrease (CounterIncreaseBody 3), op_at = 0\<rparr>]\<rparr>"

definition ex_b2 :: MutableDatatype where
  "ex_b2 = end_or_rollback (fst (execute_local_operation ex_b1 (new_counter_increase 0 3))) None True"

definition ex_b3 :: MutableDatatype where
  "ex_b3 = set_state ex_b2 Unsubscribing"

definition ex_p3 :: PushPullPack where
  "ex_p3 = (PushPullPack_new (m_attr ex_b1) Unsubscribing)\<lparr>ppp_transactions := [ex_tx3], ppp_checkpoint := \<lparr>cp_sseq = 1, cp_cseq = 1\<rparr>\<rparr>"

lemma ex_commit_b:
  "m_attr ex_b2 = m_attr ex_b1" "m_state ex_b2 = Subscribed" "m_checkpoint ex_b2 = \<lparr>cp_sseq = 1, cp_cseq = 0\<rparr>"
  "m_handlers ex_b2 = []" "pending (m_tx_record ex_b2) = None"
  "m_push_buffer ex_b2 = \<lparr>pb_transaction = [ex_tx3], pb_mem_size = 113, pb_option = \<lparr>max_mem_size_of_push_buffer = 1000000\<rparr>,
     pb_first_cseq = 1, pb_last_cseq = 1\<rparr>"
  by (simp_all add: ex_b2_def ex_b1_def ex_b0_def ex_a2_def ex_a1_def set_duid_def
    end_or_rollback_def ex_run_defs execute_local_operation_counter record_operation_def push_operation_def Transaction_new_def
    new_counter_increase_def Operation_new_def set_lamport_def counter_op_def end_transaction_def set_tag_def OperationId_next_def
    enqueue_def Transaction_size_def TRANSACTION_CONSTANT_SIZE_def UID_LEN_def Operation_size_def CounterIncreaseBody_size_def
    crdt_eq_iff op_delta_def ex_tx3_def)

lemma ex_leave_b:
  "m_attr ex_b3 = m_attr ex_b1" "m_state ex_b3 = Unsubscribing" "m_checkpoint ex_b3 = \<lparr>cp_sseq = 1, cp_cseq = 0\<rparr>"
  "m_push_buffer ex_b3 = m_push_buffer ex_b2"
  by (simp_all add: ex_b3_def set_state_def notify_state_change_def ex_commit_b Let_def)

lemma ex_run_work: "sys_reachable ex_extern ex_two (set_rep ex_sysC 1 ex_b2)"
proof -
  let ?m = "fst (execute_local_operation ex_b1 (new_counter_increase 0 3))"
  have rep: "sy_rep ex_sysC 1 = ex_b1" "ex_two 1" by (simp_all add: ex_sysC_def ex_two_def)
  have "m_state ?m = Subscribed" "unat (oid_cseq (m_op_id ex_b1)) = 0"
    by (simp_all add: ex_b1_def ex_b0_def ex_a2_def ex_a1_def ex_run_defs execute_local_operation_counter)
  then show ?thesis
    using commit_reachable [OF ex_run_c rep(2), where op = "new_counter_increase 0 3" and m = ?m and m' = ex_b2, unfolded rep(1)]
      ex_sysC_simps(5) by (simp add: ex_b2_def [symmetric] ex_commit_b(2))
qed

lemma ex_run_d: "sys_reachable ex_extern ex_two (set_rep ex_sysC 1 ex_b3)"
proof -
  let ?s = "set_rep ex_sysC 1 ex_b2"
  have "sys_step ex_extern ex_two ?s (set_rep ?s 1 (set_state (sy_rep ?s 1) Unsubscribing))"
    by (rule sys_unsubscribe [where R = ex_two and i = 1]) (simp_all add: set_rep_def ex_commit_b(2) ex_two_def)
  moreover have "set_rep ?s 1 (set_state (sy_rep ?s 1) Unsubscribing) = set_rep ex_sysC 1 ex_b3"
    by (simp add: set_rep_def ex_b3_def)
  ultimately show ?thesis using sys_next [OF ex_run_work] by metis
qed

lemma ex_ask_leave: "create_push_pull_pack ex_extern ex_b3 = Ok ex_p3"
  by (simp add: create_push_pull_pack_def ex_leave_b ex_commit_b get_pushing_transactions_def ex_p3_def ex_tx3_def
    PushPullPack_new_def Transaction_size_def TRANSACTION_CONSTANT_SIZE_def UID_LEN_def Operation_size_def
    CounterIncreaseBody_size_def DEFAULT_MAX_TRANSMISSION_SIZE_def ex_extern_def checkpointing_def)

theorem unsubscribe_hands_over_witness:
  "\<exists>srv q m. serve ex_extern 0 True (sys_heap (set_rep ex_sysC 1 ex_b3)) ex_srv2 ex_p3 = (srv, Ok q) \<and>
     apply_pull q ex_b3 = (m, Ok ()) \<and> m_state m = Disabled \<and>
     map tx_operations (own (get_cuid ex_attr_b) (ls_history srv)) = [tx_operations ex_tx3] \<and>
     \<not> hm_contains (ls_wired_map srv) (get_cuid ex_attr_b)"
proof -
  let ?s = "set_rep ex_sysC 1 ex_b3"
  have s: "sy_rep ?s 1 = ex_b3" "sy_server ?s = ex_srv2" "sy_flight ?s 1 = Idle" and two: "ex_two 1"
    by (simp_all add: set_rep_def ex_sysC_def ex_two_def)
  have a: "get_cuid (m_attr ex_b3) = get_cuid ex_attr_b" "unat (cp_cseq (m_checkpoint ex_b3)) = 0"
      "pb_transaction (m_push_buffer ex_b3) = [ex_tx3]" "ppp_transactions ex_p3 = [ex_tx3]" "length (ls_history ex_srv2) = 1"
    by (simp_all add: ex_leave_b ex_commit_b ex_b1_def set_duid_def get_cuid_def ex_p3_def PushPullPack_new_def ex_srv2_def)
  have acc: "accepted_client ex_srv2 ex_b3"
    unfolding accepted_client_def a(1) ex_leave_b(1)
    by (simp add: ex_srv2_def ex_srv1_def insert_client_item_def LocalDatatypeServer_new_def ex_b1_def ex_run_defs set_duid_def)
  from unsubscribe_hands_over [OF ex_run_d two s(3), unfolded s, OF ex_leave_b(2) acc ex_ask_leave, of 0 True] a
  show ?thesis by auto
qed

end
