(* ===== verification/Loop_Sync.thy ===== *)
theory Loop_Sync
  imports Loop_Liveness Replication
begin

text \<open>
  The event loop, the wired layer, the in-memory backend and the replicated system put together: the loop
  of a subscribed replica, run against the backend that holds the server of the system, drains the
  replica's push buffer and answers a waiting \<open>sync\<close> request when the replica has caught up; replicas that
  sync in turn end up with the same value.
\<close>

subsection \<open>Replicas of the system as their event loops see them\<close>

definition rep_cuid :: "sys \<Rightarrow> nat \<Rightarrow> Cuid" where
  "rep_cuid s i = get_cuid (m_attr (sy_rep s i))"

definition rep_txs :: "sys \<Rightarrow> nat \<Rightarrow> Transaction list" where
  "rep_txs s i = pb_transaction (m_push_buffer (sy_rep s i))"

text \<open>The numbers of the server do not run out while the replicas \<open>U\<close> push what they have.\<close>

definition room :: "nat list \<Rightarrow> sys \<Rightarrow> bool" where
  "room U s =
     (length (filter (\<lambda>t. \<forall>k \<in> set U. tx_cuid t \<noteq> rep_cuid s k) (ls_history (sy_server s))) +
      2 * sum_list (map (\<lambda>k. length (rep_txs s k)) U) < 2 ^ 64)"

text \<open>
  The replicas \<open>U\<close> of the system \<open>s\<close> are those at the same addresses of the heap, and the server of the system is
  the one the backend keeps under their resource id. Each of them is subscribed, between exchanges and
  between transactions.
\<close>

definition attached :: "extern \<Rightarrow> (nat \<Rightarrow> bool) \<Rightarrow> nat list \<Rightarrow> sys \<Rightarrow> heap \<Rightarrow> LocalConnectivity \<Rightarrow> bool" where
  "attached x R U s h c =
     (sys_reachable x R s \<and> room U s \<and>
      (\<exists>rid. get_local_datatype_server c rid = Some (sy_server s) \<and>
        (\<forall>i \<in> set U. Attribute_resource_id (m_attr (sy_rep s i)) = rid)) \<and>
      (\<forall>i \<in> set U. R i \<and> sy_flight s i = Idle \<and> m_state (sy_rep s i) = Subscribed \<and>
        accepted_client (sy_server s) (sy_rep s i) \<and> pending (m_tx_record (sy_rep s i)) = None \<and>
        wd_mutable (h i) = sy_rep s i \<and> wd_interceptor (h i) = WiredInterceptor_new))"

definition acked :: "sys \<Rightarrow> nat \<Rightarrow> bool" where
  "acked s i = (unat (cp_cseq (m_checkpoint (sy_rep s i))) = length (rep_txs s i))"

definition caught_up :: "sys \<Rightarrow> nat \<Rightarrow> bool" where
  "caught_up s i = (quiescent (sy_rep s i) \<and> cp_sseq (m_checkpoint (sy_rep s i)) = ls_sseq (sy_server s))"

text \<open>Only replica \<open>i\<close> and its transactions at the server have moved from \<open>s\<close> to \<open>s'\<close>, and not backwards.\<close>

definition only_moved :: "nat \<Rightarrow> sys \<Rightarrow> sys \<Rightarrow> bool" where
  "only_moved i s s' =
     ((\<forall>j. j \<noteq> i \<longrightarrow> sy_rep s' j = sy_rep s j \<and> sy_flight s' j = sy_flight s j) \<and>
      m_push_buffer (sy_rep s' i) = m_push_buffer (sy_rep s i) \<and> m_attr (sy_rep s' i) = m_attr (sy_rep s i) \<and>
      cp_cseq (m_checkpoint (sy_rep s i)) \<le> cp_cseq (m_checkpoint (sy_rep s' i)) \<and>
      filter (\<lambda>t. tx_cuid t \<noteq> rep_cuid s i) (ls_history (sy_server s')) =
        filter (\<lambda>t. tx_cuid t \<noteq> rep_cuid s i) (ls_history (sy_server s)))"

text \<open>
  Replicas that sync in turn: a turn \<open>(i, n)\<close> is a \<open>sync\<close> call on an idle replica \<open>i\<close>, whose event loop runs \<open>n\<close> rounds and
  has answered the call without an error by then. \<open>None\<close>: it has not.
\<close>

definition sync_loop :: EventLoop where
  "sync_loop = fst (send_push_transaction (EventLoop_new True) 0)"

definition sync_turn :: "extern \<Rightarrow> SystemTime \<Rightarrow> nat \<times> nat \<Rightarrow> heap \<times> LocalConnectivity \<Rightarrow> (heap \<times> LocalConnectivity) option" where
  "sync_turn x now turn st =
     (let (i, n) = turn; (h, c) = st
      in case loop_run x (LocalConnectivity_push_pull x now) i (replicate n Recv_Unbounded) (sync_loop, LoopState_new, h, c) of
           Some (_, lp', st') \<Rightarrow> if lp_responses lp' = [(0, None)] then Some st' else None
         | None \<Rightarrow> None)"

fun sync_turns :: "extern \<Rightarrow> SystemTime \<Rightarrow> (nat \<times> nat) list \<Rightarrow> heap \<times> LocalConnectivity \<Rightarrow> (heap \<times> LocalConnectivity) option" where
  "sync_turns x now [] st = Some st"
| "sync_turns x now (turn # turns) st =
     (case sync_turn x now turn st of None \<Rightarrow> None | Some st' \<Rightarrow> sync_turns x now turns st')"

text \<open>The two replicas of theory Replication, the second one with a commit that has not been pushed.\<close>

definition ex_sysD :: sys where
  "ex_sysD = set_rep ex_sysC 1 ex_b2"

definition ex_local :: LocalConnectivity where
  "ex_local = \<lparr>lc_datatype_servers = [(Attribute_resource_id ex_attr, ex_srv2)], lc_is_realtime = True\<rparr>"

lemma only_moved_refl [simp]: "only_moved i s s"
  by (simp add: only_moved_def)

lemma only_moved_same:
  assumes "only_moved i s s'"
  shows "rep_cuid s' k = rep_cuid s k" "rep_txs s' k = rep_txs s k" "m_push_buffer (sy_rep s' k) = m_push_buffer (sy_rep s k)"
  using assms by (cases "k = i"; simp add: only_moved_def rep_cuid_def rep_txs_def)+

lemma only_moved_trans: "only_moved i s t \<Longrightarrow> only_moved i t u \<Longrightarrow> only_moved i s u"
  by (auto simp: only_moved_def rep_cuid_def intro: order_trans)

lemma room_moved:
  assumes "only_moved i s s'" and "i \<in> set U"
  shows "room U s' = room U s"
proof -
  let ?P = "\<lambda>t. \<forall>k \<in> set U. tx_cuid t \<noteq> rep_cuid s k" and ?Q = "\<lambda>t. tx_cuid t \<noteq> rep_cuid s i"
  have f: "filter ?P H = filter ?P (filter ?Q H)" for H using assms(2) by (auto simp: intro!: filter_cong)
  have "filter ?P (ls_history (sy_server s')) = filter ?P (ls_history (sy_server s))"
    using assms(1) by (subst (1 2) f) (simp add: only_moved_def)
  then show ?thesis by (simp add: room_def only_moved_same [OF assms(1)])
qed

lemma group_length:
  "length (filter (\<lambda>t. \<not> (\<forall>k \<in> set U. tx_cuid t \<noteq> f k)) H) \<le> sum_list (map (\<lambda>k. length (own (f k) H)) U)"
proof (induction U)
  case (Cons a U)
  have "length (filter (\<lambda>t. P t \<or> Q t) H) \<le> length (filter P H) + length (filter Q H)" for P Q
    by (induction H) auto
  from this [of "\<lambda>t. tx_cuid t = f a" "\<lambda>t. \<not> (\<forall>k \<in> set U. tx_cuid t \<noteq> f k)"] Cons.IH show ?case
    by (simp add: own_def disj_commute Bex_def)
qed simp

lemma attachedD:
  assumes "attached x R U s h c" and "i \<in> set U"
  shows "sys_reachable x R s" "R i" "sy_flight s i = Idle" "m_state (sy_rep s i) = Subscribed"
    "accepted_client (sy_server s) (sy_rep s i)" "pending (m_tx_record (sy_rep s i)) = None" "wd_mutable (h i) = sy_rep s i"
    "wd_interceptor (h i) = WiredInterceptor_new" "buffer_inv (rep_cuid s i) (sy_rep s i)"
    "linked (ls_history (sy_server s)) (rep_cuid s i) (sy_rep s i)" "order_inv (sy_server s)"
    "get_local_datatype_server c (Attribute_resource_id (m_attr (sy_rep s i))) = Some (sy_server s)"
proof -
  show a: "sys_reachable x R s" "R i" "sy_flight s i = Idle" and st: "m_state (sy_rep s i) = Subscribed" and
    "accepted_client (sy_server s) (sy_rep s i)" "pending (m_tx_record (sy_rep s i)) = None" "wd_mutable (h i) = sy_rep s i"
    "wd_interceptor (h i) = WiredInterceptor_new"
    "get_local_datatype_server c (Attribute_resource_id (m_attr (sy_rep s i))) = Some (sy_server s)"
    using assms by (auto simp: attached_def)
  show "buffer_inv (rep_cuid s i) (sy_rep s i)" "linked (ls_history (sy_server s)) (rep_cuid s i) (sy_rep s i)"
    using replica_inv_reachable [OF a(1,2)] st by (simp_all add: rep_cuid_def)
  show "order_inv (sy_server s)" using sys_inv_reachable [OF a(1)] by (simp add: sys_inv_def)
qed

lemma own_bound:
  assumes "attached x R U s h c" and "i \<in> set U"
  shows "length (own (rep_cuid s i) (ls_history (sy_server s))) \<le> length (rep_txs s i)"
  using attachedD(10) [OF assms] by (simp add: linked_def rep_txs_def Let_def)

lemma attached_room:
  assumes at: "attached x R U s h c" and i: "i \<in> set U"
  shows "length (ls_history (sy_server s)) + length (rep_txs s i) < 2 ^ 64"
proof -
  let ?H = "ls_history (sy_server s)" and ?P = "\<lambda>t. \<forall>k \<in> set U. tx_cuid t \<noteq> rep_cuid s k"
  let ?S = "sum_list (map (\<lambda>k. length (rep_txs s k)) U)"
  have "length (filter (\<lambda>t. \<not> ?P t) ?H) \<le> sum_list (map (\<lambda>k. length (own (rep_cuid s k) ?H)) U)" by (rule group_length)
  also have "\<dots> \<le> ?S" by (rule sum_list_mono) (rule own_bound [OF at])
  finally have "length ?H \<le> length (filter ?P ?H) + ?S" using sum_length_filter_compl [of ?P ?H] by linarith
  moreover have "length (rep_txs s i) \<le> ?S" using i by (intro member_le_sum_list) auto
  ultimately show ?thesis using at by (simp add: attached_def room_def)
qed

lemma last_cseq:
  "buffer_inv u m \<Longrightarrow> unat (pb_last_cseq (m_push_buffer m)) = length (pb_transaction (m_push_buffer m))"
  by (cases "pb_transaction (m_push_buffer m) = []") (auto simp: buffer_inv_def pb_inv_def Let_def)

lemma attached_ready:
  assumes "attached x R U s h c" and "i \<in> set U"
  shows "ready (h i)"
proof -
  note a = attachedD [OF assms]
  have "length (pb_transaction (m_push_buffer (sy_rep s i))) + 2 < 2 ^ 64" using a(9) by (simp add: buffer_inv_def Let_def)
  with a(4,7,8) buffer_unacked(1) [OF a(9) linked_acked [OF a(10)]] linked_acked [OF a(10)] last_cseq [OF a(9)]
  show ?thesis by (simp add: ready_def word_le_nat_alt)
qed

subsection \<open>One exchange with the in-memory backend\<close>

lemma serve_subscribed_heap:
  "ppp_state p = Subscribed \<Longrightarrow> serve x now rt h s p = serve x now rt h' s p"
  by (simp add: serve_def)

lemma attached_moved:
  assumes at: "attached x R U s h c" and i: "i \<in> set U" and r: "sys_reachable x R (set_rep (s\<lparr>sy_server := srv\<rparr>) i m)"
    and m: "m_attr m = m_attr (sy_rep s i)" "m_push_buffer m = m_push_buffer (sy_rep s i)" "m_tx_record m = m_tx_record (sy_rep s i)"
      "m_state m = Subscribed" "cp_cseq (m_checkpoint (sy_rep s i)) \<le> cp_cseq (m_checkpoint m)"
    and f: "ls_wired_map srv = ls_wired_map (sy_server s)" "ls_type srv = ls_type (sy_server s)"
      "filter (\<lambda>t. tx_cuid t \<noteq> rep_cuid s i) (ls_history srv) = filter (\<lambda>t. tx_cuid t \<noteq> rep_cuid s i) (ls_history (sy_server s))"
    and w: "wd_mutable w = m" "wd_interceptor w = WiredInterceptor_new"
  shows "only_moved i s (set_rep (s\<lparr>sy_server := srv\<rparr>) i m)"
    and "attached x R U (set_rep (s\<lparr>sy_server := srv\<rparr>) i m) (h(i := w))
      (c\<lparr>lc_datatype_servers := hm_insert (Attribute_resource_id (m_attr (sy_rep s i))) srv (lc_datatype_servers c)\<rparr>)"
proof -
  let ?s = "set_rep (s\<lparr>sy_server := srv\<rparr>) i m"
  show mv: "only_moved i s ?s" using m f by (simp add: only_moved_def set_rep_def)
  have "room U ?s" using at room_moved [OF mv i] by (simp add: attached_def)
  moreover obtain rid where rid: "\<forall>k \<in> set U. Attribute_resource_id (m_attr (sy_rep s k)) = rid" using at by (auto simp: attached_def)
  then have "\<forall>k \<in> set U. Attribute_resource_id (m_attr (sy_rep ?s k)) = Attribute_resource_id (m_attr (sy_rep s i))"
    using i m(1) by (simp add: set_rep_def)
  moreover have "accepted_client (sy_server ?s) (sy_rep ?s k)" if "k \<in> set U" for k
    using attachedD(5) [OF at that] m(1) f by (auto simp: accepted_client_def set_rep_def)
  ultimately show "attached x R U ?s (h(i := w))
      (c\<lparr>lc_datatype_servers := hm_insert (Attribute_resource_id (m_attr (sy_rep s i))) srv (lc_datatype_servers c)\<rparr>)"
    using r at m(3,4) attachedD(6) [OF at i] w unfolding attached_def
    by (auto simp: get_local_datatype_server_def set_rep_def)
qed

lemma attached_exchange:
  assumes at: "attached x R U s h c" and i: "i \<in> set U" and p: "create_push_pull_pack x (wd_mutable (h i)) = Ok p"
  obtains s' w c' where "do_push_pull x (LocalConnectivity_push_pull x now) i (h, c) = ((h(i := w), c'), Ok ())"
    "attached x R U s' (h(i := w)) c'" "only_moved i s s'" "wd_mutable w = sy_rep s' i"
    "cp_sseq (m_checkpoint (wd_mutable w)) = ls_sseq (sy_server s')"
    "unat (cp_cseq (m_checkpoint (wd_mutable w))) \<ge> unat (cp_cseq (m_checkpoint (wd_mutable (h i)))) + length (ppp_transactions p)"
proof -
  let ?m = "sy_rep s i" and ?srv = "sy_server s"
  note a = attachedD [OF at i]
  have b: "buffer_inv (get_cuid (m_attr ?m)) ?m" "linked (ls_history ?srv) (get_cuid (m_attr ?m)) ?m"
    using a(9,10) by (simp_all add: rep_cuid_def)
  have p': "create_push_pull_pack x ?m = Ok p" using p a(7) by simp
  have "length (ppp_transactions p) \<le> length (rep_txs s i)"
    using ask_ok [OF b(1) linked_acked [OF b(2)] p'] by (auto simp: asked_ok_def rep_txs_def)
  then have len: "length (ls_history ?srv) + length (ppp_transactions p) < 2 ^ 64" using attached_room [OF at i] by linarith
  obtain srv q m where e: "serve x now (lc_is_realtime c) (sys_heap s) ?srv p = (srv, Ok q)" "apply_pull q ?m = (m, Ok ())"
    and r: "sys_reachable x R (set_rep (s\<lparr>sy_server := srv\<rparr>) i m)" and m: "m = set_state (pulled_into q ?m) Subscribed"
      "m_checkpoint m = ppp_checkpoint q" "cp_sseq (ppp_checkpoint q) = ls_sseq srv"
      "unat (cp_cseq (ppp_checkpoint q)) = max (length (own (get_cuid (m_attr ?m)) (ls_history ?srv)))
         (unat (cp_cseq (m_checkpoint ?m)) + length (ppp_transactions p))"
    and f: "ls_wired_map srv = ls_wired_map ?srv" "ls_type srv = ls_type ?srv"
      "filter (\<lambda>t. tx_cuid t \<noteq> get_cuid (m_attr ?m)) (ls_history srv) = filter (\<lambda>t. tx_cuid t \<noteq> get_cuid (m_attr ?m)) (ls_history ?srv)"
    using subscribed_exchange [OF a(1-5) p' len, of now "lc_is_realtime c"] by blast
  have ps: "ppp_state p = Subscribed" using pack_fields(3) [OF b p'] a(4) by simp
  have id: "PushPullPack_resource_id p = Attribute_resource_id (m_attr ?m)"
    by (subst pack_contents(4) [OF buffer_unacked(1) [OF b(1) linked_acked [OF b(2)]] p'])
      (simp add: PushPullPack_resource_id_def Attribute_resource_id_def PushPullPack_new_def)
  let ?w = "(h i)\<lparr>wd_mutable := m\<rparr>"
  let ?c = "c\<lparr>lc_datatype_servers := hm_insert (Attribute_resource_id (m_attr ?m)) srv (lc_datatype_servers c)\<rparr>"
  have "serve x now (lc_is_realtime c) h ?srv p = (srv, Ok q)" using e(1) serve_subscribed_heap [OF ps] by metis
  then have "LocalConnectivity_push_pull x now h c p = (?c, Ok q)" using ps by (simp add: LocalConnectivity_push_pull_def id a(12))
  then have ex: "do_push_pull x (LocalConnectivity_push_pull x now) i (h, c) = ((h(i := ?w), ?c), Ok ())"
    using e(2) a(7,8) p' by (simp add: do_push_pull_def push_phase_def pull_phase_def WiredInterceptor_new_def)
  have mm: "m_attr m = m_attr ?m" "m_push_buffer m = m_push_buffer ?m" "m_tx_record m = m_tx_record ?m" "m_state m = Subscribed"
    by (simp_all add: m(1))
  have le: "cp_cseq (m_checkpoint ?m) \<le> cp_cseq (m_checkpoint m)" using m(2,4) by (simp add: word_le_nat_alt)
  note mv = attached_moved [OF at i r mm le f [folded rep_cuid_def], of ?w]
  have cp: "cp_sseq (m_checkpoint (wd_mutable ?w)) = ls_sseq (sy_server (set_rep (s\<lparr>sy_server := srv\<rparr>) i m))"
    "unat (cp_cseq (m_checkpoint (wd_mutable (h i)))) + length (ppp_transactions p) \<le> unat (cp_cseq (m_checkpoint (wd_mutable ?w)))"
    using m(2-4) a(7) by (simp_all add: set_rep_def)
  show thesis by (rule that [OF ex mv(2,1) _ cp]) (simp_all add: a(8) set_rep_def)
qed

text \<open>The in-memory backend keeps both contracts of theory Loop_Liveness.\<close>

lemma attached_acked:
  assumes "attached x R U s h c" "i \<in> set U" and "create_push_pull_pack x (wd_mutable (h i)) = Ok p"
    and "unat (cp_cseq (m_checkpoint m)) \<ge> unat (cp_cseq (m_checkpoint (wd_mutable (h i)))) + length (ppp_transactions p)"
  shows "cp_cseq (ppp_checkpoint p) \<le> cp_cseq (m_checkpoint m)"
proof -
  let ?C = "cp_cseq (m_checkpoint (wd_mutable (h i)))" and ?n = "length (ppp_transactions p)"
  have "unacked_kept (wd_mutable (h i))" using attached_ready [OF assms(1,2)] by (simp add: ready_def)
  then have "cp_cseq (ppp_checkpoint p) = ?C + of_nat ?n" using pack_contents(3) assms(3) by simp
  moreover have "unat (cp_cseq (m_checkpoint m)) < 2 ^ 64" using unsigned_less [of "cp_cseq (m_checkpoint m)"] by simp
  then have "unat ?C + ?n < 2 ^ 64" using assms(4) by linarith
  ultimately have "unat (cp_cseq (ppp_checkpoint p)) = unat ?C + ?n" by (metis of_nat_add of_nat_unat ucast_id unat_of_nat_u64)
  with assms(4) show ?thesis by (simp add: word_le_nat_alt)
qed

lemma attached_pack:
  assumes "attached x R U s h c" "i \<in> set U"
  obtains p where "create_push_pull_pack x (wd_mutable (h i)) = Ok p"
proof -
  let ?m = "wd_mutable (h i)"
  have "unacked_kept ?m" using attached_ready [OF assms] by (simp add: ready_def)
  then show thesis
    using get_pushing_Ok [of "cp_cseq (m_checkpoint ?m) + 1" "m_push_buffer ?m" "DEFAULT_MAX_TRANSMISSION_SIZE x"] that
    by (auto simp: create_push_pull_pack_def unacked_kept_def Let_def)
qed

interpretation locals: syncing x "LocalConnectivity_push_pull x now" i
  "\<lambda>h c. i \<in> set U \<and> (\<exists>s. attached x R U s h c \<and> only_moved i s0 s)"
  "\<lambda>h c. \<exists>s. attached x R U s h c \<and> only_moved i s0 s \<and> caught_up s i" for x now i U R s0
proof unfold_locales
  fix h c
  assume "i \<in> set U \<and> (\<exists>s. attached x R U s h c \<and> only_moved i s0 s)"
  then show "ready (h i)" using attached_ready by blast
next
  fix h c p
  assume "i \<in> set U \<and> (\<exists>s. attached x R U s h c \<and> only_moved i s0 s)" and p: "create_push_pull_pack x (wd_mutable (h i)) = Ok p"
  then obtain s where i: "i \<in> set U" and s: "attached x R U s h c" "only_moved i s0 s" by blast
  obtain s' w c' where e: "do_push_pull x (LocalConnectivity_push_pull x now) i (h, c) = ((h(i := w), c'), Ok ())"
      "attached x R U s' (h(i := w)) c'" "only_moved i s s'" "wd_mutable w = sy_rep s' i"
      "unat (cp_cseq (m_checkpoint (wd_mutable w))) \<ge> unat (cp_cseq (m_checkpoint (wd_mutable (h i)))) + length (ppp_transactions p)"
    using attached_exchange [OF s(1) i p, of now] by blast
  have "m_push_buffer (wd_mutable w) = m_push_buffer (wd_mutable (h i))"
    using only_moved_same(3) [OF e(3)] e(4) attachedD(7) [OF s(1) i] by simp
  then show "\<exists>w c'. do_push_pull x (LocalConnectivity_push_pull x now) i (h, c) = ((h(i := w), c'), Ok ()) \<and>
      (i \<in> set U \<and> (\<exists>s. attached x R U s (h(i := w)) c' \<and> only_moved i s0 s)) \<and>
      m_push_buffer (wd_mutable w) = m_push_buffer (wd_mutable (h i)) \<and>
      cp_cseq (ppp_checkpoint p) \<le> cp_cseq (m_checkpoint (wd_mutable w))"
    using e(1,2) i only_moved_trans [OF s(2) e(3)] attached_acked [OF s(1) i p e(5)] by blast
next
  fix h :: heap and c
  let ?m = "wd_mutable (h i)"
  assume "i \<in> set U \<and> (\<exists>s. attached x R U s h c \<and> only_moved i s0 s)" and n: "\<not> need_push ?m"
  then obtain s where i: "i \<in> set U" and s: "attached x R U s h c" "only_moved i s0 s" by blast
  obtain p where p: "create_push_pull_pack x ?m = Ok p" using attached_pack [OF s(1) i] by blast
  obtain s' w c' where e: "do_push_pull x (LocalConnectivity_push_pull x now) i (h, c) = ((h(i := w), c'), Ok ())"
      "attached x R U s' (h(i := w)) c'" "only_moved i s s'" "wd_mutable w = sy_rep s' i"
      "cp_sseq (m_checkpoint (wd_mutable w)) = ls_sseq (sy_server s')"
      "unat (cp_cseq (m_checkpoint (wd_mutable w))) \<ge> unat (cp_cseq (m_checkpoint ?m)) + length (ppp_transactions p)"
    using attached_exchange [OF s(1) i p, of now] by blast
  have b: "m_push_buffer (wd_mutable w) = m_push_buffer ?m"
    using only_moved_same(3) [OF e(3)] e(4) attachedD(7) [OF s(1) i] by simp
  have "pb_last_cseq (m_push_buffer ?m) \<le> cp_cseq (m_checkpoint ?m)"
    using n attached_ready [OF s(1) i] by (simp add: ready_def need_push_iff)
  then have "unat (cp_cseq (m_checkpoint (wd_mutable w))) = length (pb_transaction (m_push_buffer (wd_mutable w)))"
    using attached_ready [OF e(2) i] last_cseq [OF attachedD(9) [OF e(2) i]] e(4,6) b
    by (simp add: ready_def word_le_nat_alt)
  then have "caught_up s' i" using e(4,5) attachedD(6) [OF e(2) i] by (simp add: caught_up_def quiescent_def)
  then show "\<exists>w c'. do_push_pull x (LocalConnectivity_push_pull x now) i (h, c) = ((h(i := w), c'), Ok ()) \<and>
      (\<exists>s. attached x R U s (h(i := w)) c' \<and> only_moved i s0 s \<and> caught_up s i) \<and>
      m_push_buffer (wd_mutable w) = m_push_buffer ?m"
    using e(1,2) b only_moved_trans [OF s(2) e(3)] by blast
qed

lemma caught_up_value:
  assumes at: "attached x R U s h c" and i: "i \<in> set U" and up: "caught_up s i"
  shows "crdt_value (m_crdt (sy_rep s i)) = txs_delta (ls_history (sy_server s))"
    and "map tx_operations (own (rep_cuid s i) (ls_history (sy_server s))) = map tx_operations (rep_txs s i)"
proof -
  note a = attachedD [OF at i]
  have q: "quiescent (sy_rep s i)" "cp_sseq (m_checkpoint (sy_rep s i)) = ls_sseq (sy_server s)"
    using up by (simp_all add: caught_up_def)
  note num = order_numbers(1) [OF a(11)]
  show "crdt_value (m_crdt (sy_rep s i)) = txs_delta (ls_history (sy_server s))"
    using snapshot_of_quiescent [OF a(10) q(1)] q(2) num by simp
  show "map tx_operations (own (rep_cuid s i) (ls_history (sy_server s))) = map tx_operations (rep_txs s i)"
    using a(10) q num by (simp add: linked_def quiescent_def rep_txs_def Let_def)
qed

subsection \<open>Turns\<close>

lemma acked_moved:
  assumes at: "attached x R U s h c" "attached x R U s' h' c'" "i \<in> set U" and mv: "only_moved i s s'"
    and k: "k \<in> set U" "acked s k"
  shows "acked s' k"
proof (cases "k = i")
  case True
  note l = linked_acked [OF attachedD(10) [OF at(2) k(1)], folded rep_txs_def]
  have "cp_cseq (m_checkpoint (sy_rep s k)) \<le> cp_cseq (m_checkpoint (sy_rep s' k))" using mv True by (simp add: only_moved_def)
  with k(2) l only_moved_same(2) [OF mv, of k] show ?thesis by (simp add: acked_def word_le_nat_alt)
next
  case False
  with k(2) mv show ?thesis by (simp add: acked_def only_moved_def rep_txs_def)
qed

lemma acked_own:
  assumes at: "attached x R U s h c" "i \<in> set U" and "acked s i"
  shows "length (own (rep_cuid s i) (ls_history (sy_server s))) = length (rep_txs s i)"
proof -
  have "length (rep_txs s i) \<le> length (own (rep_cuid s i) (ls_history (sy_server s)))"
    using attachedD(10) [OF at] assms(3)
      own_take_le [of "rep_cuid s i" "unat (cp_sseq (m_checkpoint (sy_rep s i)))" "ls_history (sy_server s)"]
    by (simp add: linked_def acked_def Let_def)
  with own_bound [OF at] show ?thesis by simp
qed

text \<open>Where everything of replica \<open>i\<close> was acknowledged before, its exchanges add nothing to the order.\<close>

lemma moved_nothing:
  assumes at: "attached x R U s h c" "attached x R U s' h' c'" and i: "i \<in> set U" and mv: "only_moved i s s'" and ack: "acked s i"
  shows "ls_sseq (sy_server s') = ls_sseq (sy_server s)"
proof -
  let ?P = "\<lambda>t. tx_cuid t = rep_cuid s i" and ?H = "ls_history (sy_server s)" and ?H' = "ls_history (sy_server s')"
  have "length (filter ?P ?H') = length (filter ?P ?H)"
    using acked_own [OF at(1) i ack] acked_own [OF at(2) i acked_moved [OF at i mv i ack]]
    by (simp add: own_def only_moved_same [OF mv])
  moreover have "filter (\<lambda>t. \<not> ?P t) ?H' = filter (\<lambda>t. \<not> ?P t) ?H" using mv by (simp add: only_moved_def)
  ultimately have "length ?H' = length ?H" using sum_length_filter_compl [of ?P] by metis
  with order_numbers(1) [OF attachedD(11) [OF at(1) i]] order_numbers(1) [OF attachedD(11) [OF at(2) i]]
  show ?thesis by (simp add: word_unat_eq_iff)
qed

lemma sync_loop_simps:
  "awake sync_loop LoopState_new" "el_unbounded sync_loop = [PushTransaction (Some 0)]" "lp_responses LoopState_new = []"
  by (simp_all add: awake_def sync_loop_def EventLoop_new_def LoopState_new_def send_push_transaction_def send_to_unbounded_def)

lemma turn:
  assumes at: "attached x R U s h c" "i \<in> set U" and fit: "transmissible x (sy_rep s i)"
  obtains n s' h' c' where "sync_turn x now (i, n) (h, c) = Some (h', c')" "attached x R U s' h' c'" "only_moved i s s'" "caught_up s' i"
proof -
  have g: "i \<in> set U \<and> (\<exists>t. attached x R U t h c \<and> only_moved i s t)" using at by auto
  have "transmissible x (wd_mutable (h i))" using fit attachedD(7) [OF at] by simp
  from locals.sync_answered [OF sync_loop_simps(1) g this sync_loop_simps(2), of now] obtain n lp' w c' s' where
      "loop_run x (LocalConnectivity_push_pull x now) i (replicate (Suc n) Recv_Unbounded) (sync_loop, LoopState_new, h, c) =
        Some (sync_loop\<lparr>el_unbounded := []\<rparr>, lp', h(i := w), c')"
      "lp_responses lp' = [(0, None)]" "attached x R U s' (h(i := w)) c'" "only_moved i s s'" "caught_up s' i"
    using sync_loop_simps(3) by auto
  then show thesis by (intro that [of "Suc n" "h(i := w)" c' s']) (simp_all add: sync_turn_def del: replicate.simps)
qed

lemma one_pass:
  assumes "attached x R U s h c" and "set is \<subseteq> set U" and "\<forall>k \<in> set U. transmissible x (sy_rep s k)"
  shows "\<exists>turns s' h' c'. map fst turns = is \<and> sync_turns x now turns (h, c) = Some (h', c') \<and> attached x R U s' h' c' \<and>
    (\<forall>k. rep_cuid s' k = rep_cuid s k \<and> m_push_buffer (sy_rep s' k) = m_push_buffer (sy_rep s k)) \<and>
    (\<forall>k \<in> set U. k \<in> set is \<or> acked s k \<longrightarrow> acked s' k) \<and>
    ((\<forall>k \<in> set U. acked s k) \<longrightarrow> ls_sseq (sy_server s') = ls_sseq (sy_server s) \<and>
      (\<forall>k. k \<in> set is \<or> caught_up s k \<longrightarrow> caught_up s' k))"
  using assms
proof (induction "is" arbitrary: s h c)
  case Nil
  then show ?case by (intro exI [of _ "[]"] exI [of _ s] exI [of _ h] exI [of _ c]) simp
next
  case (Cons i js)
  have i: "i \<in> set U" and js: "set js \<subseteq> set U" using Cons.prems(2) by simp_all
  obtain n s1 h1 c1 where t: "sync_turn x now (i, n) (h, c) = Some (h1, c1)" "attached x R U s1 h1 c1" "only_moved i s s1" "caught_up s1 i"
    by (rule turn [OF Cons.prems(1) i, of now]) (use Cons.prems(3) i in blast)
  note same = only_moved_same [OF t(3)] and am = acked_moved [OF Cons.prems(1) t(2) i t(3)]
  have ack: "acked s1 i" using t(4) by (simp add: caught_up_def quiescent_def acked_def rep_txs_def)
  have "\<forall>k \<in> set U. transmissible x (sy_rep s1 k)" using Cons.prems(3) same(3) by (simp add: transmissible_def)
  from Cons.IH [OF t(2) js this] obtain turns s' h' c' where ih: "map fst turns = js"
      "sync_turns x now turns (h1, c1) = Some (h', c')" "attached x R U s' h' c'"
      "\<forall>k. rep_cuid s' k = rep_cuid s1 k \<and> m_push_buffer (sy_rep s' k) = m_push_buffer (sy_rep s1 k)"
      "\<forall>k \<in> set U. k \<in> set js \<or> acked s1 k \<longrightarrow> acked s' k"
      "(\<forall>k \<in> set U. acked s1 k) \<longrightarrow> ls_sseq (sy_server s') = ls_sseq (sy_server s1) \<and>
        (\<forall>k. k \<in> set js \<or> caught_up s1 k \<longrightarrow> caught_up s' k)" by blast
  have "ls_sseq (sy_server s') = ls_sseq (sy_server s) \<and> (\<forall>k. k \<in> set (i # js) \<or> caught_up s k \<longrightarrow> caught_up s' k)"
    if all: "\<forall>k \<in> set U. acked s k"
  proof -
    have sq: "ls_sseq (sy_server s1) = ls_sseq (sy_server s)" using moved_nothing [OF Cons.prems(1) t(2) i t(3)] all i by blast
    have "caught_up s1 k" if "caught_up s k" for k
      using that t(3,4) sq by (cases "k = i") (simp_all add: caught_up_def only_moved_def)
    with sq t(4) ih(6) all am show ?thesis by auto
  qed
  then have "((\<forall>k \<in> set U. acked s k) \<longrightarrow> ls_sseq (sy_server s') = ls_sseq (sy_server s) \<and>
      (\<forall>k. k \<in> set (i # js) \<or> caught_up s k \<longrightarrow> caught_up s' k))" by blast
  moreover have "\<forall>k \<in> set U. k \<in> set (i # js) \<or> acked s k \<longrightarrow> acked s' k" using ih(5) am ack by auto
  moreover have "sync_turns x now ((i, n) # turns) (h, c) = Some (h', c')" using t(1) ih(2) by simp
  ultimately show ?case using ih(1,3,4) same by (intro exI [of _ "(i, n) # turns"] exI [of _ s'] exI [of _ h'] exI [of _ c']) simp
qed

lemma sync_turns_append:
  "sync_turns x now (ts @ us) st = (case sync_turns x now ts st of None \<Rightarrow> None | Some st' \<Rightarrow> sync_turns x now us st')"
  by (induction ts arbitrary: st) (auto split: option.splits)

subsection \<open>Properties\<close>

text \<open>
  C12: \<open>sync\<close> catches up. A realtime replica of a system that has been run within the guards of \<open>sys_step\<close> is subscribed, between transactions, each of
  its transactions fits the transmission limit, and a \<open>sync\<close> request is the next one on its channel. Then its event
  loop, run against the in-memory backend, answers the request without an error after at most one round
  per unacknowledged transaction and one more. The system is then in a reachable state in which no other replica
  has been touched, the server's order holds every transaction of the replica, operation by operation, and
  the replica's value is the sum of the whole order.
\<close>

theorem sync_catches_up:
  assumes at: "attached x R U s h c" "i \<in> set U" and loop: "awake el lp" "el_unbounded el = PushTransaction (Some tx) # evs"
    and fit: "transmissible x (wd_mutable (h i))"
  shows "\<exists>n \<le> backlog (wd_mutable (h i)). \<exists>lp' w c' s'.
    loop_run x (LocalConnectivity_push_pull x now) i (replicate (Suc n) Recv_Unbounded) (el, lp, h, c) =
      Some (el\<lparr>el_unbounded := evs\<rparr>, lp', h(i := w), c') \<and>
    lp_responses lp' = lp_responses lp @ [(tx, None)] \<and> awake el lp' \<and>
    attached x R U s' (h(i := w)) c' \<and> only_moved i s s' \<and> caught_up s' i \<and>
    map tx_operations (own (rep_cuid s i) (ls_history (sy_server s'))) = map tx_operations (rep_txs s i) \<and>
    crdt_value (m_crdt (wd_mutable w)) = txs_delta (ls_history (sy_server s'))"
proof -
  have g: "i \<in> set U \<and> (\<exists>t. attached x R U t h c \<and> only_moved i s t)" using at by auto
  obtain n lp' w c' s' where n: "n \<le> backlog (wd_mutable (h i))"
      "loop_run x (LocalConnectivity_push_pull x now) i (replicate (Suc n) Recv_Unbounded) (el, lp, h, c) =
        Some (el\<lparr>el_unbounded := evs\<rparr>, lp', h(i := w), c')"
      "awake el lp'" "lp_responses lp' = lp_responses lp @ [(tx, None)]"
      "attached x R U s' (h(i := w)) c'" "only_moved i s s'" "caught_up s' i"
    using locals.sync_answered [OF loop(1) g fit loop(2), of now] by blast
  have "wd_mutable w = sy_rep s' i" using attachedD(7) [OF n(5) at(2)] by simp
  with n caught_up_value [OF n(5) at(2) n(7)] only_moved_same [OF n(6)] show ?thesis
    by (intro exI [of _ n] conjI exI [of _ lp'] exI [of _ w] exI [of _ c'] exI [of _ s']) simp_all
qed

lemma ex_sysD_simps:
  "sy_rep ex_sysD 0 = ex_a2" "sy_rep ex_sysD 1 = ex_b2" "sy_server ex_sysD = ex_srv2" "sy_flight ex_sysD i = Idle"
  by (simp_all add: ex_sysD_def ex_sysC_def set_rep_def)

lemma ex_a2_fields:
  "m_attr ex_a2 = ex_attr" "m_state ex_a2 = Subscribed" "pending (m_tx_record ex_a2) = None" "m_checkpoint ex_a2 = \<lparr>cp_sseq = 1, cp_cseq = 1\<rparr>"
  "pb_transaction (m_push_buffer ex_a2) = [ex_tx1]"
  by (simp_all add: ex_a2_def ex_a1_def ex_run_defs)

lemma ex_attached: "attached ex_extern ex_two [0, 1] ex_sysD (sys_heap ex_sysD) ex_local"
proof -
  have b: "m_attr ex_b2 = set_duid ex_attr_b (get_duid ex_attr)" "pending (m_tx_record ex_b2) = None"
    by (simp_all add: ex_commit_b ex_b1_def)
  have acc: "accepted_client ex_srv2 ex_a2" "accepted_client ex_srv2 ex_b2"
    unfolding accepted_client_def ex_a2_fields b
    by (simp_all add: ex_srv2_def ex_srv1_def insert_client_item_def LocalDatatypeServer_new_def ex_run_defs set_duid_def)
  have "Attribute_resource_id (m_attr ex_b2) = Attribute_resource_id ex_attr"
    unfolding b by (simp add: Attribute_resource_id_def ex_attr_b_def set_duid_def)
  moreover have "room [0, 1] ex_sysD"
    by (simp add: room_def ex_sysD_simps rep_txs_def ex_a2_fields ex_commit_b ex_srv2_def del: One_nat_def)
  moreover have "sys_reachable ex_extern ex_two ex_sysD" using ex_run_work by (simp add: ex_sysD_def)
  ultimately show ?thesis
    using acc b(2) by (simp add: attached_def ex_sysD_simps ex_a2_fields ex_commit_b ex_local_def get_local_datatype_server_def
        ex_two_def sys_heap_def WiredDatatype_new_def del: One_nat_def)
qed

lemma ex_transmissible: "\<forall>k \<in> set [0, 1]. transmissible ex_extern (sy_rep ex_sysD k)"
  by (simp add: transmissible_def ex_sysD_simps ex_a2_fields ex_commit_b ex_tx1_def ex_tx3_def Transaction_size_def
      TRANSACTION_CONSTANT_SIZE_def UID_LEN_def Operation_size_def CounterIncreaseBody_size_def
      DEFAULT_MAX_TRANSMISSION_SIZE_def ex_extern_def del: One_nat_def)

theorem sync_catches_up_witness:
  "\<exists>n \<le> 1. \<exists>lp' w c' s'.
     loop_run ex_extern (LocalConnectivity_push_pull ex_extern 0) 1 (replicate (Suc n) Recv_Unbounded)
       (sync_loop, LoopState_new, sys_heap ex_sysD, ex_local) = Some (sync_loop\<lparr>el_unbounded := []\<rparr>, lp', (sys_heap ex_sysD)(1 := w), c') \<and>
     lp_responses lp' = [(0, None)] \<and> caught_up s' 1 \<and>
     map tx_operations (own (rep_cuid ex_sysD 1) (ls_history (sy_server s'))) = [tx_operations ex_tx3]"
proof -
  have w: "wd_mutable (sys_heap ex_sysD 1) = ex_b2" by (simp add: sys_heap_def ex_sysD_simps WiredDatatype_new_def del: One_nat_def)
  have "backlog ex_b2 = 1" by (simp add: backlog_def ex_commit_b)
  moreover have "rep_txs ex_sysD 1 = [ex_tx3]" by (simp add: rep_txs_def ex_sysD_simps ex_commit_b del: One_nat_def)
  moreover have "transmissible ex_extern ex_b2" using ex_transmissible by (simp add: ex_sysD_simps del: One_nat_def)
  moreover have "(1 :: nat) \<in> set [0, 1]" by simp
  ultimately show ?thesis
    using sync_catches_up [OF ex_attached _ sync_loop_simps(1,2), of 1 0] unfolding w sync_loop_simps(3)
    by (force simp del: One_nat_def replicate.simps)
qed

text \<open>
  C3: Syncing replicas converge. Any number of subscribed replicas of a system that has been run within the guards of \<open>sys_step\<close>, each writable, between transactions, known to
  the server of the in-memory backend and with its loop in realtime mode, with whatever it has committed so far, each transaction of which fits the transmission limit, call \<open>sync\<close> in turn, and then in turn again. Every call is answered without an
  error after finitely many rounds of the caller's event loop, and then all of them have the same value, the
  sum of the server's order, which holds every transaction of each of them, operation by operation.
\<close>

theorem syncing_replicas_converge:
  assumes at: "attached x R U s h c" and fit: "\<forall>k \<in> set U. transmissible x (sy_rep s k)"
  shows "\<exists>turns s' h' c'. map fst turns = U @ U \<and> sync_turns x now turns (h, c) = Some (h', c') \<and> attached x R U s' h' c' \<and>
    (\<forall>i \<in> set U. crdt_value (m_crdt (wd_mutable (h' i))) = txs_delta (ls_history (sy_server s')) \<and>
      map tx_operations (own (rep_cuid s i) (ls_history (sy_server s'))) = map tx_operations (rep_txs s i))"
proof -
  obtain ts s1 h1 c1 where p: "map fst ts = U" "sync_turns x now ts (h, c) = Some (h1, c1)" "attached x R U s1 h1 c1"
      "\<forall>k. rep_cuid s1 k = rep_cuid s k \<and> m_push_buffer (sy_rep s1 k) = m_push_buffer (sy_rep s k)" "\<forall>k \<in> set U. acked s1 k"
    using one_pass [OF at order_refl fit, of now] by blast
  have "\<forall>k \<in> set U. transmissible x (sy_rep s1 k)" using fit p(4) by (simp add: transmissible_def)
  from one_pass [OF p(3) order_refl this, of now] p(5) obtain us s' h' c' where q: "map fst us = U"
      "sync_turns x now us (h1, c1) = Some (h', c')" "attached x R U s' h' c'"
      "\<forall>k. rep_cuid s' k = rep_cuid s1 k \<and> m_push_buffer (sy_rep s' k) = m_push_buffer (sy_rep s1 k)" "\<forall>k \<in> set U. caught_up s' k"
    by blast
  have "crdt_value (m_crdt (wd_mutable (h' i))) = txs_delta (ls_history (sy_server s')) \<and>
      map tx_operations (own (rep_cuid s i) (ls_history (sy_server s'))) = map tx_operations (rep_txs s i)" if "i \<in> set U" for i
    using caught_up_value [OF q(3) that] q(4,5) p(4) attachedD(7) [OF q(3) that] that by (simp add: rep_txs_def)
  moreover have "sync_turns x now (ts @ us) (h, c) = Some (h', c')" using p(2) q(2) by (simp add: sync_turns_append)
  ultimately show ?thesis using p(1) q(1,3) by (intro exI [of _ "ts @ us"] exI [of _ s'] exI [of _ h'] exI [of _ c']) simp
qed

theorem syncing_replicas_converge_witness:
  "\<exists>turns h' c'. \<exists>s' :: sys. map fst turns = [0, 1, 0, 1] \<and>
     sync_turns ex_extern 0 turns (sys_heap ex_sysD, ex_local) = Some (h', c') \<and>
     crdt_value (m_crdt (wd_mutable (h' 0))) = crdt_value (m_crdt (wd_mutable (h' 1))) \<and>
     map tx_operations (own (rep_cuid ex_sysD 0) (ls_history (sy_server s'))) = [tx_operations ex_tx1] \<and>
     map tx_operations (own (rep_cuid ex_sysD 1) (ls_history (sy_server s'))) = [tx_operations ex_tx3]"
proof -
  have "rep_txs ex_sysD 0 = [ex_tx1]" "rep_txs ex_sysD 1 = [ex_tx3]"
    by (simp_all add: rep_txs_def ex_sysD_simps ex_a2_fields ex_commit_b del: One_nat_def)
  moreover obtain turns h' c' and s' :: sys where c: "map fst turns = [0, 1] @ [0, 1]"
      "sync_turns ex_extern 0 turns (sys_heap ex_sysD, ex_local) = Some (h', c')"
      "\<forall>i \<in> set [0, 1]. crdt_value (m_crdt (wd_mutable (h' i))) = txs_delta (ls_history (sy_server s')) \<and>
        map tx_operations (own (rep_cuid ex_sysD i) (ls_history (sy_server s'))) = map tx_operations (rep_txs ex_sysD i)"
    using syncing_replicas_converge [OF ex_attached ex_transmissible, of 0] by blast
  ultimately show ?thesis
    by (intro exI [of _ turns] exI [of _ s'] exI [of _ h'] exI [of _ c'] conjI) (simp_all del: One_nat_def)
qed

end
