(* ===== verification/Backend_Threads.thy ===== *)
theory Backend_Threads
  imports Local_Connectivity
begin

text \<open>
  The in-memory backend under concurrent calls. \<open>register\<close> and \<open>push_pull\<close> of \<open>connectivity/local_connectivity.rs\<close>
  take the lock of the server table and the lock of one server in turn and never together, so a call is a
  short sequence of critical sections between which the sections of other calls may run. Servers
  live behind shared pointers: the table maps a resource id to the address of a server, and a call keeps the
  address it found.
\<close>

subsection \<open>Calls cut at their lock operations\<close>

record shared_backend =
  sb_table :: "(string \<times> nat) list"
  sb_servers :: "nat \<Rightarrow> LocalDatatypeServer"
  sb_next :: nat
  sb_is_realtime :: bool

definition shared_backend_new :: "(nat \<Rightarrow> LocalDatatypeServer) \<Rightarrow> shared_backend" where
  "shared_backend_new junk = \<lparr>sb_table = [], sb_servers = junk, sb_next = 0, sb_is_realtime = True\<rparr>"

datatype backend_pc =
    Reg_table nat nat
  | Reg_insert nat nat nat
  | Reg_done
  | Pp_lookup PushPullPack
  | Pp_serve PushPullPack nat
  | Pp_remove string nat PushPullPack
  | Pp_done "(PushPullPack, ConnectivityError) result"

text \<open>\<open>register\<close>: the table is locked for the lookup, then the server for the new item.\<close>

definition register_table :: "heap \<Rightarrow> nat \<Rightarrow> nat \<Rightarrow> shared_backend \<Rightarrow> backend_pc \<times> shared_backend" where
  "register_table h wired sender b =
     (let attr = m_attr (wd_mutable (h wired)); resource_id = Attribute_resource_id attr
      in case hm_get (sb_table b) resource_id of
           Some a \<Rightarrow> (Reg_insert wired sender a, b)
         | None \<Rightarrow>
             (Reg_insert wired sender (sb_next b),
              b\<lparr>sb_table := hm_insert resource_id (sb_next b) (sb_table b),
                sb_servers := (sb_servers b)(sb_next b := LocalDatatypeServer_new attr), sb_next := Suc (sb_next b)\<rparr>))"

definition register_insert :: "heap \<Rightarrow> nat \<Rightarrow> nat \<Rightarrow> nat \<Rightarrow> shared_backend \<Rightarrow> backend_pc \<times> shared_backend" where
  "register_insert h wired sender a b =
     (Reg_done, b\<lparr>sb_servers := (sb_servers b)(a :=
        insert_client_item (sb_servers b a) (wired_cuid (h wired)) wired sender)\<rparr>)"

text \<open>\<open>push_pull\<close>: the table for the lookup, the server for the request, the table again for the removal.\<close>

definition push_pull_lookup :: "PushPullPack \<Rightarrow> shared_backend \<Rightarrow> backend_pc" where
  "push_pull_lookup pushed b =
     (case hm_get (sb_table b) (PushPullPack_resource_id pushed) of
        None \<Rightarrow> Pp_done (Ok ((get_pulled_stub pushed)\<lparr>ppp_error := Some (PPE_ResourceNotFound (PushPullPack_resource_id pushed)),
                  ppp_state := Disabled\<rparr>))
      | Some a \<Rightarrow> Pp_serve pushed a)"

definition push_pull_serve ::
  "extern \<Rightarrow> SystemTime \<Rightarrow> heap \<Rightarrow> PushPullPack \<Rightarrow> nat \<Rightarrow> shared_backend \<Rightarrow> backend_pc \<times> shared_backend" where
  "push_pull_serve x now h pushed a b =
     (let (server', r) = serve x now (sb_is_realtime b) h (sb_servers b a) pushed
      in (case r of
            Ok pulled \<Rightarrow>
              (if ppp_state pushed = Unsubscribing \<and> server_is_empty server'
               then Pp_remove (PushPullPack_resource_id pushed) a pulled else Pp_done (Ok pulled))
          | _ \<Rightarrow> Pp_done r,
          b\<lparr>sb_servers := (sb_servers b)(a := server')\<rparr>))"

definition push_pull_remove :: "string \<Rightarrow> nat \<Rightarrow> PushPullPack \<Rightarrow> shared_backend \<Rightarrow> backend_pc \<times> shared_backend" where
  "push_pull_remove resource_id a pulled b =
     (Pp_done (Ok pulled),
      if hm_get (sb_table b) resource_id = Some a then b\<lparr>sb_table := hm_remove resource_id (sb_table b)\<rparr> else b)"

fun backend_section ::
  "extern \<Rightarrow> SystemTime \<Rightarrow> heap \<Rightarrow> backend_pc \<Rightarrow> shared_backend \<Rightarrow> (backend_pc \<times> shared_backend) option" where
  "backend_section x now h (Reg_table wired sender) b = Some (register_table h wired sender b)"
| "backend_section x now h (Reg_insert wired sender a) b = Some (register_insert h wired sender a b)"
| "backend_section x now h (Pp_lookup pushed) b = Some (push_pull_lookup pushed b, b)"
| "backend_section x now h (Pp_serve pushed a) b = Some (push_pull_serve x now h pushed a b)"
| "backend_section x now h (Pp_remove rid a pulled) b = Some (push_pull_remove rid a pulled b)"
| "backend_section x now h Reg_done b = None"
| "backend_section x now h (Pp_done r) b = None"

text \<open>A call on its own: its sections one after the other. A call has at most three.\<close>

fun backend_alone ::
  "extern \<Rightarrow> SystemTime \<Rightarrow> heap \<Rightarrow> nat \<Rightarrow> backend_pc \<Rightarrow> shared_backend \<Rightarrow> backend_pc \<times> shared_backend" where
  "backend_alone x now h 0 pc b = (pc, b)"
| "backend_alone x now h (Suc n) pc b =
     (case backend_section x now h pc b of None \<Rightarrow> (pc, b) | Some (pc', b') \<Rightarrow> backend_alone x now h n pc' b')"

subsection \<open>Interleaving\<close>

text \<open>
  Any number of threads; \<open>bt_registered\<close> is the log of the registrations that have returned. Replicas, which a section
  reads, may differ from section to section. \<open>allow\<close> says which requests the threads make.
\<close>

record backend_threads =
  bt_backend :: shared_backend
  bt_pc :: "nat \<Rightarrow> backend_pc option"
  bt_registered :: "(Cuid \<times> string) list"

definition set_pc :: "backend_threads \<Rightarrow> nat \<Rightarrow> backend_pc option \<Rightarrow> backend_threads" where
  "set_pc s t pc = s\<lparr>bt_pc := (bt_pc s)(t := pc)\<rparr>"

fun registered_now :: "heap \<Rightarrow> backend_pc \<Rightarrow> (Cuid \<times> string) list" where
  "registered_now h (Reg_insert wired sender a) =
     [(wired_cuid (h wired), Attribute_resource_id (m_attr (wd_mutable (h wired))))]"
| "registered_now h _ = []"

text \<open>The attributes of a datatype that name it do not change while it registers.\<close>

definition same_names :: "heap \<Rightarrow> (nat \<Rightarrow> string) \<Rightarrow> bool" where
  "same_names h ids = (\<forall>w. Attribute_resource_id (m_attr (wd_mutable (h w))) = ids w)"

inductive backend_step ::
  "extern \<Rightarrow> (DatatypeState \<Rightarrow> bool) \<Rightarrow> (nat \<Rightarrow> string) \<Rightarrow> backend_threads \<Rightarrow> backend_threads \<Rightarrow> bool" for x allow ids where
  call_register: "bt_pc s t = None \<Longrightarrow> backend_step x allow ids s (set_pc s t (Some (Reg_table wired sender)))"
| call_push_pull: "bt_pc s t = None \<Longrightarrow> own_pack p \<Longrightarrow> allow (ppp_state p) \<Longrightarrow>
    backend_step x allow ids s (set_pc s t (Some (Pp_lookup p)))"
| run_section: "bt_pc s t = Some pc \<Longrightarrow> same_names h ids \<Longrightarrow> backend_section x now h pc (bt_backend s) = Some (pc', b) \<Longrightarrow>
    backend_step x allow ids s ((set_pc s t (Some pc'))\<lparr>bt_backend := b, bt_registered := registered_now h pc @ bt_registered s\<rparr>)"
| call_returns: "bt_pc s t = Some pc \<Longrightarrow> pc = Reg_done \<or> pc = Pp_done r \<Longrightarrow> backend_step x allow ids s (set_pc s t None)"

inductive backend_reachable ::
  "extern \<Rightarrow> (DatatypeState \<Rightarrow> bool) \<Rightarrow> (nat \<Rightarrow> string) \<Rightarrow> backend_threads \<Rightarrow> bool" for x allow ids where
  backend_start: "backend_reachable x allow ids
    \<lparr>bt_backend = shared_backend_new junk, bt_pc = (\<lambda>_. None), bt_registered = []\<rparr>"
| backend_next: "backend_reachable x allow ids s \<Longrightarrow> backend_step x allow ids s s' \<Longrightarrow> backend_reachable x allow ids s'"

text \<open>Schedules: which thread starts a call, runs a section or returns next. \<open>None\<close>: it cannot.\<close>

datatype backend_move = Starts nat backend_pc | Runs nat | Returns nat

fun may_start :: "(DatatypeState \<Rightarrow> bool) \<Rightarrow> backend_pc \<Rightarrow> bool" where
  "may_start allow (Reg_table wired sender) = True"
| "may_start allow (Pp_lookup p) = (own_pack p \<and> allow (ppp_state p))"
| "may_start allow _ = False"

fun returned :: "backend_pc \<Rightarrow> bool" where
  "returned Reg_done = True"
| "returned (Pp_done r) = True"
| "returned _ = False"

fun backend_act ::
  "extern \<Rightarrow> (DatatypeState \<Rightarrow> bool) \<Rightarrow> SystemTime \<Rightarrow> heap \<Rightarrow> backend_move \<Rightarrow> backend_threads \<Rightarrow> backend_threads option" where
  "backend_act x allow now h (Starts t pc) s =
     (if bt_pc s t = None \<and> may_start allow pc then Some (set_pc s t (Some pc)) else None)"
| "backend_act x allow now h (Runs t) s =
     (case bt_pc s t of
        None \<Rightarrow> None
      | Some pc \<Rightarrow>
          (case backend_section x now h pc (bt_backend s) of
             None \<Rightarrow> None
           | Some (pc', b) \<Rightarrow>
               Some ((set_pc s t (Some pc'))\<lparr>bt_backend := b, bt_registered := registered_now h pc @ bt_registered s\<rparr>)))"
| "backend_act x allow now h (Returns t) s =
     (case bt_pc s t of None \<Rightarrow> None | Some pc \<Rightarrow> if returned pc then Some (set_pc s t None) else None)"

fun backend_schedule ::
  "extern \<Rightarrow> (DatatypeState \<Rightarrow> bool) \<Rightarrow> SystemTime \<Rightarrow> heap \<Rightarrow> backend_move list \<Rightarrow> backend_threads \<Rightarrow> backend_threads option" where
  "backend_schedule x allow now h [] s = Some s"
| "backend_schedule x allow now h (act # acts) s =
     (case backend_act x allow now h act s of None \<Rightarrow> None | Some s' \<Rightarrow> backend_schedule x allow now h acts s')"

text \<open>Two clients of one resource; the first creates the datatype and leaves, up to the removal of the server.\<close>

definition ex_heap2 :: heap where
  "ex_heap2 = (\<lambda>w. WiredDatatype_new (if w = 0 then ex_mut else ex_mut\<lparr>m_attr := ex_attr\<lparr>at_client_common :=
     (at_client_common ex_attr)\<lparr>cc_cuid := Uid ''cuid-00000000002''\<rparr>\<rparr>\<rparr>))"

definition ex_rid :: "nat \<Rightarrow> string" where
  "ex_rid = (\<lambda>_. Attribute_resource_id ex_attr)"

definition ex_idle_backend :: backend_threads where
  "ex_idle_backend = \<lparr>bt_backend = shared_backend_new (\<lambda>_. LocalDatatypeServer_new ex_attr), bt_pc = (\<lambda>_. None), bt_registered = []\<rparr>"

definition ex_create_moves :: "backend_move list" where
  "ex_create_moves = [Starts 0 (Reg_table 0 0), Runs 0, Runs 0, Returns 0,
     Starts 0 (Pp_lookup (PushPullPack_new ex_attr Creating)), Runs 0, Runs 0, Returns 0]"

definition ex_leave_moves :: "backend_move list" where
  "ex_leave_moves = [Starts 0 (Pp_lookup (PushPullPack_new ex_attr Unsubscribing)), Runs 0, Runs 0]"

definition server_resource_id :: "LocalDatatypeServer \<Rightarrow> string" where
  "server_resource_id s = make_resource_id (ls_collection s) (ls_key s)"

text \<open>
  Every entry of the table is a server for its resource, different entries are different servers, and every
  server that was ever made keeps its order.
\<close>

definition table_inv :: "shared_backend \<Rightarrow> bool" where
  "table_inv b =
     ((\<forall>r a. hm_get (sb_table b) r = Some a \<longrightarrow> a < sb_next b \<and> server_resource_id (sb_servers b a) = r) \<and>
      (\<forall>a < sb_next b. server_inv (sb_servers b a)))"

fun pc_inv :: "(nat \<Rightarrow> string) \<Rightarrow> (DatatypeState \<Rightarrow> bool) \<Rightarrow> shared_backend \<Rightarrow> backend_pc \<Rightarrow> bool" where
  "pc_inv ids allow b (Reg_insert wired sender a) = (a < sb_next b \<and> server_resource_id (sb_servers b a) = ids wired)"
| "pc_inv ids allow b (Pp_lookup p) = (own_pack p \<and> allow (ppp_state p))"
| "pc_inv ids allow b (Pp_serve p a) = (own_pack p \<and> allow (ppp_state p) \<and> a < sb_next b \<and>
     server_resource_id (sb_servers b a) = PushPullPack_resource_id p)"
| "pc_inv ids allow b (Pp_remove r a q) = (allow Unsubscribing \<and> a < sb_next b \<and> server_resource_id (sb_servers b a) = r)"
| "pc_inv ids allow b _ = True"

definition backend_inv :: "(nat \<Rightarrow> string) \<Rightarrow> (DatatypeState \<Rightarrow> bool) \<Rightarrow> backend_threads \<Rightarrow> bool" where
  "backend_inv ids allow s =
     (table_inv (bt_backend s) \<and> (\<forall>t pc. bt_pc s t = Some pc \<longrightarrow> pc_inv ids allow (bt_backend s) pc))"

definition found_inv :: "(nat \<Rightarrow> string) \<Rightarrow> backend_threads \<Rightarrow> bool" where
  "found_inv ids s =
     ((\<forall>t wired sender a. bt_pc s t = Some (Reg_insert wired sender a) \<longrightarrow> hm_get (sb_table (bt_backend s)) (ids wired) = Some a) \<and>
      (\<forall>(u, r) \<in> set (bt_registered s). \<exists>a. hm_get (sb_table (bt_backend s)) r = Some a \<and>
         hm_contains (ls_wired_map (sb_servers (bt_backend s) a)) u))"

subsection \<open>What a section leaves alone\<close>

definition server_names :: "LocalDatatypeServer \<Rightarrow> string \<times> string" where
  "server_names s = (ls_collection s, ls_key s)"

lemma server_names_simps [simp]:
  "server_names (notify_pushed s c) = server_names s" "server_names (s\<lparr>ls_wired_map := m\<rparr>) = server_names s"
  "server_names (s\<lparr>ls_sender_map := sm\<rparr>) = server_names s" "server_names (s\<lparr>ls_creator := cr\<rparr>) = server_names s"
  "server_names (s\<lparr>ls_created := tf\<rparr>) = server_names s" "server_names (s\<lparr>ls_duid := d\<rparr>) = server_names s"
  by (simp_all add: server_names_def notify_pushed_def Let_def)

lemma push_names: "push_transactions s p = (s1, c, any) \<Longrightarrow> server_names s1 = server_names s"
  by (auto simp: push_transactions_eq server_names_def Let_def)

lemma process_client_push_names: "process_client_push s p st rt = (s1, q) \<Longrightarrow> server_names s1 = server_names s"
  by (auto simp: process_client_push_def Let_def dest!: push_names split: prod.splits if_splits)

lemma serve_names: "serve x now rt h s p = (s1, r) \<Longrightarrow> server_names s1 = server_names s"
  by (cases "ppp_state p")
    (auto simp: serve_def process_creating_def process_subscribing_def process_subscribing_or_creating_def
      process_subscribed_def process_unsubscribing_def process_deleting_def process_disabled_def Let_def
      dest!: push_names process_client_push_names split: prod.splits option.splits if_splits)

lemma serve_resource_id [simp]: "server_resource_id (fst (serve x now rt h s p)) = server_resource_id s"
  using serve_names [OF prod.collapse [symmetric], of x now rt h s p] by (simp add: server_resource_id_def server_names_def)

lemma insert_resource_id [simp]: "server_resource_id (insert_client_item s c w sd) = server_resource_id s"
  by (simp add: server_resource_id_def insert_client_item_def)

lemma new_server [simp]:
  "server_resource_id (LocalDatatypeServer_new attr) = Attribute_resource_id attr" "server_inv (LocalDatatypeServer_new attr)"
  by (simp_all add: server_resource_id_def LocalDatatypeServer_new_def Attribute_resource_id_def server_inv_def own_def)

lemma serve_keeps_clients:
  "ppp_state p \<noteq> Unsubscribing \<Longrightarrow> serve x now rt h s p = (s1, r) \<Longrightarrow> ls_wired_map s1 = ls_wired_map s"
  by (cases "ppp_state p")
    (auto simp: serve_def process_creating_def process_subscribing_def process_subscribing_or_creating_def
      process_subscribed_def process_deleting_def process_disabled_def Let_def
      dest!: push_frame(1) process_client_push_frame(1) split: prod.splits option.splits if_splits)

subsection \<open>The invariants\<close>

text \<open>Servers are never taken away from the calls that hold them, and keep their names.\<close>

definition grows :: "shared_backend \<Rightarrow> shared_backend \<Rightarrow> bool" where
  "grows b b' = (sb_next b \<le> sb_next b' \<and>
     (\<forall>a < sb_next b. server_resource_id (sb_servers b' a) = server_resource_id (sb_servers b a)))"

lemma pc_inv_grows: "grows b b' \<Longrightarrow> pc_inv ids allow b pc \<Longrightarrow> pc_inv ids allow b' pc"
  by (cases pc) (auto simp: grows_def)

lemma register_table_inv:
  assumes t: "table_inv b" and n: "same_names h ids" and e: "register_table h wired sender b = (pc', b')"
  shows "table_inv b' \<and> grows b b' \<and> pc_inv ids allow b' pc'"
proof (cases "hm_get (sb_table b) (ids wired)")
  case None
  let ?attr = "m_attr (wd_mutable (h wired))"
  have id: "Attribute_resource_id ?attr = ids wired" using n by (simp add: same_names_def)
  have b': "pc' = Reg_insert wired sender (sb_next b)" "b' = b\<lparr>sb_table := hm_insert (ids wired) (sb_next b) (sb_table b),
      sb_servers := (sb_servers b)(sb_next b := LocalDatatypeServer_new ?attr), sb_next := Suc (sb_next b)\<rparr>"
    using e None id by (simp_all add: register_table_def Let_def)
  have "\<forall>r a. hm_get (sb_table b) r = Some a \<longrightarrow> a < sb_next b \<and> server_resource_id (sb_servers b a) = r"
    "\<forall>a < sb_next b. server_inv (sb_servers b a)" using t by (simp_all add: table_inv_def)
  then have "table_inv b'" unfolding table_inv_def b'(2) using id by (simp add: less_Suc_eq) fastforce
  then show ?thesis using id by (simp add: grows_def b')
next
  case (Some a)
  then have "pc' = Reg_insert wired sender a" "b' = b" using e n by (simp_all add: register_table_def same_names_def Let_def)
  with t Some show ?thesis by (simp add: grows_def table_inv_def)
qed

lemma section_inv:
  assumes t: "table_inv b" and n: "same_names h ids" and p: "pc_inv ids allow b pc"
    and e: "backend_section x now h pc b = Some (pc', b')"
  shows "table_inv b' \<and> grows b b' \<and> pc_inv ids allow b' pc'"
proof (cases pc)
  case (Reg_table wired sender)
  with register_table_inv [OF t n, of wired sender pc' b'] e show ?thesis by simp
next
  case (Reg_insert wired sender a)
  then have b': "pc' = Reg_done" "b' = b\<lparr>sb_servers := (sb_servers b)(a :=
      insert_client_item (sb_servers b a) (wired_cuid (h wired)) wired sender)\<rparr>" using e by (simp_all add: register_insert_def)
  have "table_inv b'" using t by (simp add: table_inv_def b' server_inv_insert)
  then show ?thesis by (simp add: grows_def b')
next
  case (Pp_lookup q)
  with t p e show ?thesis by (auto simp: push_pull_lookup_def table_inv_def grows_def split: option.splits)
next
  case (Pp_serve q a)
  obtain s' r where sv: "serve x now (sb_is_realtime b) h (sb_servers b a) q = (s', r)" by (metis prod.collapse)
  have s': "server_resource_id s' = server_resource_id (sb_servers b a)" using serve_resource_id [of x now _ h "sb_servers b a" q] sv by (metis fst_conv)
  have "server_inv s'" if "a < sb_next b" using server_inv_serve [OF _ _ sv] t p Pp_serve that by (simp add: table_inv_def)
  then have "table_inv (b\<lparr>sb_servers := (sb_servers b)(a := s')\<rparr>)" using t s' by (simp add: table_inv_def)
  moreover have "b' = b\<lparr>sb_servers := (sb_servers b)(a := s')\<rparr>" using e sv Pp_serve by (simp add: push_pull_serve_def)
  moreover have "pc_inv ids allow b' pc'"
    using e sv p s' Pp_serve by (auto simp: push_pull_serve_def split: result.splits if_splits)
  ultimately show ?thesis using s' by (simp add: grows_def)
next
  case (Pp_remove r a q)
  then have b': "pc' = Pp_done (Ok q)" "b' = b \<or> b' = b\<lparr>sb_table := hm_remove r (sb_table b)\<rparr>"
    using e by (auto simp: push_pull_remove_def split: if_splits)
  have "table_inv (b\<lparr>sb_table := hm_remove r (sb_table b)\<rparr>)" using t by (simp add: table_inv_def)
  with t b' show ?thesis by (elim disjE) (simp_all add: grows_def)
qed (use e in auto)

lemma set_pc_simps [simp]:
  "bt_backend (set_pc s t pc) = bt_backend s" "bt_pc (set_pc s t pc) = (bt_pc s)(t := pc)"
  "bt_registered (set_pc s t pc) = bt_registered s"
  by (simp_all add: set_pc_def)

lemma backend_inv_reachable:
  assumes "backend_reachable x allow ids s"
  shows "backend_inv ids allow s"
  using assms
proof (induction rule: backend_reachable.induct)
  case (backend_start junk)
  show ?case by (simp add: backend_inv_def table_inv_def shared_backend_new_def)
next
  case (backend_next s s')
  from backend_next.hyps(2) backend_next.IH show ?case
  proof (induction rule: backend_step.induct)
    case (run_section s t pc h now pc' b)
    have i: "table_inv (bt_backend s)" "pc_inv ids allow (bt_backend s) pc" using run_section by (auto simp: backend_inv_def)
    have "table_inv b \<and> grows (bt_backend s) b \<and> pc_inv ids allow b pc'"
      by (rule section_inv [OF i(1) run_section.hyps(2) i(2) run_section.hyps(3)])
    with run_section.prems show ?case by (auto simp: backend_inv_def intro: pc_inv_grows)
  qed (auto simp: backend_inv_def)
qed

text \<open>As long as nobody unsubscribes, entries of the table and clients of a server only accumulate.\<close>

definition keeps_clients :: "shared_backend \<Rightarrow> shared_backend \<Rightarrow> bool" where
  "keeps_clients b b' = (\<forall>r a. hm_get (sb_table b) r = Some a \<longrightarrow> hm_get (sb_table b') r = Some a \<and>
     (\<forall>u. hm_contains (ls_wired_map (sb_servers b a)) u \<longrightarrow> hm_contains (ls_wired_map (sb_servers b' a)) u))"

lemma section_keeps_clients:
  assumes t: "table_inv b" and n: "same_names h ids" and p: "pc_inv ids allow b pc" and no: "\<not> allow Unsubscribing"
    and e: "backend_section x now h pc b = Some (pc', b')"
  shows "keeps_clients b b'" and "pc' = Reg_insert wired sender a \<Longrightarrow> hm_get (sb_table b') (ids wired) = Some a"
proof -
  have lt: "a < sb_next b" if "hm_get (sb_table b) r = Some a" for r a using t that by (auto simp: table_inv_def)
  show "keeps_clients b b'"
  proof (cases pc)
    case (Reg_table w sd)
    with e n lt show ?thesis
      by (force simp: register_table_def same_names_def keeps_clients_def Let_def split: option.splits)
  next
    case (Reg_insert w sd a)
    with e show ?thesis by (auto simp: register_insert_def keeps_clients_def insert_client_item_def)
  next
    case (Pp_serve q a)
    obtain s' r where sv: "serve x now (sb_is_realtime b) h (sb_servers b a) q = (s', r)" by (metis prod.collapse)
    have "ppp_state q \<noteq> Unsubscribing" using p no Pp_serve by auto
    from serve_keeps_clients [OF this sv] e sv Pp_serve show ?thesis by (auto simp: push_pull_serve_def keeps_clients_def)
  qed (use e p no in \<open>auto simp: keeps_clients_def\<close>)
  show "hm_get (sb_table b') (ids wired) = Some a" if "pc' = Reg_insert wired sender a"
    using e n that
    by (cases pc) (auto simp: register_table_def register_insert_def push_pull_lookup_def push_pull_serve_def push_pull_remove_def
        same_names_def Let_def split: option.splits prod.splits result.splits if_splits)
qed

lemma found_inv_reachable:
  assumes "backend_reachable x allow ids s" and no: "\<not> allow Unsubscribing"
  shows "found_inv ids s"
  using assms(1)
proof (induction rule: backend_reachable.induct)
  case (backend_start junk)
  show ?case by (simp add: found_inv_def)
next
  case (backend_next s s')
  note inv = backend_inv_reachable [OF backend_next.hyps(1)]
  from backend_next.hyps(2) backend_next.IH inv show ?case
  proof (induction rule: backend_step.induct)
    case (run_section s t pc h now pc' b)
    have i: "table_inv (bt_backend s)" "pc_inv ids allow (bt_backend s) pc" using run_section by (auto simp: backend_inv_def)
    note k = section_keeps_clients [OF i(1) run_section.hyps(2) i(2) no run_section.hyps(3)]
    have g: "hm_get (sb_table (bt_backend s)) (ids w) = Some a \<Longrightarrow> hm_get (sb_table b) (ids w) = Some a" for w a
      using k(1) by (simp add: keeps_clients_def)
    have f: "hm_get (sb_table (bt_backend s)) (ids w) = Some a" if "bt_pc s t' = Some (Reg_insert w sd a)" for t' w sd a
      using run_section.prems(1) that by (simp add: found_inv_def)
    have new: "\<exists>a. hm_get (sb_table b) r = Some a \<and> hm_contains (ls_wired_map (sb_servers b a)) u"
      if "(u, r) \<in> set (registered_now h pc)" for u r
    proof (cases pc)
      case (Reg_insert w sd a)
      with that run_section.hyps(2) have "u = wired_cuid (h w)" "r = ids w" by (simp_all add: same_names_def)
      with Reg_insert run_section.hyps(1,3) f [of t w sd a] show ?thesis
        by (auto simp: register_insert_def insert_client_item_def)
    qed (use that in simp_all)
    have old: "\<exists>a. hm_get (sb_table b) r = Some a \<and> hm_contains (ls_wired_map (sb_servers b a)) u"
      if "(u, r) \<in> set (bt_registered s)" for u r
      using run_section.prems(1) that k(1) unfolding found_inv_def keeps_clients_def by blast
    from new old f g k(2) show ?case by (auto simp: found_inv_def) 
  qed (auto simp: found_inv_def)
qed

lemma backend_act_step:
  assumes "backend_act x allow now h act s = Some s'" and "same_names h ids"
  shows "backend_step x allow ids s s'"
proof (cases act)
  case (Starts t pc)
  with assms show ?thesis by (cases pc) (auto split: if_splits intro: call_register call_push_pull)
next
  case (Runs t)
  then obtain pc pc' b where "bt_pc s t = Some pc" "backend_section x now h pc (bt_backend s) = Some (pc', b)"
    "s' = (set_pc s t (Some pc'))\<lparr>bt_backend := b, bt_registered := registered_now h pc @ bt_registered s\<rparr>"
    using assms(1) by (auto split: option.splits)
  with assms(2) show ?thesis by (auto intro: run_section)
next
  case (Returns t)
  then obtain pc where pc: "bt_pc s t = Some pc" "returned pc" "s' = set_pc s t None"
    using assms(1) by (auto split: option.splits if_splits)
  then show ?thesis by (cases pc) (auto intro: call_returns)
qed

lemma backend_schedule_steps:
  assumes "backend_schedule x allow now h acts s = Some s'" and "same_names h ids"
  shows "(backend_step x allow ids)\<^sup>*\<^sup>* s s'"
  using assms(1)
proof (induction acts arbitrary: s)
  case (Cons act acts)
  then obtain s1 where "backend_act x allow now h act s = Some s1" "backend_schedule x allow now h acts s1 = Some s'"
    by (auto split: option.splits)
  with Cons.IH backend_act_step [OF _ assms(2)] show ?case by (metis converse_rtranclp_into_rtranclp)
qed simp

lemma backend_reachable_steps:
  "(backend_step x allow ids)\<^sup>*\<^sup>* s s' \<Longrightarrow> backend_reachable x allow ids s \<Longrightarrow> backend_reachable x allow ids s'"
  by (induction rule: rtranclp_induct) (auto intro: backend_next)

subsection \<open>A call on its own\<close>

definition unshared :: "shared_backend \<Rightarrow> LocalConnectivity" where
  "unshared b = \<lparr>lc_datatype_servers = map (\<lambda>(r, a). (r, sb_servers b a)) (sb_table b), lc_is_realtime = sb_is_realtime b\<rparr>"

lemma unshared_get: "get_local_datatype_server (unshared b) r = map_option (sb_servers b) (hm_get (sb_table b) r)"
  unfolding get_local_datatype_server_def unshared_def by (induction "sb_table b") (auto simp: hm_get_def map_of_map)

lemma unshared_update:
  assumes "table_inv b" and "hm_get (sb_table b) r = Some a"
  shows "get_local_datatype_server (unshared (b\<lparr>sb_servers := (sb_servers b)(a := s')\<rparr>)) r' =
    (if r' = r then Some s' else get_local_datatype_server (unshared b) r')"
proof -
  have "r' = r" if "hm_get (sb_table b) r' = Some a" using assms that unfolding table_inv_def by metis
  with assms(2) show ?thesis by (cases "hm_get (sb_table b) r'") (auto simp: unshared_get)
qed

lemma register_alone:
  assumes t: "table_inv b" and e: "backend_alone x now h (Suc (Suc n)) (Reg_table wired sender) b = (pc', b')"
  shows "pc' = Reg_done \<and> (\<forall>r. get_local_datatype_server (unshared b') r =
    get_local_datatype_server (LocalConnectivity_register (unshared b) h wired sender) r)"
proof -
  let ?attr = "m_attr (wd_mutable (h wired))"
  let ?id = "Attribute_resource_id ?attr"
  obtain a b1 where r: "register_table h wired sender b = (Reg_insert wired sender a, b1)"
    by (cases "hm_get (sb_table b) ?id") (auto simp: register_table_def Let_def)
  have t1: "table_inv b1"
    using register_table_inv [OF t _ r, of "\<lambda>w. Attribute_resource_id (m_attr (wd_mutable (h w)))"] by (simp add: same_names_def)
  have g: "hm_get (sb_table b1) ?id = Some a" "sb_servers b1 a = (case get_local_datatype_server (unshared b) ?id of
      Some s \<Rightarrow> s | None \<Rightarrow> LocalDatatypeServer_new ?attr)"
    using r by (auto simp: register_table_def Let_def unshared_get split: option.splits)
  have o: "get_local_datatype_server (unshared b1) r = get_local_datatype_server (unshared b) r" if "r \<noteq> ?id" for r
  proof -
    have "a' < sb_next b" if "hm_get (sb_table b) r = Some a'" for a' using t that by (auto simp: table_inv_def)
    with r that show ?thesis
      by (cases "hm_get (sb_table b) r") (auto simp: register_table_def Let_def unshared_get split: option.splits)
  qed
  have fin: "backend_alone x now h n Reg_done b2 = (Reg_done, b2)" for b2 by (cases n) simp_all
  have "pc' = Reg_done" "b' = b1\<lparr>sb_servers := (sb_servers b1)(a := insert_client_item (sb_servers b1 a) (wired_cuid (h wired)) wired sender)\<rparr>"
    using e r fin by (simp_all add: register_insert_def)
  then show ?thesis using unshared_update [OF t1 g(1)] o g(2)
    by (simp add: LocalConnectivity_register_def get_local_datatype_server_def Let_def)
qed

lemma push_pull_alone:
  assumes t: "table_inv b" and e: "backend_alone x now h (Suc (Suc (Suc n))) (Pp_lookup p) b = (pc', b')"
    and l: "LocalConnectivity_push_pull x now h (unshared b) p = (c, r)"
  shows "pc' = Pp_done r \<and> (\<forall>r. get_local_datatype_server (unshared b') r = get_local_datatype_server c r)"
proof -
  let ?id = "PushPullPack_resource_id p"
  have fin: "backend_alone x now h m (Pp_done r2) b2 = (Pp_done r2, b2)" for m r2 b2 by (cases m) simp_all
  show ?thesis
  proof (cases "hm_get (sb_table b) ?id")
    case None
    with e l fin [of "Suc (Suc n)"] show ?thesis
      by (auto simp: push_pull_lookup_def LocalConnectivity_push_pull_def unshared_get simp del: backend_alone.simps(2))
        (simp_all add: push_pull_lookup_def fin)
  next
    case (Some a)
    obtain s' q where sv: "serve x now (sb_is_realtime b) h (sb_servers b a) p = (s', Ok q)"
      using serve_Ok by (metis prod.collapse)
    let ?b = "b\<lparr>sb_servers := (sb_servers b)(a := s')\<rparr>"
    note up = unshared_update [OF t Some, of s']
    have rt: "lc_is_realtime (unshared b) = sb_is_realtime b" by (simp add: unshared_def)
    show ?thesis
    proof (cases "ppp_state p = Unsubscribing \<and> server_is_empty s'")
      case True
      then have "pc' = Pp_done (Ok q)" "b' = ?b\<lparr>sb_table := hm_remove ?id (sb_table b)\<rparr>"
        using e Some sv fin by (simp_all add: push_pull_lookup_def push_pull_serve_def push_pull_remove_def)
      moreover have "r = Ok q" "c = (unshared b)\<lparr>lc_datatype_servers := hm_remove ?id (lc_datatype_servers (unshared b))\<rparr>"
        using l Some sv True rt by (simp_all add: LocalConnectivity_push_pull_def unshared_get)
      moreover have "hm_get (lc_datatype_servers (unshared b)) r = get_local_datatype_server (unshared b) r" for r
        by (simp add: get_local_datatype_server_def)
      ultimately show ?thesis using up
        by (auto simp: unshared_get) (simp_all add: get_local_datatype_server_def unshared_get split: if_splits)
    next
      case False
      then have "pc' = Pp_done (Ok q)" "b' = ?b" using e Some sv fin by (auto simp: push_pull_lookup_def push_pull_serve_def)
      moreover have "r = Ok q" "c = (unshared b)\<lparr>lc_datatype_servers := hm_insert ?id s' (lc_datatype_servers (unshared b))\<rparr>"
        using l Some sv False rt by (auto simp: LocalConnectivity_push_pull_def unshared_get)
      ultimately show ?thesis using up by (simp add: get_local_datatype_server_def)
    qed
  qed
qed

subsection \<open>A run\<close>

lemma ex_names: "same_names ex_heap2 ex_rid" "PushPullPack_resource_id (PushPullPack_new ex_attr st) = ex_rid w"
  by (simp_all add: same_names_def ex_heap2_def ex_rid_def WiredDatatype_new_def Attribute_resource_id_def PushPullPack_new_def
      PushPullPack_resource_id_def ex_mut_def)

lemma ex_idle_reachable: "backend_reachable x allow ids ex_idle_backend"
  unfolding ex_idle_backend_def by (rule backend_start)

lemma ex_heap2_simps [simp]:
  "m_attr (wd_mutable (ex_heap2 0)) = ex_attr" "wired_cuid (ex_heap2 0) = get_cuid ex_attr"
  by (simp_all add: ex_heap2_def WiredDatatype_new_def ex_mut_def wired_cuid_def)

definition ex_registered_server :: LocalDatatypeServer where
  "ex_registered_server = insert_client_item (LocalDatatypeServer_new ex_attr) (get_cuid ex_attr) 0 0"

definition ex_created_server :: LocalDatatypeServer where
  "ex_created_server = fst (serve ex_extern 0 True ex_heap2 ex_registered_server (PushPullPack_new ex_attr Creating))"

lemma ex_created_facts: "ls_wired_map ex_created_server = [(get_cuid ex_attr, 0)]" "ls_creator ex_created_server = get_cuid ex_attr"
  by (simp_all add: ex_created_server_def ex_registered_server_def serve_def PushPullPack_new_def process_creating_def
      get_pulled_stub_def push_transactions_eq insert_client_item_def hm_insert_def hm_remove_def LocalDatatypeServer_new_def
      ex_attr_def Attribute_new_def set_transactional_def get_cuid_def Let_def)

lemma ex_serve_create:
  obtains q where "serve ex_extern 0 True ex_heap2 ex_registered_server (PushPullPack_new ex_attr Creating) = (ex_created_server, Ok q)"
  using serve_Ok ex_created_server_def by (metis prod.collapse)

lemma ex_serve_leave:
  obtains srv q where "serve ex_extern 0 True ex_heap2 ex_created_server (PushPullPack_new ex_attr Unsubscribing) = (srv, Ok q)"
    "server_is_empty srv"
proof -
  obtain srv q where e: "serve ex_extern 0 True ex_heap2 ex_created_server (PushPullPack_new ex_attr Unsubscribing) = (srv, Ok q)"
    using serve_Ok by (metis prod.collapse)
  obtain s1 q1 where c: "process_client_push ex_created_server (PushPullPack_new ex_attr Unsubscribing) Disabled True = (s1, q1)"
    by (metis prod.collapse)
  have "ppp_cuid (PushPullPack_new ex_attr Unsubscribing) = get_cuid ex_attr"
    "ppp_state (PushPullPack_new ex_attr Unsubscribing) = Unsubscribing" by (simp_all add: PushPullPack_new_def get_cuid_def)
  with e c process_client_push_frame [OF c] ex_created_facts have "server_is_empty srv"
    by (auto simp: serve_def process_unsubscribing_def server_is_empty_def hm_remove_def hm_contains_def Let_def split: option.splits if_splits)
  with e show thesis by (rule that)
qed

lemma ex_created:
  assumes "allow Creating"
  obtains s where "backend_schedule ex_extern allow 0 ex_heap2 ex_create_moves ex_idle_backend = Some s"
    "sb_table (bt_backend s) = [(ex_rid 0, 0)]" "bt_pc s = (\<lambda>_. None)" "bt_registered s = [(get_cuid ex_attr, ex_rid 0)]"
    "sb_servers (bt_backend s) 0 = ex_created_server" "sb_is_realtime (bt_backend s)"
proof -
  obtain q where q: "serve ex_extern 0 True ex_heap2 ex_registered_server (PushPullPack_new ex_attr Creating) = (ex_created_server, Ok q)"
    by (rule ex_serve_create)
  have f: "ppp_state (PushPullPack_new ex_attr Creating) = Creating" "own_pack (PushPullPack_new ex_attr Creating)"
    by (simp_all add: PushPullPack_new_def own_pack_def)
  let ?s = "\<lparr>bt_backend = \<lparr>sb_table = [(ex_rid 0, 0)], sb_servers = (\<lambda>_. LocalDatatypeServer_new ex_attr)(0 := ex_created_server),
      sb_next = 1, sb_is_realtime = True\<rparr>, bt_pc = (\<lambda>_. None), bt_registered = [(get_cuid ex_attr, ex_rid 0)]\<rparr>"
  have r: "Attribute_resource_id ex_attr = ex_rid 0" by (simp add: ex_rid_def)
  have "backend_schedule ex_extern allow 0 ex_heap2 ex_create_moves ex_idle_backend = Some ?s"
    using q f assms
    by (simp add: ex_create_moves_def ex_idle_backend_def shared_backend_new_def register_table_def register_insert_def
        push_pull_lookup_def push_pull_serve_def set_pc_def ex_names(2) [of _ 0] r hm_insert_def hm_remove_def
        ex_registered_server_def [symmetric] fun_upd_idem)
  from that [OF this] show thesis by simp
qed

lemma ex_leaving:
  obtains s q where "backend_reachable ex_extern (\<lambda>_. True) ex_rid s" "bt_pc s 0 = Some (Pp_remove (ex_rid 0) 0 q)"
    "hm_get (sb_table (bt_backend s)) (ex_rid 0) = Some 0" "bt_pc s 1 = None"
proof -
  let ?p = "PushPullPack_new ex_attr Unsubscribing"
  obtain s where s: "backend_schedule ex_extern (\<lambda>_. True) 0 ex_heap2 ex_create_moves ex_idle_backend = Some s"
    "sb_table (bt_backend s) = [(ex_rid 0, 0)]" "bt_pc s = (\<lambda>_. None)" "sb_servers (bt_backend s) 0 = ex_created_server"
    "sb_is_realtime (bt_backend s)" by (rule ex_created) simp_all
  obtain srv q where e: "serve ex_extern 0 True ex_heap2 ex_created_server ?p = (srv, Ok q)" "server_is_empty srv" by (rule ex_serve_leave)
  have f: "ppp_state ?p = Unsubscribing" "own_pack ?p" by (simp_all add: PushPullPack_new_def own_pack_def)
  let ?t = "s\<lparr>bt_pc := [0 \<mapsto> Pp_remove (ex_rid 0) 0 q], bt_backend := (bt_backend s)\<lparr>sb_servers := (sb_servers (bt_backend s))(0 := srv)\<rparr>\<rparr>"
  have "backend_schedule ex_extern (\<lambda>_. True) 0 ex_heap2 ex_leave_moves s = Some ?t"
    using s e f by (simp add: ex_leave_moves_def push_pull_lookup_def push_pull_serve_def set_pc_def ex_names(2) [of _ 0])
  then have "backend_reachable ex_extern (\<lambda>_. True) ex_rid ?t"
    using backend_reachable_steps backend_schedule_steps [OF _ ex_names(1)] s(1) ex_idle_reachable by metis
  then show thesis using s(2) by (intro that [of ?t q]) simp_all
qed

subsection \<open>Properties\<close>

text \<open>
  Calls on the in-memory backend without a concurrent one are the functions of theory Local_Connectivity: from every
  state the backend can be in, the sections of \<open>register\<close> and of \<open>push_pull\<close>, run one after the other, give the same
  answer and leave the same server under every resource id.
\<close>

lemma backend_calls_alone:
  assumes "backend_reachable x allow ids s" and b: "bt_backend s = b"
    and "LocalConnectivity_push_pull x now h (unshared b) p = (c, r)"
  shows "\<exists>b1 b2. backend_alone x now h 2 (Reg_table wired sender) b = (Reg_done, b1) \<and>
    (\<forall>r. get_local_datatype_server (unshared b1) r =
       get_local_datatype_server (LocalConnectivity_register (unshared b) h wired sender) r) \<and>
    backend_alone x now h 3 (Pp_lookup p) b = (Pp_done r, b2) \<and>
    (\<forall>r. get_local_datatype_server (unshared b2) r = get_local_datatype_server c r)"
proof -
  have t: "table_inv b" using backend_inv_reachable [OF assms(1)] b by (simp add: backend_inv_def)
  obtain pc1 b1 pc2 b2 where e: "backend_alone x now h (Suc (Suc 0)) (Reg_table wired sender) b = (pc1, b1)"
    "backend_alone x now h (Suc (Suc (Suc 0))) (Pp_lookup p) b = (pc2, b2)" by (metis prod.collapse)
  with register_alone [OF t e(1)] push_pull_alone [OF t e(2) assms(3)] show ?thesis
    unfolding numeral_2_eq_2 numeral_3_eq_3 by blast
qed

lemma backend_calls_alone_witness:
  "\<exists>b1 b2 c r. LocalConnectivity_push_pull ex_extern 0 ex_heap2 (unshared (bt_backend ex_idle_backend)) (PushPullPack_new ex_attr Creating) = (c, r) \<and>
     backend_alone ex_extern 0 ex_heap2 2 (Reg_table 0 0) (bt_backend ex_idle_backend) = (Reg_done, b1) \<and>
     backend_alone ex_extern 0 ex_heap2 3 (Pp_lookup (PushPullPack_new ex_attr Creating)) (bt_backend ex_idle_backend) = (Pp_done r, b2)"
proof -
  obtain c r where e: "LocalConnectivity_push_pull ex_extern 0 ex_heap2 (unshared (bt_backend ex_idle_backend)) (PushPullPack_new ex_attr Creating) = (c, r)"
    by (metis prod.collapse)
  from backend_calls_alone [OF ex_idle_reachable refl e, of 0 0] e show ?thesis by blast
qed

text \<open>
  C13: The order survives concurrency. Whatever calls interleave, at every moment every entry of the server table is a
  server of that very resource, and every server that was ever made, also one that has been taken out
  of the table while a call still holds it, has an order without gaps or duplicates that keeps the order of each client.
\<close>

theorem interleaved_servers_keep_order:
  assumes "backend_reachable x allow ids s"
  shows "(\<forall>r a. hm_get (sb_table (bt_backend s)) r = Some a \<longrightarrow>
      a < sb_next (bt_backend s) \<and> server_resource_id (sb_servers (bt_backend s) a) = r) \<and>
    (\<forall>a < sb_next (bt_backend s). let H = ls_history (sb_servers (bt_backend s) a) in
      map tx_sseq H = map (\<lambda>i. of_nat (Suc i)) [0..<length H] \<and>
      distinct (map (\<lambda>t. (tx_cuid t, tx_cseq t)) H) \<and> (\<forall>u. sorted_wrt (<) (map tx_cseq (own u H))))"
proof -
  have t: "table_inv (bt_backend s)" using backend_inv_reachable [OF assms] by (simp add: backend_inv_def)
  show ?thesis
  proof (intro conjI allI impI)
    fix r a
    assume "hm_get (sb_table (bt_backend s)) r = Some a"
    with t show "a < sb_next (bt_backend s)" "server_resource_id (sb_servers (bt_backend s) a) = r" by (simp_all add: table_inv_def)
  next
    fix a
    assume "a < sb_next (bt_backend s)"
    with t have "server_inv (sb_servers (bt_backend s) a)" by (simp add: table_inv_def)
    with server_inv_distinct [OF this] show "let H = ls_history (sb_servers (bt_backend s) a) in
      map tx_sseq H = map (\<lambda>i. of_nat (Suc i)) [0..<length H] \<and>
      distinct (map (\<lambda>t. (tx_cuid t, tx_cseq t)) H) \<and> (\<forall>u. sorted_wrt (<) (map tx_cseq (own u H)))"
      by (simp add: server_inv_def Let_def)
  qed
qed

theorem interleaved_servers_keep_order_witness:
  "\<exists>s. backend_reachable ex_extern (\<lambda>_. True) ex_rid s \<and> sb_table (bt_backend s) = [(ex_rid 0, 0)] \<and>
     server_resource_id (sb_servers (bt_backend s) 0) = ex_rid 0"
proof -
  obtain s where s: "backend_schedule ex_extern (\<lambda>_. True) 0 ex_heap2 ex_create_moves ex_idle_backend = Some s"
    "sb_table (bt_backend s) = [(ex_rid 0, 0)]" by (rule ex_created [of "\<lambda>_. True"]) simp_all
  have r: "backend_reachable ex_extern (\<lambda>_. True) ex_rid s"
    using backend_reachable_steps backend_schedule_steps [OF s(1) ex_names(1)] ex_idle_reachable by metis
  from interleaved_servers_keep_order [OF r] r s(2) show ?thesis by (intro exI [of _ s]) simp
qed

text \<open>
  C14: A registered client is found. As long as no client unsubscribes, a registration that has returned stays good whatever
  other calls interleave: the table has a server under the resource id of the client, with the client
  among its subscribers, and a \<open>push_pull\<close> call of the client is served by that server.
\<close>

theorem registered_client_found:
  assumes "backend_reachable x allow ids s" and "\<not> allow Unsubscribing"
    and "(u, r) \<in> set (bt_registered s)" and "PushPullPack_resource_id p = r"
  shows "\<exists>a. hm_get (sb_table (bt_backend s)) r = Some a \<and> push_pull_lookup p (bt_backend s) = Pp_serve p a \<and>
    hm_contains (ls_wired_map (sb_servers (bt_backend s) a)) u \<and> server_resource_id (sb_servers (bt_backend s) a) = r"
proof -
  obtain a where a: "hm_get (sb_table (bt_backend s)) r = Some a" "hm_contains (ls_wired_map (sb_servers (bt_backend s) a)) u"
    using found_inv_reachable [OF assms(1,2)] assms(3) by (auto simp: found_inv_def)
  moreover have "table_inv (bt_backend s)" using backend_inv_reachable [OF assms(1)] by (simp add: backend_inv_def)
  ultimately show ?thesis using assms(4) by (simp add: push_pull_lookup_def table_inv_def)
qed

theorem registered_client_found_witness:
  "\<exists>s a. backend_reachable ex_extern (\<lambda>st. st \<noteq> Unsubscribing) ex_rid s \<and>
     push_pull_lookup (PushPullPack_new ex_attr Subscribed) (bt_backend s) = Pp_serve (PushPullPack_new ex_attr Subscribed) a \<and>
     hm_contains (ls_wired_map (sb_servers (bt_backend s) a)) (get_cuid ex_attr)"
proof -
  let ?al = "\<lambda>st. st \<noteq> Unsubscribing"
  obtain s where s: "backend_schedule ex_extern ?al 0 ex_heap2 ex_create_moves ex_idle_backend = Some s"
    "bt_registered s = [(get_cuid ex_attr, ex_rid 0)]" by (rule ex_created [of ?al]) simp_all
  have r: "backend_reachable ex_extern ?al ex_rid s"
    using backend_reachable_steps backend_schedule_steps [OF s(1) ex_names(1)] ex_idle_reachable by metis
  have "(get_cuid ex_attr, ex_rid 0) \<in> set (bt_registered s)" using s(2) by simp
  from registered_client_found [OF r _ this ex_names(2)] r show ?thesis by blast
qed

text \<open>
  C15: Removing a server races with registering. Between the moment an unsubscribe leaves a server without
  clients and the moment it is taken out of the table nothing is locked, and the emptiness is not checked
  again. A client that registers in between is told so, becomes a subscriber of that server, and is then
  removed with it: its first request is answered with \<open>ResourceNotFound\<close>, which disables the replica.
\<close>

theorem removal_orphans_client:
  assumes reach: "backend_reachable x allow ids s" and t1: "bt_pc s t1 = Some (Pp_remove r a q0)"
    and found: "hm_get (sb_table (bt_backend s)) r = Some a" and t2: "bt_pc s t2 = None"
    and h: "same_names h ids" "ids wired = r" and m: "wd_mutable (h wired) = m" "unacked_kept m"
    and p: "create_push_pull_pack x m = Ok p" "own_pack p" "allow (m_state m)"
  shows "\<exists>s' q m' e. (backend_step x allow ids)\<^sup>*\<^sup>* s s' \<and> (wired_cuid (h wired), r) \<in> set (bt_registered s') \<and>
    hm_contains (ls_wired_map (sb_servers (bt_backend s') a)) (wired_cuid (h wired)) \<and>
    hm_get (sb_table (bt_backend s')) r = None \<and>
    bt_pc s' t2 = Some (Pp_done (Ok q)) \<and> ppp_error q = Some (PPE_ResourceNotFound r) \<and>
    apply_pull q m = (m', Err e) \<and> dewa_recovery e = Disable \<and> m_state m' = Disabled"
proof -
  have ne: "t1 \<noteq> t2" using t1 t2 by auto
  have id: "Attribute_resource_id (m_attr (wd_mutable (h wired))) = r" using h by (simp add: same_names_def)
  note pk = pack_contents(4) [OF m(2) p(1)]
  have pid: "PushPullPack_resource_id p = r" and ps: "ppp_state p = m_state m"
    using id m(1) by (subst pk, simp add: PushPullPack_resource_id_def Attribute_resource_id_def PushPullPack_new_def)+
  define q where "q = (get_pulled_stub p)\<lparr>ppp_error := Some (PPE_ResourceNotFound r), ppp_state := Disabled\<rparr>"
  let ?acts = "[Starts t2 (Reg_table wired sender), Runs t2, Runs t2, Returns t2, Runs t1, Starts t2 (Pp_lookup p), Runs t2]"
  let ?b = "(bt_backend s)\<lparr>sb_servers := (sb_servers (bt_backend s))(a :=
      insert_client_item (sb_servers (bt_backend s) a) (wired_cuid (h wired)) wired sender),
      sb_table := hm_remove r (sb_table (bt_backend s))\<rparr>"
  let ?s = "\<lparr>bt_backend = ?b, bt_pc = (bt_pc s)(t1 := Some (Pp_done (Ok q0)), t2 := Some (Pp_done (Ok q))),
      bt_registered = (wired_cuid (h wired), r) # bt_registered s\<rparr>"
  have "backend_schedule x allow now h ?acts s = Some ?s"
    using ne t1 t2 found p(2,3) ps pid id
    by (simp add: register_table_def register_insert_def push_pull_remove_def push_pull_lookup_def set_pc_def q_def fun_upd_twist)
  from backend_schedule_steps [OF this h(1)] have "(backend_step x allow ids)\<^sup>*\<^sup>* s ?s" .
  moreover have "apply_pull q m = (set_state m Disabled, routed (PushPullError_to_datatype_error (PPE_ResourceNotFound r)))"
    using apply_pull_error [of q "PPE_ResourceNotFound r" m] by (simp add: q_def)
  ultimately show ?thesis
    by (intro exI [of _ ?s] exI [of _ q]) (simp add: q_def insert_client_item_def)
qed

theorem removal_orphans_client_witness:
  "\<exists>s' q m' e. backend_reachable ex_extern (\<lambda>_. True) ex_rid s' \<and> (wired_cuid (ex_heap2 1), ex_rid 0) \<in> set (bt_registered s') \<and>
     bt_pc s' 1 = Some (Pp_done (Ok q)) \<and> ppp_error q = Some (PPE_ResourceNotFound (ex_rid 0)) \<and>
     apply_pull q (wd_mutable (ex_heap2 1)) = (m', Err e) \<and> m_state m' = Disabled"
proof -
  obtain s q where s: "backend_reachable ex_extern (\<lambda>_. True) ex_rid s" "bt_pc s 0 = Some (Pp_remove (ex_rid 0) 0 q)"
    "hm_get (sb_table (bt_backend s)) (ex_rid 0) = Some 0" "bt_pc s 1 = None" by (rule ex_leaving)
  let ?m = "wd_mutable (ex_heap2 1)"
  have k: "unacked_kept ?m" by (simp add: unacked_kept_def ex_heap2_def WiredDatatype_new_def) (simp add: MemoryPushBuffer_new_def)
  obtain p where p: "create_push_pull_pack ex_extern ?m = Ok p"
    using get_pushing_Ok [of "cp_cseq (m_checkpoint ?m) + 1" "m_push_buffer ?m" "DEFAULT_MAX_TRANSMISSION_SIZE ex_extern"] k
    by (auto simp: create_push_pull_pack_def unacked_kept_def Let_def)
  have "pb_transaction (m_push_buffer ?m) = []" by (simp add: ex_heap2_def WiredDatatype_new_def MemoryPushBuffer_new_def)
  then have o: "own_pack p" using pack_contents(1) [OF k p] by (auto simp: own_pack_def)
  have "ex_rid 1 = ex_rid 0" by (simp add: ex_rid_def)
  from removal_orphans_client [OF s ex_names(1) this refl k p o] s(1) backend_reachable_steps show ?thesis by blast
qed

end
