(* ===== verification/Transactional.thy ===== *)
theory Transactional
  imports Event_Loop
begin

text \<open>
  The transactional layer (\<open>datatypes/transactional.rs\<close>, \<open>utils/defer_guard.rs\<close>,
  \<open>utils/no_guard_mutex.rs\<close>): who owns the transaction in progress, the guard that ends it when
  a call returns, and the API calls. A context is compared by address, so it carries an identity;
  an address freshly allocated by a call is an argument.
\<close>

subsection \<open>TransactionContext, DeferGuard, NoGuardMutex\<close>

record TransactionContext =
  tc_id :: nat
  tc_tag :: "string option"

definition TransactionContext_new :: "nat \<Rightarrow> string \<Rightarrow> TransactionContext" where
  "TransactionContext_new addr tag = \<lparr>tc_id = addr, tc_tag = Some tag\<rparr>"

definition TransactionContext_default :: "nat \<Rightarrow> TransactionContext" where
  "TransactionContext_default addr = \<lparr>tc_id = addr, tc_tag = None\<rparr>"

definition has_tag :: "TransactionContext \<Rightarrow> bool" where
  "has_tag self = (tc_tag self \<noteq> None)"

definition TransactionContext_eq :: "TransactionContext \<Rightarrow> TransactionContext \<Rightarrow> bool" where
  "TransactionContext_eq self other = (tc_id self = tc_id other)"

text \<open>The closures a guard can hold, by name.\<close>

datatype DeferFunc = Defer_end_transaction "string option" | Defer_unlock_op

record DeferGuard =
  dg_defer_func_lifo :: "DeferFunc list"
  dg_committed :: bool

definition DeferGuard_new :: DeferGuard where
  "DeferGuard_new = \<lparr>dg_defer_func_lifo = [], dg_committed = False\<rparr>"

definition add_defer_func :: "DeferGuard \<Rightarrow> DeferFunc \<Rightarrow> DeferGuard" where
  "add_defer_func self f = self\<lparr>dg_defer_func_lifo := dg_defer_func_lifo self @ [f]\<rparr>"

definition guard_commit :: "DeferGuard \<Rightarrow> DeferGuard" where
  "guard_commit self = self\<lparr>dg_committed := True\<rparr>"

text \<open>A raw mutex is its locked bit; \<open>lock\<close> blocks (\<open>None\<close>) on a locked one.\<close>

definition mutex_lock :: "bool \<Rightarrow> bool option" where
  "mutex_lock locked = (if locked then None else Some True)"

definition mutex_unlock :: "bool \<Rightarrow> bool" where
  "mutex_unlock locked = (if locked then False else locked)"

subsection \<open>TransactionalDatatype\<close>

record TransactionalDatatype =
  td_mutable :: MutableDatatype
  td_tx_ctx :: "TransactionContext option"
  td_op_mutex :: bool
  td_tx_mutex :: bool
  td_event_loop :: EventLoop

datatype BeginTransactionResult = BeginTx DeferGuard | SameCtx | OtherCtx

definition TransactionalDatatype_new ::
  "nat \<Rightarrow> bool \<Rightarrow> Attribute \<Rightarrow> DatatypeState \<Rightarrow> (usize \<times> DatatypeHandler) list \<Rightarrow>
   (TransactionalDatatype, unit) result" where
  "TransactionalDatatype_new addr is_realtime attr state handlers =
     (case MutableDatatype_new (set_transactional attr addr) state handlers of
        Ok m \<Rightarrow> Ok \<lparr>td_mutable = m, td_tx_ctx = None, td_op_mutex = False, td_tx_mutex = False,
                    td_event_loop = EventLoop_new is_realtime\<rparr>
      | Err e \<Rightarrow> Err e
      | Panic msg \<Rightarrow> Panic msg)"

definition td_get_key :: "TransactionalDatatype \<Rightarrow> string" where
  "td_get_key self = at_key (m_attr (td_mutable self))"

definition td_get_type :: "TransactionalDatatype \<Rightarrow> DataType" where
  "td_get_type self = at_type (m_attr (td_mutable self))"

definition td_get_state :: "TransactionalDatatype \<Rightarrow> DatatypeState" where
  "td_get_state self = m_state (td_mutable self)"

definition td_get_server_version :: "TransactionalDatatype \<Rightarrow> u64" where
  "td_get_server_version self = cp_sseq (m_checkpoint (td_mutable self))"

definition td_get_client_version :: "TransactionalDatatype \<Rightarrow> u64" where
  "td_get_client_version self = oid_cseq (m_op_id (td_mutable self))"

definition td_get_synced_client_version :: "TransactionalDatatype \<Rightarrow> u64" where
  "td_get_synced_client_version self = cp_cseq (m_checkpoint (td_mutable self))"

definition check_writable :: "TransactionalDatatype \<Rightarrow> (unit, DatatypeError) result" where
  "check_writable self =
     (if \<not> is_read_writable (td_get_state self)
      then Err (NotWritable (''Datatype '' @ [CHR 0x27] @ td_get_key self @ [CHR 0x27] @
             '' cannot be modified for '' @ DatatypeState_display (td_get_state self) @ '' state''))
      else if at_is_readonly (m_attr (td_mutable self)) then Err ReadonlyViolation
      else Ok ())"

definition check_disabled :: "TransactionalDatatype \<Rightarrow> string \<Rightarrow> (unit, DatatypeError) result" where
  "check_disabled self op =
     (if td_get_state self = Disabled then Err (NotWritable (op @ '' is not allowed in Disabled state''))
      else Ok ())"

definition check_subscribed :: "TransactionalDatatype \<Rightarrow> string \<Rightarrow> (unit, DatatypeError) result" where
  "check_subscribed self op =
     (if td_get_state self \<noteq> Subscribed
      then Err (NotWritable (op @ '' is only allowed in Subscribed state, current state is '' @
             DatatypeState_display (td_get_state self)))
      else Ok ())"

text \<open>\<open>sync\<close>: the request; what it returns is \<open>await_response\<close> of what the loop sends back.\<close>

definition td_sync :: "TransactionalDatatype \<Rightarrow> nat \<Rightarrow> TransactionalDatatype \<times> (unit, DatatypeError) result" where
  "td_sync self resp_tx =
     and_then (self, check_disabled self ''sync'')
       (\<lambda>s _. (let (el, r) = send_push_transaction (td_event_loop s) resp_tx
               in (s\<lparr>td_event_loop := el\<rparr>, r)))"

definition td_unsubscribe :: "TransactionalDatatype \<Rightarrow> TransactionalDatatype \<times> (unit, DatatypeError) result" where
  "td_unsubscribe self =
     and_then (self, check_subscribed self ''unsubscribe'')
       (\<lambda>s _. (s\<lparr>td_mutable := set_state (td_mutable s) Unsubscribing,
                 td_event_loop := send_push_transaction_with_best_effort (td_event_loop s)\<rparr>, Ok ()))"

definition td_set_handler :: "TransactionalDatatype \<Rightarrow> usize \<Rightarrow> DatatypeHandler \<Rightarrow> TransactionalDatatype" where
  "td_set_handler self i handler = self\<lparr>td_mutable := mutable_set_handler (td_mutable self) i handler\<rparr>"

definition td_unset_handler ::
  "TransactionalDatatype \<Rightarrow> usize \<Rightarrow> bool \<Rightarrow> TransactionalDatatype \<times> DatatypeHandler option" where
  "td_unset_handler self i shared =
     (let (m, old) = mutable_unset_handler (td_mutable self) i shared in (self\<lparr>td_mutable := m\<rparr>, old))"

definition td_drop :: "TransactionalDatatype \<Rightarrow> nat \<Rightarrow> TransactionalDatatype" where
  "td_drop self stop_tx = self\<lparr>td_event_loop := send_stop (td_event_loop self) stop_tx\<rparr>"

subsection \<open>Transactions\<close>

definition begin_transaction ::
  "TransactionalDatatype \<Rightarrow> nat \<Rightarrow> TransactionContext \<Rightarrow> TransactionalDatatype \<times> BeginTransactionResult" where
  "begin_transaction self fresh tx_ctx =
     (case td_tx_ctx self of
        None \<Rightarrow>
          (let curr_tx_ctx = (if has_tag tx_ctx then tx_ctx else TransactionContext_default fresh)
           in (self\<lparr>td_tx_ctx := Some curr_tx_ctx\<rparr>,
               BeginTx (add_defer_func DeferGuard_new (Defer_end_transaction (tc_tag curr_tx_ctx)))))
      | Some self_tx_ctx \<Rightarrow>
          (self, if TransactionContext_eq self_tx_ctx tx_ctx then SameCtx else OtherCtx))"

text \<open>
  Ending a transaction in the replica, with the notification of the handlers (who are called after the
  lock is released). A panic unwinds before the context and the mutex are released.
\<close>

definition end_critical :: "TransactionalDatatype \<Rightarrow> string option \<Rightarrow> bool \<Rightarrow> TransactionalDatatype \<times> bool" where
  "end_critical self tag committed =
     (let (m, r) = end_transaction (td_mutable self) tag committed;
          s1 = self\<lparr>td_mutable := m\<rparr>
      in case r of
           Ok True \<Rightarrow>
             (s1\<lparr>td_event_loop := send_push_transaction_with_best_effort (td_event_loop s1)\<rparr>, False)
         | Ok False \<Rightarrow> (s1, False)
         | Err dewa \<Rightarrow>
             (let (m2, r2) = apply_action (td_mutable s1) (dewa_recovery dewa)
              in if is_panic r2 then (s1\<lparr>td_mutable := m2\<rparr>, True)
                 else (s1\<lparr>td_mutable := call_error_handler m2 (dewa_error dewa)\<rparr>, False))
         | Panic _ \<Rightarrow> (s1, True))"

definition td_end_transaction :: "TransactionalDatatype \<Rightarrow> string option \<Rightarrow> bool \<Rightarrow> TransactionalDatatype" where
  "td_end_transaction self tag committed =
     (let (s2, panicked) = end_critical self tag committed
      in if panicked then s2
         else s2\<lparr>td_tx_ctx := None, td_tx_mutex := mutex_unlock (td_tx_mutex s2)\<rparr>)"

text \<open>Dropping a guard: its functions run in reverse order of registration.\<close>

fun run_defer :: "bool \<Rightarrow> DeferFunc \<Rightarrow> TransactionalDatatype \<Rightarrow> TransactionalDatatype" where
  "run_defer committed (Defer_end_transaction tag) self = td_end_transaction self tag committed"
| "run_defer committed Defer_unlock_op self = self\<lparr>td_op_mutex := mutex_unlock (td_op_mutex self)\<rparr>"

definition drop_guard :: "DeferGuard \<Rightarrow> TransactionalDatatype \<Rightarrow> TransactionalDatatype" where
  "drop_guard dg self = fold (run_defer (dg_committed dg)) (rev (dg_defer_func_lifo dg)) self"

text \<open>
  One attempt of a call: \<open>None\<close> means that it waits, because another context owns the
  transaction (\<open>OtherCtx\<close>, the loop goes round) or a mutex is held.
\<close>

definition op_section ::
  "TransactionalDatatype \<Rightarrow> DeferGuard \<Rightarrow> Operation \<Rightarrow>
   (TransactionalDatatype \<times> (ReturnType, DatatypeError) result) option" where
  "op_section self dg op =
     (case mutex_lock (td_op_mutex self) of
        None \<Rightarrow> None
      | Some locked \<Rightarrow>
          (let s1 = self\<lparr>td_op_mutex := locked\<rparr>;
               dg1 = add_defer_func dg Defer_unlock_op;
               (m, r) = execute_local_operation (td_mutable s1) op;
               dg2 = (if is_ok r then guard_commit dg1 else dg1)
           in Some (drop_guard dg2 (s1\<lparr>td_mutable := m\<rparr>), r)))"

definition execute_local_operation_as_tx ::
  "TransactionalDatatype \<Rightarrow> nat \<Rightarrow> TransactionContext \<Rightarrow> Operation \<Rightarrow>
   (TransactionalDatatype \<times> (ReturnType, DatatypeError) result) option" where
  "execute_local_operation_as_tx self fresh tx_ctx op =
     (case check_writable self of
        Err e \<Rightarrow> Some (self, Err e)
      | Panic msg \<Rightarrow> Some (self, Panic msg)
      | Ok _ \<Rightarrow>
          (let (s1, b) = begin_transaction self fresh tx_ctx
           in case b of
                BeginTx dg \<Rightarrow> op_section s1 dg op
              | SameCtx \<Rightarrow> op_section s1 DeferGuard_new op
              | OtherCtx \<Rightarrow> None))"

text \<open>The user's function is an argument; it runs calls on the same datatype.\<close>

type_synonym tx_func = "TransactionalDatatype \<Rightarrow> (TransactionalDatatype \<times> (unit, DatatypeError) result) option"

definition do_transaction ::
  "TransactionalDatatype \<Rightarrow> nat \<Rightarrow> TransactionContext \<Rightarrow> tx_func \<Rightarrow>
   (TransactionalDatatype \<times> (unit, DatatypeError) result) option" where
  "do_transaction self fresh tx_ctx tx_func =
     (let (s1, b) = begin_transaction self fresh tx_ctx
      in case b of
           BeginTx dg \<Rightarrow>
             (case mutex_lock (td_tx_mutex s1) of
                None \<Rightarrow> None
              | Some locked \<Rightarrow>
                  (case tx_func (s1\<lparr>td_tx_mutex := locked\<rparr>) of
                     None \<Rightarrow> None
                   | Some (s2, r) \<Rightarrow>
                       Some (drop_guard (if is_ok r then guard_commit dg else dg) s2, r)))
         | SameCtx \<Rightarrow> Some (s1, Panic ''do_transaction should not be called concurrently with same context'')
         | OtherCtx \<Rightarrow> None)"

text \<open>No transaction in progress, no mutex held, writes allowed.\<close>

definition idle :: "TransactionalDatatype \<Rightarrow> bool" where
  "idle td = (td_tx_ctx td = None \<and> \<not> td_op_mutex td \<and> \<not> td_tx_mutex td \<and>
     pending (m_tx_record (td_mutable td)) = None \<and> check_writable td = Ok ())"

text \<open>A transaction of the given context in progress, between two of its operations.\<close>

definition in_tx :: "TransactionContext \<Rightarrow> TransactionalDatatype \<Rightarrow> bool" where
  "in_tx ctx td = (td_tx_ctx td = Some ctx \<and> \<not> td_op_mutex td \<and> check_writable td = Ok ())"

subsection \<open>Closed forms\<close>

lemma mutex_unlock [simp]: "mutex_unlock b = False"
  by (simp add: mutex_unlock_def)

lemma check_writable_cong:
  assumes "m_state (td_mutable td') = m_state (td_mutable td)" and "m_attr (td_mutable td') = m_attr (td_mutable td)"
  shows "check_writable td' = check_writable td"
  using assms by (simp add: check_writable_def td_get_state_def td_get_key_def)

lemma execute_local_operation_frame:
  assumes "execute_local_operation m op = (m', r)"
  shows "m_state m' = m_state m" "m_attr m' = m_attr m" "m_checkpoint m' = m_checkpoint m"
    "m_push_buffer m' = m_push_buffer m" "m_handlers m' = m_handlers m" "m_effects m' = m_effects m"
  using assms
  by (auto simp: execute_local_operation_def Let_def split: prod.splits if_splits)

lemma same_ctx_op:
  assumes "in_tx ctx td"
  shows "execute_local_operation_as_tx td fresh ctx op =
    Some (td\<lparr>td_mutable := fst (execute_local_operation (td_mutable td) op)\<rparr>,
          snd (execute_local_operation (td_mutable td) op))"
  using assms
  by (simp add: in_tx_def execute_local_operation_as_tx_def begin_transaction_def TransactionContext_eq_def
      op_section_def mutex_lock_def drop_guard_def add_defer_func_def DeferGuard_new_def guard_commit_def
      case_prod_beta Let_def)

lemma in_tx_op:
  assumes "in_tx ctx td"
  shows "in_tx ctx (td\<lparr>td_mutable := fst (execute_local_operation (td_mutable td) op)\<rparr>)"
proof -
  obtain m r where e: "execute_local_operation (td_mutable td) op = (m, r)" by (metis prod.collapse)
  have "check_writable (td\<lparr>td_mutable := m\<rparr>) = check_writable td"
    by (rule check_writable_cong) (simp_all add: execute_local_operation_frame [OF e])
  with assms e show ?thesis by (simp add: in_tx_def)
qed

lemma idle_op:
  assumes "idle td"
  shows "execute_local_operation_as_tx td fresh ctx op =
    (let (m, r) = execute_local_operation (td_mutable td) op
     in Some (td_end_transaction (td\<lparr>td_tx_ctx := Some (if has_tag ctx then ctx else TransactionContext_default fresh),
          td_mutable := m, td_op_mutex := False\<rparr>) (tc_tag ctx) (is_ok r), r))"
  using assms
  by (simp add: idle_def execute_local_operation_as_tx_def begin_transaction_def op_section_def mutex_lock_def
      drop_guard_def add_defer_func_def DeferGuard_new_def guard_commit_def
      TransactionContext_default_def has_tag_def case_prod_beta Let_def)

lemma td_end_rollback:
  assumes "do_rollback (td_mutable td) = (m', Ok ())"
  shows "td_end_transaction td tag False =
    td\<lparr>td_mutable := m', td_tx_ctx := None, td_tx_mutex := False\<rparr>"
  using assms by (simp add: td_end_transaction_def end_critical_def end_transaction_def Let_def)

text \<open>Ending with commit: the transaction is buffered and a push requested, or rolled back and reported.\<close>

lemma td_end_commit:
  assumes none: "pending (m_tx_record m) = None" and ops: "list_all counter_op ops" "ops \<noteq> []"
    and exec: "execute_local_operations m ops = (m1, r)" and td: "td_mutable td = m1"
  obtains (committed) pb' txr where
      "enqueue (m_push_buffer m) (set_tag (tx_of (m_op_id m) ops) tag) = (pb', Ok ())"
      "td_end_transaction td tag True = td\<lparr>td_mutable :=
         m\<lparr>m_crdt := fold crdt_apply ops (m_crdt m),
            m_op_id := (m_op_id m)\<lparr>oid_lamport := oid_lamport (m_op_id m) + of_nat (length ops),
                                   oid_cseq := oid_cseq (m_op_id m) + 1\<rparr>,
            m_tx_record := txr, m_push_buffer := pb'\<rparr>,
         td_event_loop := send_push_transaction_with_best_effort (td_event_loop td),
         td_tx_ctx := None, td_tx_mutex := False\<rparr>"
      "pending txr = None"
  | (full) err txr e where "td_end_transaction td tag True =
        td\<lparr>td_mutable := call_error_handler (m\<lparr>m_tx_record := txr\<rparr>) err,
           td_tx_ctx := None, td_tx_mutex := False\<rparr>" "pending txr = None"
      "enqueue (m_push_buffer m) (set_tag (tx_of (m_op_id m) ops) tag) = (m_push_buffer m, Err e)" "dewa_error e = err"
proof (cases rule: commit_cases [OF none ops exec, of tag, case_names committed full])
  case (committed pb' txr)
  then show ?thesis
    by (intro that(1) [OF committed(1), of txr]) (simp_all add: td_end_transaction_def end_critical_def td Let_def)
next
  case (full m2 e txr)
  then show ?thesis
    by (intro that(2) [of txr "dewa_error e" e]) (simp_all add: td_end_transaction_def end_critical_def td Let_def)
qed

end
