(* ===== verification/Counter.thy ===== *)
theory Counter
  imports Transactional
begin

text \<open>
  The counter (\<open>datatypes/counter.rs\<close>): the handle a user holds, the address of its core
  datatype and the context its calls run under. The state of the core is an argument of each call.
\<close>

record Counter =
  ct_datatype :: nat
  ct_tx_ctx :: TransactionContext

definition Counter_new :: "nat \<Rightarrow> nat \<Rightarrow> Counter" where
  "Counter_new datatype addr = \<lparr>ct_datatype = datatype, ct_tx_ctx = TransactionContext_default addr\<rparr>"

definition increase_by ::
  "SystemTime \<Rightarrow> nat \<Rightarrow> Counter \<Rightarrow> i64 \<Rightarrow> TransactionalDatatype \<Rightarrow>
   (TransactionalDatatype \<times> (i64, DatatypeError) result) option" where
  "increase_by now fresh self d td =
     (case execute_local_operation_as_tx td fresh (ct_tx_ctx self) (new_counter_increase now d) of
        None \<Rightarrow> None
      | Some (td1, r) \<Rightarrow>
          Some (td1, case r of
                       Ok (Return_Counter cv) \<Rightarrow> Ok cv
                     | Ok _ \<Rightarrow> Err (into_error (ExecuteOperation ''unexpected return type''))
                     | Err e \<Rightarrow> Err e
                     | Panic msg \<Rightarrow> Panic msg))"

definition increase ::
  "SystemTime \<Rightarrow> nat \<Rightarrow> Counter \<Rightarrow> TransactionalDatatype \<Rightarrow>
   (TransactionalDatatype \<times> (i64, DatatypeError) result) option" where
  "increase now fresh self td = increase_by now fresh self 1 td"

definition get_value :: "TransactionalDatatype \<Rightarrow> i64" where
  "get_value td = crdt_value (m_crdt (td_mutable td))"

text \<open>
  The user's closure gets a handle with the context of this transaction and returns \<open>Ok\<close> or an
  error message.
\<close>

type_synonym counter_func = "Counter \<Rightarrow> TransactionalDatatype \<Rightarrow> (TransactionalDatatype \<times> (unit, string) result) option"

definition transaction ::
  "nat \<Rightarrow> Counter \<Rightarrow> string \<Rightarrow> counter_func \<Rightarrow> TransactionalDatatype \<Rightarrow>
   (TransactionalDatatype \<times> (unit, DatatypeError) result) option" where
  "transaction fresh self tag tx_func td =
     (case check_writable td of
        Err e \<Rightarrow> Some (td, Err e)
      | Panic msg \<Rightarrow> Some (td, Panic msg)
      | Ok _ \<Rightarrow>
          (let this_tx_ctx = TransactionContext_new fresh tag;
               do_tx_func = (\<lambda>td1. map_option (\<lambda>(td2, r). (td2, map_err TransactionFailed r))
                               (tx_func (self\<lparr>ct_tx_ctx := this_tx_ctx\<rparr>) td1))
           in do_transaction td fresh this_tx_ctx do_tx_func))"

text \<open>A closure that increases by each of the given amounts and then returns the verdict.\<close>

fun script :: "SystemTime \<Rightarrow> i64 list \<Rightarrow> (unit, string) result \<Rightarrow> counter_func" where
  "script now [] verdict c td = Some (td, verdict)"
| "script now (d # ds) verdict c td =
     (case increase_by now 0 c d td of
        None \<Rightarrow> None
      | Some (td1, _) \<Rightarrow> script now ds verdict c td1)"

definition increases :: "SystemTime \<Rightarrow> i64 list \<Rightarrow> Operation list" where
  "increases now ds = map (new_counter_increase now) ds"

definition ex_td :: TransactionalDatatype where
  "ex_td = \<lparr>td_mutable = ex_mut, td_tx_ctx = None, td_op_mutex = False, td_tx_mutex = False,
     td_event_loop = EventLoop_new True\<rparr>"

subsection \<open>Running a closure\<close>

lemma increases_simps [simp]:
  "increases now [] = []" "increases now (d # ds) = new_counter_increase now d # increases now ds"
  "list_all counter_op (increases now ds)" "ops_delta (increases now ds) = sum_list ds"
  "increases now ds = [] \<longleftrightarrow> ds = []" "map op_delta (stamped l (increases now ds)) = ds"
  by (induction ds arbitrary: l) (auto simp: increases_def)

lemma execute_local_operations_Cons:
  assumes "execute_local_operation m op = (m', Ok v)"
  shows "fst (execute_local_operations m (op # ops)) = fst (execute_local_operations m' ops)"
  using assms by (cases "execute_local_operations m' ops"; cases "snd (execute_local_operations m' ops)") auto

lemma script_in_tx:
  "in_tx ctx td \<Longrightarrow> script now ds verdict (c\<lparr>ct_tx_ctx := ctx\<rparr>) td =
     Some (td\<lparr>td_mutable := fst (execute_local_operations (td_mutable td) (increases now ds))\<rparr>, verdict)"
proof (induction ds arbitrary: td)
  case (Cons d ds)
  let ?op = "new_counter_increase now d"
  obtain m' v where op: "execute_local_operation (td_mutable td) ?op = (m', Ok (Return_Counter v))"
    by (simp add: execute_local_operation_counter)
  have "in_tx ctx (td\<lparr>td_mutable := m'\<rparr>)" using in_tx_op [OF Cons.prems, of ?op] op by simp
  from Cons.IH [OF this] same_ctx_op [OF Cons.prems, of 0 ?op] op show ?case
    by (simp add: increase_by_def execute_local_operations_Cons [OF op] del: execute_local_operations.simps)
qed simp

lemma idle_cong:
  assumes "idle td" and "td_tx_ctx td' = None" "\<not> td_op_mutex td'" "\<not> td_tx_mutex td'"
    and "pending (m_tx_record (td_mutable td')) = None" "m_state (td_mutable td') = m_state (td_mutable td)"
    "m_attr (td_mutable td') = m_attr (td_mutable td)"
  shows "idle td'"
  using assms check_writable_cong [OF assms(6,7)] by (simp add: idle_def)

text \<open>No transaction under way and no lock held; the record may still hold operations.\<close>

definition free :: "TransactionalDatatype \<Rightarrow> bool" where
  "free td = (td_tx_ctx td = None \<and> \<not> td_op_mutex td \<and> \<not> td_tx_mutex td \<and> check_writable td = Ok ())"

lemma idle_free: "idle td \<longleftrightarrow> free td \<and> pending (m_tx_record (td_mutable td)) = None"
  by (auto simp: idle_def free_def)

lemma transaction_run:
  assumes free: "free td" and exec: "execute_local_operations (td_mutable td) (increases now ds) = (m1, r)"
  shows "\<exists>td1. transaction fresh c tag (script now ds v) td =
      Some (td_end_transaction td1 (Some tag) (is_ok v), map_err TransactionFailed v) \<and> td_mutable td1 = m1 \<and>
      \<not> td_op_mutex td1 \<and> td_event_loop td1 = td_event_loop td"
proof -
  let ?ctx = "TransactionContext_new fresh tag"
  let ?td1 = "td\<lparr>td_tx_ctx := Some ?ctx, td_tx_mutex := True\<rparr>"
  have "check_writable ?td1 = check_writable td" by (rule check_writable_cong) simp_all
  with free have "in_tx ?ctx ?td1" by (simp add: in_tx_def free_def)
  from script_in_tx [OF this, of now ds v c] exec free show ?thesis
    by (intro exI [of _ "?td1\<lparr>td_mutable := m1\<rparr>"], cases v)
      (simp_all add: transaction_def do_transaction_def begin_transaction_def has_tag_def free_def
        TransactionContext_new_def mutex_lock_def drop_guard_def add_defer_func_def DeferGuard_new_def guard_commit_def
        Let_def)
qed

lemma rollback_of_increases:
  assumes "pending (m_tx_record m) = None" and "execute_local_operations m (increases now ds) = (m1, r)"
  shows "\<exists>txr. do_rollback m1 = (m\<lparr>m_tx_record := txr\<rparr>, Ok ()) \<and> pending txr = None"
proof -
  obtain txr where e: "end_transaction m1 None False = (m\<lparr>m_tx_record := txr\<rparr>, Ok False)" "pending txr = None"
    using rollback_exact [OF assms(1) increases_simps(3) assms(2), of None] by blast
  obtain m' r' where rb: "do_rollback m1 = (m', r')" by (metis prod.collapse)
  have "r' \<noteq> Err er" for er
    using rb by (auto simp: do_rollback_def Let_def split: option.splits prod.splits elim!: and_then_cases
        dest: undo_ops_not_Err)
  with e rb show ?thesis by (cases r') (auto simp: end_transaction_def)
qed

lemma enqueue_next_cseq:
  assumes "mutable_reachable m" "pending (m_tx_record m) = None"
  shows "pb_last_cseq (m_push_buffer m) = 0 \<or> pb_last_cseq (m_push_buffer m) = oid_cseq (m_op_id m)"
  using seq_inv_reachable [OF assms(1)] assms(2) by (auto simp: seq_inv_def)

lemma execute_local_operations_append:
  assumes "list_all counter_op ops"
  shows "fst (execute_local_operations m (ops @ ops')) = fst (execute_local_operations (fst (execute_local_operations m ops)) ops')"
  using assms
proof (induction ops arbitrary: m)
  case (Cons op ops)
  obtain m' v where e: "execute_local_operation m op = (m', Ok v)" using Cons.prems by (auto simp: execute_local_operation_counter)
  from Cons show ?case by (simp add: execute_local_operations_Cons [OF e] del: execute_local_operations.simps)
qed simp

text \<open>Ending with commit, from the replica \<open>m\<close> before the first operation: all is committed, or the buffer has no room and nothing is.\<close>

definition commits :: "MutableDatatype \<Rightarrow> Operation list \<Rightarrow> string option \<Rightarrow> EventLoop \<Rightarrow> TransactionalDatatype \<Rightarrow> bool" where
  "commits m ops tag el td' =
     (let m' = td_mutable td'; b = m_push_buffer m; tx = set_tag (tx_of (m_op_id m) ops) tag
      in if pb_mem_size b + Transaction_size tx \<le> max_mem_size_of_push_buffer (pb_option b)
         then crdt_value (m_crdt m') = crdt_value (m_crdt m) + ops_delta ops \<and>
              pb_transaction (m_push_buffer m') = pb_transaction b @ [tx] \<and> oid_cseq (m_op_id m') = oid_cseq (m_op_id m) + 1 \<and>
              td_event_loop td' = send_push_transaction_with_best_effort el
         else crdt_value (m_crdt m') = crdt_value (m_crdt m) \<and> m_push_buffer m' = b \<and> m_op_id m' = m_op_id m \<and>
              td_event_loop td' = el \<and> m_effects m' = m_effects (call_error_handler m PushBufferExceededMaxMemSize))"

lemma end_commits:
  assumes free: "free td" and m: "mutable_reachable m" "pending (m_tx_record m) = None"
    and same: "m_state m = m_state (td_mutable td)" "m_attr m = m_attr (td_mutable td)"
    and ops: "list_all counter_op ops" "ops \<noteq> []" "fst (execute_local_operations m ops) = td_mutable td1" and td1: "\<not> td_op_mutex td1"
  shows "commits m ops tag (td_event_loop td1) (td_end_transaction td1 tag True) \<and> idle (td_end_transaction td1 tag True) \<and>
    m_state (td_mutable (td_end_transaction td1 tag True)) = m_state m"
proof -
  obtain r where exec: "execute_local_operations m ops = (td_mutable td1, r)" using ops(3) by (metis prod.collapse)
  let ?b = "m_push_buffer m" and ?tx = "set_tag (tx_of (m_op_id m) ops) tag" and ?td' = "td_end_transaction td1 tag True"
  have seq: "pb_last_cseq ?b = 0 \<or> pb_last_cseq ?b + 1 = tx_cseq ?tx"
    using enqueue_next_cseq [OF m] by (auto simp: tx_of_def)
  have idleI: "idle ?td'" if "td_tx_ctx ?td' = None" "\<not> td_op_mutex ?td'" "\<not> td_tx_mutex ?td'"
    "pending (m_tx_record (td_mutable ?td')) = None" "m_state (td_mutable ?td') = m_state m" "m_attr (td_mutable ?td') = m_attr m"
    using that free check_writable_cong [of ?td' td] same by (simp add: idle_def free_def)
  show ?thesis
  proof (cases rule: td_end_commit [OF m(2) ops(1,2) exec refl, of tag, case_names committed full])
    case (committed pb' txr)
    have "idle ?td'" by (rule idleI) (simp_all add: committed td1)
    with committed show ?thesis by (auto simp: commits_def enqueue_Ok_iff Let_def)
  next
    case (full err txr e)
    have "\<not> pb_mem_size ?b + Transaction_size ?tx \<le> max_mem_size_of_push_buffer (pb_option ?b)" "err = PushBufferExceededMaxMemSize"
      using full(3,4) seq by (auto simp: enqueue_def Let_def routed_def split: if_splits)
    moreover have "idle ?td'" by (rule idleI) (simp_all add: full td1 call_error_handler_def)
    ultimately show ?thesis using full by (auto simp: commits_def call_error_handler_def Let_def)
  qed
qed

text \<open>
  What a successful transaction commits: the operations already recorded since \<open>m\<close>, and then its own.
\<close>

lemma transaction_commits:
  assumes free: "free td" and m: "mutable_reachable m" "pending (m_tx_record m) = None"
    and same: "m_state m = m_state (td_mutable td)" "m_attr m = m_attr (td_mutable td)"
    and ops: "list_all counter_op ops" "fst (execute_local_operations m ops) = td_mutable td" "ops @ increases now ds \<noteq> []"
  shows "\<exists>td'. transaction fresh c tag (script now ds (Ok ())) td = Some (td', Ok ()) \<and> idle td' \<and>
    commits m (ops @ increases now ds) (Some tag) (td_event_loop td) td'"
proof -
  let ?ops = "ops @ increases now ds"
  obtain m1 r where exec: "execute_local_operations (td_mutable td) (increases now ds) = (m1, r)" by (metis prod.collapse)
  obtain td1 where run: "transaction fresh c tag (script now ds (Ok ())) td =
      Some (td_end_transaction td1 (Some tag) True, Ok ())"
    and td1: "td_mutable td1 = m1" "\<not> td_op_mutex td1" "td_event_loop td1 = td_event_loop td"
    using transaction_run [OF free exec, of fresh c tag "Ok ()"] by auto
  have "fst (execute_local_operations m ?ops) = td_mutable td1"
    using execute_local_operations_append [OF ops(1)] ops(2) exec td1(1) by simp
  from end_commits [OF free m same _ ops(3) this td1(2), of "Some tag"] ops(1) run td1(3) show ?thesis by simp
qed

subsection \<open>Properties\<close>

text \<open>
  C5: Failed transactions leave no trace. A user transaction whose closure returns an error, on an idle
  and writable counter and after any number of increments, returns that error, and the counter's value,
  clock and push buffer are as before, nothing is queued for pushing, and the counter is idle again.
\<close>

theorem failed_transaction_is_undone:
  assumes idle: "idle td"
  shows "\<exists>td'. transaction fresh c tag (script now ds (Err msg)) td = Some (td', Err (TransactionFailed msg)) \<and>
      get_value td' = get_value td \<and> m_op_id (td_mutable td') = m_op_id (td_mutable td) \<and>
      m_push_buffer (td_mutable td') = m_push_buffer (td_mutable td) \<and>
      td_event_loop td' = td_event_loop td \<and> idle td'"
proof -
  let ?m = "td_mutable td"
  obtain m1 r where exec: "execute_local_operations ?m (increases now ds) = (m1, r)" by (metis prod.collapse)
  obtain txr where undo: "do_rollback m1 = (?m\<lparr>m_tx_record := txr\<rparr>, Ok ())" "pending txr = None"
    using rollback_of_increases [OF _ exec] idle by (auto simp: idle_def)
  obtain td1 where run: "transaction fresh c tag (script now ds (Err msg)) td =
      Some (td_end_transaction td1 (Some tag) False, Err (TransactionFailed msg))"
    and td1: "td_mutable td1 = m1" "\<not> td_op_mutex td1" "td_event_loop td1 = td_event_loop td"
    using transaction_run [OF _ exec, of fresh c tag "Err msg"] idle by (auto simp: idle_free)
  let ?td' = "td1\<lparr>td_mutable := ?m\<lparr>m_tx_record := txr\<rparr>, td_tx_ctx := None, td_tx_mutex := False\<rparr>"
  have "td_end_transaction td1 (Some tag) False = ?td'" by (rule td_end_rollback) (simp add: td1 undo)
  moreover have "idle ?td'" by (rule idle_cong [OF idle]) (simp_all add: undo td1)
  ultimately show ?thesis using run td1 by (auto simp: get_value_def)
qed

text \<open>
  C6: Successful transactions take effect as one. If the closure succeeds, the call returns success and
  the counter is idle again. If the push buffer has room for the transaction made of these increments, with the tag, the
  next sequence number and consecutive Lamport times, then exactly this transaction was appended to the buffer, all increments are in
  effect, the sequence number has advanced and a push is requested. If it has no room, then none of the increments is in effect, the buffer and the
  operation id are as before and nothing is requested; the error only reaches the handlers, the call still reports success.
\<close>

theorem successful_transaction_is_one:
  assumes idle: "idle td" and reach: "mutable_reachable (td_mutable td)" and ds: "ds \<noteq> []"
  shows "\<exists>td'. transaction fresh c tag (script now ds (Ok ())) td = Some (td', Ok ()) \<and> idle td' \<and>
      (let m = td_mutable td; m' = td_mutable td'; b = m_push_buffer m;
           tx = set_tag (tx_of (m_op_id m) (increases now ds)) (Some tag)
       in map op_delta (tx_operations tx) = ds \<and> tx_cseq tx = oid_cseq (m_op_id m) + 1 \<and>
          (if pb_mem_size b + Transaction_size tx \<le> max_mem_size_of_push_buffer (pb_option b)
           then get_value td' = get_value td + sum_list ds \<and> pb_transaction (m_push_buffer m') = pb_transaction b @ [tx] \<and>
                oid_cseq (m_op_id m') = oid_cseq (m_op_id m) + 1 \<and>
                td_event_loop td' = send_push_transaction_with_best_effort (td_event_loop td)
           else get_value td' = get_value td \<and> m_push_buffer m' = b \<and> m_op_id m' = m_op_id m \<and>
                td_event_loop td' = td_event_loop td \<and>
                m_effects m' = m_effects (call_error_handler m PushBufferExceededMaxMemSize)))"
proof -
  let ?tx = "set_tag (tx_of (m_op_id (td_mutable td)) (increases now ds)) (Some tag)"
  have tx: "map op_delta (tx_operations ?tx) = ds" "tx_cseq ?tx = oid_cseq (m_op_id (td_mutable td)) + 1"
    by (simp_all add: tx_of_def)
  have i: "free td" "pending (m_tx_record (td_mutable td)) = None" using idle by (simp_all add: idle_free)
  have "list_all counter_op []" "fst (execute_local_operations (td_mutable td) []) = td_mutable td" "[] @ increases now ds \<noteq> []"
    using ds by simp_all
  from transaction_commits [OF i(1) reach i(2) refl refl this, where tag = tag and fresh = fresh and c = c] show ?thesis
    unfolding commits_def Let_def get_value_def tx append_Nil increases_simps(4) by (simp only: simp_thms)
qed

text \<open>
  One increment. On an idle, writable counter \<open>increase_by\<close> returns the value plus the amount, with
  wrap-around; unless the push buffer is full it takes effect as one transaction of its own, without a tag;
  with a full buffer the call still returns that value although the increment was undone.
\<close>

lemma increase_by_effect:
  assumes idle: "idle td" and reach: "mutable_reachable (td_mutable td)" and untagged: "\<not> has_tag (ct_tx_ctx c)"
  shows "\<exists>td'. increase_by now fresh c d td = Some (td', Ok (get_value td + d)) \<and> idle td' \<and>
      m_state (td_mutable td') = m_state (td_mutable td) \<and> commits (td_mutable td) (increases now [d]) None (td_event_loop td) td'"
proof -
  let ?m = "td_mutable td" and ?op = "new_counter_increase now d"
  have i: "free td" "pending (m_tx_record ?m) = None" using idle by (simp_all add: idle_free)
  obtain m1 where op: "execute_local_operation ?m ?op = (m1, Ok (Return_Counter (get_value td + d)))"
    by (simp add: execute_local_operation_counter get_value_def)
  let ?td1 = "td\<lparr>td_tx_ctx := Some (TransactionContext_default fresh), td_mutable := m1, td_op_mutex := False\<rparr>"
  have run: "increase_by now fresh c d td = Some (td_end_transaction ?td1 None True, Ok (get_value td + d))"
    using idle_op [OF idle, of fresh "ct_tx_ctx c" ?op] op untagged by (simp add: increase_by_def has_tag_def)
  have "fst (execute_local_operations ?m (increases now [d])) = td_mutable ?td1" "increases now [d] \<noteq> []" "\<not> td_op_mutex ?td1"
    using op by simp_all
  from end_commits [OF i(1) reach i(2) refl refl increases_simps(3) this(2,1,3), of None] run show ?thesis by simp
qed

lemma ex_td_idle: "idle ex_td" "\<not> has_tag (ct_tx_ctx (Counter_new 0 3))"
  by (simp_all add: idle_def ex_td_def check_writable_def td_get_state_def ex_attr_def set_transactional_def
      Attribute_new_def has_tag_def Counter_new_def TransactionContext_default_def)

theorem failed_transaction_is_undone_witness:
  "\<exists>td'. transaction 1 (Counter_new 0 3) ''t'' (script 0 [4, 5] (Err ''no'')) ex_td =
     Some (td', Err (TransactionFailed ''no'')) \<and> get_value td' = 0"
  using failed_transaction_is_undone [OF ex_td_idle(1), of 1 "Counter_new 0 3" "''t''" 0 "[4, 5]" "''no''"]
  by (auto simp: get_value_def ex_td_def CounterCrdt_default_def)

lemma ex_mut_reachable: "mutable_reachable ex_mut"
  by (rule reach_new [of ex_attr Creating "[]"]) (simp add: MutableDatatype_new_def ex_mut_def ex_attr_def set_transactional_def Attribute_new_def Let_def HandlersManager_new_def get_cuid_def)

lemma ex_td_room:
  "pb_mem_size (m_push_buffer ex_mut) + Transaction_size (set_tag (tx_of (m_op_id ex_mut) (increases 0 [4, 5])) (Some ''t''))
    \<le> max_mem_size_of_push_buffer (pb_option (m_push_buffer ex_mut))"
  by (simp add: MemoryPushBuffer_new_def ex_attr_def set_transactional_def Attribute_new_def tx_of_def set_tag_def Transaction_new_def
      Transaction_size_def TRANSACTION_CONSTANT_SIZE_def UID_LEN_def Operation_size_def CounterIncreaseBody_size_def
      new_counter_increase_def Operation_new_def set_lamport_def Let_def)

theorem successful_transaction_is_one_witness:
  "\<exists>td'. transaction 1 (Counter_new 0 3) ''t'' (script 0 [4, 5] (Ok ())) ex_td = Some (td', Ok ()) \<and> get_value td' = 9"
proof -
  have m: "td_mutable ex_td = ex_mut" by (simp add: ex_td_def)
  then have r: "mutable_reachable (td_mutable ex_td)" by (simp only: ex_mut_reachable)
  have v: "get_value ex_td + sum_list [4, 5] = 9" by (simp add: get_value_def m CounterCrdt_default_def)
  have "[4, 5 :: i64] \<noteq> []" by simp
  from successful_transaction_is_one [OF ex_td_idle(1) r this, of 1 "Counter_new 0 3" "''t''" 0] show ?thesis
    unfolding Let_def m if_P [OF ex_td_room] v by blast
qed

lemma increase_by_effect_witness:
  "\<exists>td'. increase_by 0 1 (Counter_new 0 3) 7 ex_td = Some (td', Ok 7) \<and> idle td'"
proof -
  have "mutable_reachable (td_mutable ex_td)" "get_value ex_td = 0"
    by (simp_all add: ex_td_def ex_mut_reachable get_value_def CounterCrdt_default_def)
  with increase_by_effect [OF ex_td_idle(1) this(1) ex_td_idle(2), of 0 1 7] show ?thesis by auto
qed

end
