(* ===== verification/Name_Validator.thy ===== *)
theory Name_Validator
  imports Attributes "HOL-Library.Sublist"
begin

text \<open>
  The names a client accepts (\<open>utils/name_validator.rs\<close>, the messages of
  \<open>errors/clients.rs\<close>). A string is the sequence of its UTF-8 bytes, which is what \<open>len\<close>
  counts. The matcher of the regular expression is outside the repository.
\<close>

definition COLLECTION_NAME_PATTERN :: string where
  "COLLECTION_NAME_PATTERN = ''^[a-zA-Z_][a-zA-Z0-9._~-]*$''"

definition is_valid_collection_name :: "extern \<Rightarrow> string \<Rightarrow> bool" where
  "is_valid_collection_name x name =
     (if name = [] \<or> length name > 47 then False
      else if \<not> regex_is_match x COLLECTION_NAME_PATTERN name then False
      else if prefix ''system.'' name \<or> sublist ''.system.'' name then False
      else True)"

definition is_valid_datatype_key :: "string \<Rightarrow> bool" where
  "is_valid_datatype_key key =
     (if key = [] \<or> CHR 0x00 \<in> set key \<or> length key > 255 \<or> prefix ''$'' key then False else True)"

definition CLIENT_ERROR_MSG_COLLECTION_NAME :: string where
  "CLIENT_ERROR_MSG_COLLECTION_NAME =
     ''invalid collection name: '' @ [CHR 0x27] @ ''{}'' @ [CHR 0x27] @
     '' - Collection name must be 1-47 characters, start with a letter or underscore, contain only alphanumeric characters and '' @
     [CHR 0x27] @ ''.'' @ [CHR 0x27] @ '', '' @ [CHR 0x27] @ ''_'' @ [CHR 0x27] @ '', '' @ [CHR 0x27] @ ''~'' @ [CHR 0x27] @
     '', '' @ [CHR 0x27] @ ''-'' @ [CHR 0x27] @ '', and must not start with '' @ [CHR 0x27] @ ''system.'' @ [CHR 0x27] @
     '' or contain '' @ [CHR 0x27] @ ''.system.'' @ [CHR 0x27]"

definition CLIENT_ERROR_MSG_DATATYPE_KEY :: string where
  "CLIENT_ERROR_MSG_DATATYPE_KEY =
     ''invalid datatype key: '' @ [CHR 0x27] @ ''{}'' @ [CHR 0x27] @
     '' - Key must not be empty, must not contain null characters ('' @ [CHR 0x5C] @ ''0), must not exceed 255 bytes in length, and must not start with '' @
     [CHR 0x27] @ ''$'' @ [CHR 0x27] @ ''.''"

text \<open>The documented meaning of the pattern: an anchored class followed by a repeated class.\<close>

definition is_name_start :: "char \<Rightarrow> bool" where
  "is_name_start c = (c \<in> set ''abcdefghijklmnopqrstuvwxyzABCDEFGHIJKLMNOPQRSTUVWXYZ_'')"

definition is_name_char :: "char \<Rightarrow> bool" where
  "is_name_char c = (is_name_start c \<or> c \<in> set ''0123456789.~-'')"

definition regex_documented :: "extern \<Rightarrow> bool" where
  "regex_documented x =
     (\<forall>s. regex_is_match x COLLECTION_NAME_PATTERN s =
        (case s of [] \<Rightarrow> False | c # cs \<Rightarrow> is_name_start c \<and> list_all is_name_char cs))"

definition ex_regex_extern :: extern where
  "ex_regex_extern = ex_extern\<lparr>regex_is_match := (\<lambda>_ s.
     case s of [] \<Rightarrow> False | c # cs \<Rightarrow> is_name_start c \<and> list_all is_name_char cs)\<rparr>"

subsection \<open>Properties\<close>

lemma valid_collection_no_slash:
  assumes "regex_documented x" and "is_valid_collection_name x name"
  shows "CHR ''/'' \<notin> set name"
proof (cases name)
  case (Cons c cs)
  have no: "\<not> is_name_start (CHR ''/'')" "\<not> is_name_char (CHR ''/'')"
    by (simp_all add: is_name_char_def is_name_start_def)
  from assms Cons have "is_name_start c" and "list_all is_name_char cs"
    by (auto simp: is_valid_collection_name_def regex_documented_def split: if_splits)
  with no Cons show ?thesis by (auto simp: list_all_iff)
qed simp

lemma append_slash_inject:
  assumes "CHR ''/'' \<notin> set xs" and "CHR ''/'' \<notin> set us" and "xs @ ''/'' @ ys = us @ ''/'' @ vs"
  shows "xs = us \<and> ys = vs"
  using assms
proof (induction xs arbitrary: us)
  case Nil
  then show ?case by (cases us) auto
next
  case (Cons x xs)
  then show ?case by (cases us) auto
qed

text \<open>
  Resource names do not collide. Two valid collection names and any keys that give the same resource
  id are the same collection and the same key, so two datatypes never share a server by accident, although
  a key may contain any character but zero, slashes included.
\<close>

lemma resource_id_injective:
  assumes "regex_documented x" and "is_valid_collection_name x c1" and "is_valid_collection_name x c2"
    and "make_resource_id c1 k1 = make_resource_id c2 k2"
  shows "c1 = c2 \<and> k1 = k2"
  using append_slash_inject [of c1 c2 k1 k2] valid_collection_no_slash [OF assms(1)] assms(2-4)
  by (simp add: make_resource_id_def)

lemma resource_id_injective_witness:
  "regex_documented ex_regex_extern \<and> is_valid_collection_name ex_regex_extern ''col'' \<and>
   make_resource_id ''col'' (''a/'' @ ''b'') = make_resource_id ''col'' (''a'' @ ''/b'') \<and>
   ''a/'' @ ''b'' = ''a'' @ ''/b''"
proof -
  have r: "regex_documented ex_regex_extern" by (simp add: regex_documented_def ex_regex_extern_def)
  have v: "is_valid_collection_name ex_regex_extern ''col''"
    by (simp add: is_valid_collection_name_def ex_regex_extern_def is_name_char_def is_name_start_def
        sublist_Cons_right)
  have "make_resource_id ''col'' (''a/'' @ ''b'') = make_resource_id ''col'' (''a'' @ ''/b'')" by simp
  from resource_id_injective [OF r v v this] r v show ?thesis by simp
qed

end
