(* ===== verification/Client.thy ===== *)
theory Client
  imports Counter Name_Validator
begin

text \<open>
  Clients (\<open>clients/client.rs\<close>, \<open>clients/datatype_manager.rs\<close>, \<open>clients/common.rs\<close>) and
  what they build (\<open>datatypes/builder.rs\<close>, \<open>datatypes/datatype_set.rs\<close>). The core datatypes live
  in a heap indexed by their address, which is also their identity; addresses, client ids and datatype ids
  that a call allocates are arguments. A backend enters through its state and its \<open>register\<close>.
\<close>

type_synonym cores = "nat \<Rightarrow> TransactionalDatatype"

record 'c world =
  w_cores :: cores
  w_connectivity :: 'c

definition wired_heap :: "cores \<Rightarrow> heap" where
  "wired_heap cores = (\<lambda>a. WiredDatatype_new (td_mutable (cores a)))"

subsection \<open>DatatypeSet\<close>

datatype DatatypeSet = DS_Counter Counter

fun DatatypeSet_get_type :: "DatatypeSet \<Rightarrow> DataType" where
  "DatatypeSet_get_type (DS_Counter _) = Type_Counter"

fun get_core_id :: "DatatypeSet \<Rightarrow> nat" where
  "get_core_id (DS_Counter cnt) = ct_datatype cnt"

definition DatatypeSet_get_state :: "cores \<Rightarrow> DatatypeSet \<Rightarrow> DatatypeState" where
  "DatatypeSet_get_state cores self = td_get_state (cores (get_core_id self))"

definition DatatypeSet_unsubscribe :: "cores \<Rightarrow> DatatypeSet \<Rightarrow> cores \<times> (unit, DatatypeError) result" where
  "DatatypeSet_unsubscribe cores self =
     (let (td, r) = td_unsubscribe (cores (get_core_id self)) in (cores(get_core_id self := td), r))"

text \<open>What a call that builds a datatype takes from its environment.\<close>

record 'c allocation =
  al_core :: nat
  al_ctx :: nat
  al_duid :: Duid
  al_sender :: nat
  al_is_realtime :: bool
  al_register :: "'c \<Rightarrow> heap \<Rightarrow> nat \<Rightarrow> nat \<Rightarrow> 'c"

definition DatatypeSet_new ::
  "'c allocation \<Rightarrow> DataType \<Rightarrow> string \<Rightarrow> DatatypeState \<Rightarrow> ClientCommon \<Rightarrow> DatatypeOption \<Rightarrow> bool \<Rightarrow>
   (usize \<times> DatatypeHandler) list \<Rightarrow> 'c world \<Rightarrow> 'c world \<times> (DatatypeSet, ClientError) result" where
  "DatatypeSet_new al ty key state common opt is_readonly handlers w =
     (let attr = Attribute_new (al_duid al) key ty common opt is_readonly
      in case TransactionalDatatype_new (al_core al) (al_is_realtime al) attr state handlers of
           Panic msg \<Rightarrow> (w, Panic msg)
         | Err _ \<Rightarrow> (w, Panic '''')
         | Ok td \<Rightarrow>
             (let cores = (w_cores w)(al_core al := td);
                  c = al_register al (w_connectivity w) (wired_heap cores) (al_core al) (al_sender al);
                  w1 = w\<lparr>w_cores := cores, w_connectivity := c\<rparr>
              in case ty of
                   Type_Counter \<Rightarrow> (w1, Ok (DS_Counter (Counter_new (al_core al) (al_ctx al))))
                 | _ \<Rightarrow> (w1, Panic ''not yet implemented'')))"

subsection \<open>DatatypeManager\<close>

record DatatypeManager =
  dm_common :: ClientCommon
  dm_datatypes :: "(string \<times> DatatypeSet) list"

definition DatatypeManager_new :: "ClientCommon \<Rightarrow> DatatypeManager" where
  "DatatypeManager_new common = \<lparr>dm_common = common, dm_datatypes = []\<rparr>"

definition dm_get_datatype :: "DatatypeManager \<Rightarrow> string \<Rightarrow> DatatypeSet option" where
  "dm_get_datatype self key = hm_get (dm_datatypes self) key"

definition remove_if_same_instance ::
  "DatatypeManager \<Rightarrow> string \<Rightarrow> nat \<Rightarrow> DatatypeManager \<times> DatatypeSet option" where
  "remove_if_same_instance self key core_id =
     (case hm_get (dm_datatypes self) key of
        Some dt \<Rightarrow>
          (if get_core_id dt = core_id
           then (self\<lparr>dm_datatypes := hm_remove key (dm_datatypes self)\<rparr>, Some dt)
           else (self, None))
      | None \<Rightarrow> (self, None))"

definition subscribe_or_create_datatype ::
  "'c allocation \<Rightarrow> DatatypeManager \<Rightarrow> string \<Rightarrow> DataType \<Rightarrow> DatatypeState \<Rightarrow> DatatypeOption \<Rightarrow> bool \<Rightarrow>
   (usize \<times> DatatypeHandler) list \<Rightarrow> 'c world \<Rightarrow>
   (DatatypeManager \<times> 'c world) \<times> (DatatypeSet, ClientError) result" where
  "subscribe_or_create_datatype al self key ty state opt is_readonly handlers w =
     (case hm_get (dm_datatypes self) key of
        Some existing \<Rightarrow>
          ((self, w), Err (FailedToSubscribeOrCreateDatatype
             (DataType_display ty @ '' '' @ [CHR 0x27] @ key @ [CHR 0x27] @ '' was demanded as '' @
              DatatypeState_display state @ '', but the client already has '' @
              DataType_display (DatatypeSet_get_type existing) @ '' '' @ [CHR 0x27] @ key @ [CHR 0x27] @ '' as '' @
              DatatypeState_display (DatatypeSet_get_state (w_cores w) existing))))
      | None \<Rightarrow>
          (let (w1, r) = DatatypeSet_new al ty key state (dm_common self) opt is_readonly handlers w
           in case r of
                Ok dt \<Rightarrow> ((self\<lparr>dm_datatypes := hm_insert key dt (dm_datatypes self)\<rparr>, w1), Ok dt)
              | Err e \<Rightarrow> ((self, w1), Err e)
              | Panic msg \<Rightarrow> ((self, w1), Panic msg)))"

text \<open>
  \<open>ClientCommon::detach_datatype_if_same_instance\<close>: what a \<open>Detach\<close> call of a datatype does to
  its manager.
\<close>

fun run_effect :: "DatatypeManager \<Rightarrow> Effect \<Rightarrow> DatatypeManager" where
  "run_effect dm (Detach key core_id) = fst (remove_if_same_instance dm key core_id)"
| "run_effect dm (Called _ _) = dm"

subsection \<open>Client\<close>

record 'c ClientBuilder =
  cb_collection :: string
  cb_alias :: string
  cb_connectivity :: 'c

record Client =
  cl_common :: ClientCommon
  cl_datatype_manager :: DatatypeManager

definition Client_builder :: "string \<Rightarrow> string \<Rightarrow> unit ClientBuilder" where
  "Client_builder collection alias = \<lparr>cb_collection = collection, cb_alias = alias, cb_connectivity = ()\<rparr>"

definition with_connectivity :: "'d ClientBuilder \<Rightarrow> 'c \<Rightarrow> 'c ClientBuilder" where
  "with_connectivity self conn =
     \<lparr>cb_collection = cb_collection self, cb_alias = cb_alias self, cb_connectivity = conn\<rparr>"

definition ClientCommon_new :: "Cuid \<Rightarrow> string \<Rightarrow> string \<Rightarrow> ClientCommon" where
  "ClientCommon_new cuid collection alias = \<lparr>cc_collection = collection, cc_cuid = cuid, cc_alias = alias\<rparr>"

definition ClientCommon_display :: "ClientCommon \<Rightarrow> string" where
  "ClientCommon_display self = cc_collection self @ ''/'' @ cc_alias self"

definition build :: "extern \<Rightarrow> Cuid \<Rightarrow> 'c ClientBuilder \<Rightarrow> (Client, ClientError) result" where
  "build x cuid self =
     (if \<not> is_valid_collection_name x (cb_collection self)
      then Err (InvalidCollectionName (dyn_fmt x CLIENT_ERROR_MSG_COLLECTION_NAME [cb_collection self]))
      else (let common = ClientCommon_new cuid (cb_collection self) (cb_alias self)
            in Ok \<lparr>cl_common = common, cl_datatype_manager = DatatypeManager_new common\<rparr>))"

definition do_subscribe_or_create_datatype ::
  "'c allocation \<Rightarrow> Client \<Rightarrow> string \<Rightarrow> DataType \<Rightarrow> DatatypeState \<Rightarrow> DatatypeOption \<Rightarrow> bool \<Rightarrow>
   (usize \<times> DatatypeHandler) list \<Rightarrow> 'c world \<Rightarrow> (Client \<times> 'c world) \<times> (DatatypeSet, ClientError) result" where
  "do_subscribe_or_create_datatype al self key ty state opt is_readonly handlers w =
     (let ((dm, w1), r) = subscribe_or_create_datatype al (cl_datatype_manager self) key ty state opt is_readonly handlers w
      in ((self\<lparr>cl_datatype_manager := dm\<rparr>, w1), r))"

definition client_get_datatype :: "Client \<Rightarrow> string \<Rightarrow> DatatypeSet option" where
  "client_get_datatype self key = dm_get_datatype (cl_datatype_manager self) key"

definition unsubscribe_datatype ::
  "Client \<Rightarrow> string \<Rightarrow> cores \<Rightarrow> cores \<times> (DatatypeSet, DatatypeError) result" where
  "unsubscribe_datatype self key cores =
     (case client_get_datatype self key of
        None \<Rightarrow> (cores, Err (Disallowed (''Datatype '' @ [CHR 0x27] @ key @ [CHR 0x27] @ '' is not managed by this client'')))
      | Some datatype \<Rightarrow>
          and_then (DatatypeSet_unsubscribe cores datatype) (\<lambda>cs _. (cs, Ok datatype)))"

definition get_collection :: "Client \<Rightarrow> string" where
  "get_collection self = cc_collection (cl_common self)"

definition get_alias :: "Client \<Rightarrow> string" where
  "get_alias self = cc_alias (cl_common self)"

subsection \<open>DatatypeBuilder\<close>

record DatatypeBuilder =
  db_key :: string
  db_state :: DatatypeState
  db_option :: DatatypeOption
  db_is_readonly :: bool
  db_handlers :: "(usize \<times> DatatypeHandler) list"

definition DatatypeBuilder_new :: "extern \<Rightarrow> string \<Rightarrow> DatatypeState \<Rightarrow> DatatypeBuilder" where
  "DatatypeBuilder_new x key state =
     \<lparr>db_key = key, db_state = state, db_option = DatatypeOption_default x, db_is_readonly = False, db_handlers = []\<rparr>"

definition subscribe_datatype :: "extern \<Rightarrow> string \<Rightarrow> DatatypeBuilder" where
  "subscribe_datatype x key = DatatypeBuilder_new x key Subscribing"

definition create_datatype :: "extern \<Rightarrow> string \<Rightarrow> DatatypeBuilder" where
  "create_datatype x key = DatatypeBuilder_new x key Creating"

definition client_subscribe_or_create_datatype :: "extern \<Rightarrow> string \<Rightarrow> DatatypeBuilder" where
  "client_subscribe_or_create_datatype x key = DatatypeBuilder_new x key SubscribingOrCreating"

definition with_max_memory_size_of_push_buffer :: "extern \<Rightarrow> DatatypeBuilder \<Rightarrow> u64 \<Rightarrow> DatatypeBuilder" where
  "with_max_memory_size_of_push_buffer x self sz = self\<lparr>db_option := DatatypeOption_new x sz\<rparr>"

definition with_readonly :: "DatatypeBuilder \<Rightarrow> DatatypeBuilder" where
  "with_readonly self = self\<lparr>db_is_readonly := True\<rparr>"

definition with_handler :: "DatatypeBuilder \<Rightarrow> usize \<Rightarrow> DatatypeHandler \<Rightarrow> DatatypeBuilder" where
  "with_handler self priority handler = self\<lparr>db_handlers := bt_insert priority handler (db_handlers self)\<rparr>"

definition build_counter ::
  "extern \<Rightarrow> 'c allocation \<Rightarrow> DatatypeBuilder \<Rightarrow> Client \<times> 'c world \<Rightarrow> (Client \<times> 'c world) \<times> (Counter, ClientError) result" where
  "build_counter x al self s =
     (let (client, w) = s
      in if \<not> is_valid_datatype_key (db_key self)
         then (s, Err (FailedToSubscribeOrCreateDatatype (dyn_fmt x CLIENT_ERROR_MSG_DATATYPE_KEY [db_key self])))
         else and_then
                (do_subscribe_or_create_datatype al client (db_key self) Type_Counter (db_state self) (db_option self)
                   (db_is_readonly self) (db_handlers self) w)
                (\<lambda>s1 ds. (s1, case ds of DS_Counter c \<Rightarrow> Ok c)))"

definition ex_client :: Client where
  "ex_client = \<lparr>cl_common = at_client_common ex_attr, cl_datatype_manager = DatatypeManager_new (at_client_common ex_attr)\<rparr>"

definition ex_alloc :: "unit allocation" where
  "ex_alloc = \<lparr>al_core = 7, al_ctx = 8, al_duid = Uid_new_nil, al_sender = 9, al_is_realtime = True,
     al_register = (\<lambda>c _ _ _. c)\<rparr>"

definition ex_w :: "unit world" where
  "ex_w = \<lparr>w_cores = (\<lambda>_. ex_td), w_connectivity = ()\<rparr>"

subsection \<open>Properties\<close>

text \<open>
  One handle per key. Building a counter under a valid key the client does not manage yet succeeds:
  the client then manages exactly that counter under the key and its other entries are as before, the
  counter starts at zero in the requested state with an empty push buffer, the given options and this
  client's id. Under a key it already manages, or an invalid key, building fails and nothing changes.
\<close>

lemma build_counter_per_key:
  "case build_counter x al b (client, w) of ((client', w'), r) \<Rightarrow>
     (if is_valid_datatype_key (db_key b) \<and> client_get_datatype client (db_key b) = None
      then (\<exists>c. r = Ok c \<and> client_get_datatype client' (db_key b) = Some (DS_Counter c) \<and>
             (\<forall>k. k \<noteq> db_key b \<longrightarrow> client_get_datatype client' k = client_get_datatype client k) \<and>
             (let td = w_cores w' (ct_datatype c); m = td_mutable td
              in get_value td = 0 \<and> td_get_state td = db_state b \<and> td_get_key td = db_key b \<and>
                 pb_transaction (m_push_buffer m) = [] \<and> pb_option (m_push_buffer m) = db_option b \<and>
                 at_is_readonly (m_attr m) = db_is_readonly b \<and>
                 get_cuid (m_attr m) = cc_cuid (dm_common (cl_datatype_manager client)) \<and>
                 at_core (m_attr m) = Some (ct_datatype c)))
      else client' = client \<and> w' = w \<and> (\<exists>msg. r = Err (FailedToSubscribeOrCreateDatatype msg)))"
proof (cases "is_valid_datatype_key (db_key b) \<and> client_get_datatype client (db_key b) = None")
  case True
  then show ?thesis
    by (auto simp: build_counter_def do_subscribe_or_create_datatype_def subscribe_or_create_datatype_def
        client_get_datatype_def dm_get_datatype_def DatatypeSet_new_def TransactionalDatatype_new_def
        MutableDatatype_new_def Attribute_new_def set_transactional_def Counter_new_def get_value_def
        td_get_state_def td_get_key_def MemoryPushBuffer_new_def get_cuid_def CounterCrdt_default_def Let_def)
next
  case False
  then show ?thesis
    by (auto simp: build_counter_def do_subscribe_or_create_datatype_def subscribe_or_create_datatype_def
        client_get_datatype_def dm_get_datatype_def)
qed

lemma build_counter_per_key_witness:
  "\<exists>client' w' c. build_counter ex_extern ex_alloc (create_datatype ex_extern ''k'') (ex_client, ex_w) = ((client', w'), Ok c) \<and>
     client_get_datatype client' ''k'' = Some (DS_Counter c)"
proof -
  have "is_valid_datatype_key (db_key (create_datatype ex_extern ''k'')) \<and>
      client_get_datatype ex_client (db_key (create_datatype ex_extern ''k'')) = None"
    by (simp add: is_valid_datatype_key_def create_datatype_def DatatypeBuilder_new_def client_get_datatype_def
        dm_get_datatype_def ex_client_def DatatypeManager_new_def)
  with build_counter_per_key [where x = ex_extern and al = ex_alloc and b = "create_datatype ex_extern ''k''"
      and client = ex_client and w = ex_w] show ?thesis
    by (auto simp: create_datatype_def DatatypeBuilder_new_def split: prod.splits)
qed

lemma hm_remove_other [simp]: "k \<noteq> k' \<Longrightarrow> hm_get (hm_remove k m) k' = hm_get m k'"
  by (simp add: hm_get_remove)

text \<open>
  Detaching hits the right instance. When a replica becomes disabled, the calls it makes to the
  outside remove the client's entry for its key exactly if that entry is this very instance; a newer
  instance built under the same key stays, and so does every other key.
\<close>

lemma disable_detaches_same_instance:
  assumes "m_state m \<noteq> Disabled" and "at_core (m_attr m) = Some core"
  shows "\<exists>calls. m_effects (set_state m Disabled) = m_effects m @ calls \<and>
    dm_get_datatype (foldl run_effect dm calls) (at_key (m_attr m)) =
      (case dm_get_datatype dm (at_key (m_attr m)) of
         None \<Rightarrow> None | Some ds \<Rightarrow> if get_core_id ds = core then None else Some ds) \<and>
    (\<forall>k. k \<noteq> at_key (m_attr m) \<longrightarrow> dm_get_datatype (foldl run_effect dm calls) k = dm_get_datatype dm k)"
proof -
  have called: "foldl run_effect dm (dispatch hs attr f) = dm" for hs attr f
    by (cases "get_datatype_set attr") (auto simp: dispatch_def, induction hs, auto)
  have "m_effects (set_state m Disabled) = m_effects m @
      notify_state_change (m_handlers m) (m_attr m) (m_state m) Disabled @ [Detach (at_key (m_attr m)) core]"
    using assms by (simp add: set_state_def Let_def detach_datatype_if_same_instance_def)
  then show ?thesis
    by (intro exI conjI, assumption)
      (auto simp: notify_state_change_def called remove_if_same_instance_def dm_get_datatype_def hm_get_remove
        split: option.splits)
qed

lemma disable_detaches_same_instance_witness:
  "\<exists>calls. m_effects (set_state ex_mut Disabled) = m_effects ex_mut @ calls \<and>
     dm_get_datatype (foldl run_effect \<lparr>dm_common = at_client_common ex_attr,
       dm_datatypes = [(''k'', DS_Counter (Counter_new 7 0))]\<rparr> calls) ''k'' = None"
proof -
  have "m_state ex_mut \<noteq> Disabled" and "at_core (m_attr ex_mut) = Some 7" and "at_key (m_attr ex_mut) = ''k''"
    by (simp_all add: ex_attr_def set_transactional_def Attribute_new_def)
  with disable_detaches_same_instance [OF this(1,2), of "\<lparr>dm_common = at_client_common ex_attr,
       dm_datatypes = [(''k'', DS_Counter (Counter_new 7 0))]\<rparr>"]
  show ?thesis by (auto simp: dm_get_datatype_def Counter_new_def)
qed

end
