(* ===== verification/Lock_Order.thy ===== *)
theory Lock_Order
  imports Client
begin

text \<open>
  The locks that clients, datatypes and the in-memory backend take while they hold another one: the lock of a client's datatype manager
  (\<open>clients/client.rs\<close>, \<open>clients/common.rs\<close>), the lock of each datatype's mutable part, and the lock of each server of
  the backend. Building a datatype happens under the manager's lock: under a key that is taken it reads that datatype's state
  (\<open>DatatypeManager::subscribe_or_create_datatype\<close>), under a vacant key it registers the new datatype, which takes the lock of
  its server (\<open>EventLoop::run\<close>, \<open>LocalConnectivity::register\<close>). A request is served under the server's lock, and a
  subscription takes the lock of the creator's datatype for a snapshot (\<open>WiredDatatype::get_subscribe_snapshot\<close>). A datatype that
  becomes \<open>Disabled\<close> takes the manager's lock while its own is held (\<open>MutableDatatype::set_state\<close>). Calls are cut at these lock operations.
\<close>

subsection \<open>Calls cut at their lock operations\<close>

text \<open>
  A lock is held by one thread, or by none. What happens under a lock without waiting for another one takes the lock and releases
  it in one step, for which nobody may hold it; so does reading. Clients are numbered, servers are named by their resource id. The table
  of servers is locked for lookups and updates only, during which no other lock is asked for, and is left out.
\<close>

record 'c client_locks =
  ck_dm :: "nat \<Rightarrow> DatatypeManager"
  ck_world :: "'c world"
  ck_manager :: "nat \<Rightarrow> nat option"
  ck_mutable :: "nat \<Rightarrow> nat option"
  ck_server :: "string \<Rightarrow> nat option"

text \<open>
  The positions of a call. \<open>Build\<close>: of a client, with the allocation and the builder. \<open>Disable\<close>: of the datatype at an address, which belongs to a client.
  \<open>Serve\<close>: of a server, with the address of the creator's datatype if a snapshot is wanted, and what the request does to the backend.
\<close>

datatype 'c client_pc =
    Build_lock nat "'c allocation" DatatypeBuilder
  | Build_entry nat "'c allocation" DatatypeBuilder
  | Build_state nat "'c allocation" DatatypeBuilder nat
  | Build_register nat "'c allocation" DatatypeBuilder string
  | Build_done "(DatatypeSet, ClientError) result"
  | Disable_lock nat nat
  | Disable_set nat nat
  | Disable_detach nat nat
  | Disable_done
  | Serve_lock string "nat option" "'c \<Rightarrow> 'c"
  | Serve_snapshot string nat "'c \<Rightarrow> 'c"
  | Serve_done
  | Get_lock nat string
  | Get_done "DatatypeSet option"
  | State_lock nat
  | State_done DatatypeState

text \<open>What \<open>subscribe_or_create_datatype\<close> does and returns, and the release of the manager's lock.\<close>

definition build_section :: "nat \<Rightarrow> 'c allocation \<Rightarrow> DatatypeBuilder \<Rightarrow> 'c client_locks \<Rightarrow> 'c client_pc \<times> 'c client_locks" where
  "build_section k al b s =
     (let ((dm, w), r) = subscribe_or_create_datatype al (ck_dm s k) (db_key b) Type_Counter (db_state b) (db_option b)
            (db_is_readonly b) (db_handlers b) (ck_world s)
      in (Build_done r, s\<lparr>ck_dm := (ck_dm s)(k := dm), ck_world := w, ck_manager := (ck_manager s)(k := None)\<rparr>))"

text \<open>\<open>set_state\<close> with \<open>Disabled\<close>; it goes on to the manager if the state changes and the datatype can still be found.\<close>

definition disable_section :: "nat \<Rightarrow> nat \<Rightarrow> 'c client_locks \<Rightarrow> 'c client_pc \<times> 'c client_locks" where
  "disable_section k core s =
     (let td = w_cores (ck_world s) core; m = td_mutable td;
          w = (ck_world s)\<lparr>w_cores := (w_cores (ck_world s))(core := td\<lparr>td_mutable := set_state m Disabled\<rparr>)\<rparr>
      in if m_state m \<noteq> Disabled \<and> detach_datatype_if_same_instance (m_attr m) \<noteq> []
         then (Disable_detach k core, s\<lparr>ck_world := w\<rparr>)
         else (Disable_done, s\<lparr>ck_world := w, ck_mutable := (ck_mutable s)(core := None)\<rparr>))"

definition detach_section :: "nat \<Rightarrow> nat \<Rightarrow> 'c client_locks \<Rightarrow> 'c client_pc \<times> 'c client_locks" where
  "detach_section k core s =
     (Disable_done, s\<lparr>ck_dm := (ck_dm s)(k := foldl run_effect (ck_dm s k)
         (detach_datatype_if_same_instance (m_attr (td_mutable (w_cores (ck_world s) core))))),
       ck_mutable := (ck_mutable s)(core := None)\<rparr>)"

text \<open>The request has its effect on the backend, and the server's lock is released.\<close>

definition serve_section :: "string \<Rightarrow> ('c \<Rightarrow> 'c) \<Rightarrow> 'c client_locks \<Rightarrow> 'c client_pc \<times> 'c client_locks" where
  "serve_section rid f s =
     (Serve_done, s\<lparr>ck_world := (ck_world s)\<lparr>w_connectivity := f (w_connectivity (ck_world s))\<rparr>, ck_server := (ck_server s)(rid := None)\<rparr>)"

fun client_section :: "nat \<Rightarrow> 'c client_pc \<Rightarrow> 'c client_locks \<Rightarrow> ('c client_pc \<times> 'c client_locks) option" where
  "client_section t (Build_lock k al b) s =
     (if ck_manager s k = None then Some (Build_entry k al b, s\<lparr>ck_manager := (ck_manager s)(k := Some t)\<rparr>) else None)"
| "client_section t (Build_entry k al b) s =
     (case dm_get_datatype (ck_dm s k) (db_key b) of
        Some existing \<Rightarrow> Some (Build_state k al b (get_core_id existing), s)
      | None \<Rightarrow> Some (Build_register k al b (make_resource_id (cc_collection (dm_common (ck_dm s k))) (db_key b)), s))"
| "client_section t (Build_state k al b core) s =
     (if ck_mutable s core = None then Some (build_section k al b s) else None)"
| "client_section t (Build_register k al b rid) s =
     (if ck_server s rid = None then Some (build_section k al b s) else None)"
| "client_section t (Disable_lock k core) s =
     (if ck_mutable s core = None
      then Some (Disable_set k core, s\<lparr>ck_mutable := (ck_mutable s)(core := Some t)\<rparr>) else None)"
| "client_section t (Disable_set k core) s = Some (disable_section k core s)"
| "client_section t (Disable_detach k core) s = (if ck_manager s k = None then Some (detach_section k core s) else None)"
| "client_section t (Serve_lock rid creator f) s =
     (if ck_server s rid = None
      then (case creator of
              None \<Rightarrow> Some (serve_section rid f s)
            | Some core \<Rightarrow> Some (Serve_snapshot rid core f, s\<lparr>ck_server := (ck_server s)(rid := Some t)\<rparr>))
      else None)"
| "client_section t (Serve_snapshot rid core f) s =
     (if ck_mutable s core = None then Some (serve_section rid f s) else None)"
| "client_section t (Get_lock k key) s =
     (if ck_manager s k = None then Some (Get_done (dm_get_datatype (ck_dm s k) key), s) else None)"
| "client_section t (State_lock core) s =
     (if ck_mutable s core = None then Some (State_done (td_get_state (w_cores (ck_world s) core)), s) else None)"
| "client_section t _ s = None"

fun client_start :: "'c client_pc \<Rightarrow> bool" where
  "client_start (Build_lock k al b) = True"
| "client_start (Disable_lock k core) = True"
| "client_start (Serve_lock rid creator f) = True"
| "client_start (Get_lock k key) = True"
| "client_start (State_lock core) = True"
| "client_start _ = False"

fun client_returned :: "'c client_pc \<Rightarrow> bool" where
  "client_returned (Build_done r) = True"
| "client_returned Disable_done = True"
| "client_returned Serve_done = True"
| "client_returned (Get_done d) = True"
| "client_returned (State_done st) = True"
| "client_returned _ = False"

subsection \<open>Interleaving\<close>

record 'c client_threads =
  ct_locks :: "'c client_locks"
  ct_pc :: "nat \<Rightarrow> 'c client_pc option"

inductive client_step :: "'c client_threads \<Rightarrow> 'c client_threads \<Rightarrow> bool" where
  client_call: "ct_pc s t = None \<Longrightarrow> client_start pc \<Longrightarrow> client_step s (s\<lparr>ct_pc := (ct_pc s)(t \<mapsto> pc)\<rparr>)"
| client_run: "ct_pc s t = Some pc \<Longrightarrow> client_section t pc (ct_locks s) = Some (pc', l) \<Longrightarrow>
    client_step s \<lparr>ct_locks = l, ct_pc = (ct_pc s)(t \<mapsto> pc')\<rparr>"
| client_return: "ct_pc s t = Some pc \<Longrightarrow> client_returned pc \<Longrightarrow> client_step s (s\<lparr>ct_pc := (ct_pc s)(t := None)\<rparr>)"

definition client_idle :: "'c client_threads \<Rightarrow> bool" where
  "client_idle s = (ct_pc s = (\<lambda>_. None) \<and> ck_manager (ct_locks s) = (\<lambda>_. None) \<and> ck_mutable (ct_locks s) = (\<lambda>_. None) \<and>
     ck_server (ct_locks s) = (\<lambda>_. None))"

inductive client_reachable :: "'c client_threads \<Rightarrow> bool" where
  client_start_idle: "client_idle s \<Longrightarrow> client_reachable s"
| client_next: "client_reachable s \<Longrightarrow> client_step s s' \<Longrightarrow> client_reachable s'"

subsection \<open>Who holds which lock\<close>

fun holds_manager :: "nat \<Rightarrow> 'c client_pc option \<Rightarrow> bool" where
  "holds_manager k (Some (Build_entry j al b)) = (j = k)"
| "holds_manager k (Some (Build_state j al b core)) = (j = k)"
| "holds_manager k (Some (Build_register j al b rid)) = (j = k)"
| "holds_manager k _ = False"

fun holds_mutable :: "nat \<Rightarrow> 'c client_pc option \<Rightarrow> bool" where
  "holds_mutable core (Some (Disable_set k c)) = (c = core)"
| "holds_mutable core (Some (Disable_detach k c)) = (c = core)"
| "holds_mutable core _ = False"

fun holds_server :: "string \<Rightarrow> 'c client_pc option \<Rightarrow> bool" where
  "holds_server rid (Some (Serve_snapshot r core f)) = (r = rid)"
| "holds_server rid _ = False"

definition lock_inv :: "'c client_threads \<Rightarrow> bool" where
  "lock_inv s =
     ((\<forall>k t. ck_manager (ct_locks s) k = Some t \<longleftrightarrow> holds_manager k (ct_pc s t)) \<and>
      (\<forall>core t. ck_mutable (ct_locks s) core = Some t \<longleftrightarrow> holds_mutable core (ct_pc s t)) \<and>
      (\<forall>rid t. ck_server (ct_locks s) rid = Some t \<longleftrightarrow> holds_server rid (ct_pc s t)))"

lemma build_section_locks:
  "build_section k al b s = (pc, l) \<Longrightarrow> (\<exists>r. pc = Build_done r) \<and> ck_manager l = (ck_manager s)(k := None) \<and>
     ck_mutable l = ck_mutable s \<and> ck_server l = ck_server s"
  by (auto simp: build_section_def split: prod.splits)

lemma lock_inv_step:
  assumes "lock_inv s" and "client_step s s'"
  shows "lock_inv s'"
  using assms(2,1)
proof (induction rule: client_step.induct)
  case (client_call s t pc)
  then show ?case by (cases pc) (auto simp: lock_inv_def)
next
  case (client_run s t pc pc' l)
  then have m: "ck_manager (ct_locks s) k = Some u \<longleftrightarrow> holds_manager k (ct_pc s u)"
    and d: "ck_mutable (ct_locks s) c = Some u \<longleftrightarrow> holds_mutable c (ct_pc s u)"
    and v: "ck_server (ct_locks s) r = Some u \<longleftrightarrow> holds_server r (ct_pc s u)" for k u c r by (simp_all add: lock_inv_def)
  have m1: "u = t" if "holds_manager k (ct_pc s u)" "holds_manager k (Some pc)" for k u
    using m [of k t] m [of k u] that client_run.hyps(1) by simp
  have d1: "u = t" if "holds_mutable c (ct_pc s u)" "holds_mutable c (Some pc)" for u c
    using d [of c t] d [of c u] that client_run.hyps(1) by simp
  have v1: "u = t" if "holds_server r (ct_pc s u)" "holds_server r (Some pc)" for u r
    using v [of r t] v [of r u] that client_run.hyps(1) by simp
  have fm: "\<not> holds_manager k (ct_pc s u)" if "ck_manager (ct_locks s) k = None" for k u using m [of k u] that by simp
  have fd: "\<not> holds_mutable c (ct_pc s u)" if "ck_mutable (ct_locks s) c = None" for c u using d [of c u] that by simp
  have fv: "\<not> holds_server r (ct_pc s u)" if "ck_server (ct_locks s) r = None" for r u using v [of r u] that by simp
  note pc = client_run.hyps m d v
  show ?case
  proof (cases pc)
    case (Build_lock k al b)
    with pc fm show ?thesis by (auto simp: lock_inv_def split: if_splits)
  next
    case (Build_entry k al b)
    with pc m1 show ?thesis by (auto simp: lock_inv_def split: option.splits)
  next
    case (Build_state k al b core)
    with pc m1 show ?thesis by (auto simp: lock_inv_def dest!: build_section_locks split: if_splits)
  next
    case (Build_register k al b rid)
    with pc m1 show ?thesis by (auto simp: lock_inv_def dest!: build_section_locks split: if_splits)
  next
    case (Disable_lock k core)
    with pc fd show ?thesis by (auto simp: lock_inv_def split: if_splits)
  next
    case (Disable_set k core)
    with pc d1 show ?thesis by (auto simp: lock_inv_def disable_section_def Let_def split: if_splits)
  next
    case (Disable_detach k core)
    with pc d1 show ?thesis by (auto simp: lock_inv_def detach_section_def split: if_splits)
  next
    case (Serve_lock rid creator f)
    with pc fv show ?thesis by (auto simp: lock_inv_def serve_section_def split: if_splits option.splits)
  next
    case (Serve_snapshot rid core f)
    with pc v1 show ?thesis by (auto simp: lock_inv_def serve_section_def split: if_splits)
  qed (use pc in \<open>auto simp: lock_inv_def split: if_splits\<close>)
next
  case (client_return s t pc)
  then show ?case by (cases pc) (auto simp: lock_inv_def)
qed

lemma lock_inv_reachable: "client_reachable s \<Longrightarrow> lock_inv s"
proof (induction rule: client_reachable.induct)
  case (client_start_idle s)
  then show ?case by (simp add: client_idle_def lock_inv_def)
qed (rule lock_inv_step)

lemma holds_managerE:
  assumes "holds_manager k pc"
  obtains al b where "pc = Some (Build_entry k al b)" | al b core where "pc = Some (Build_state k al b core)"
  | al b rid where "pc = Some (Build_register k al b rid)"
  using assms by (cases "(k, pc)" rule: holds_manager.cases) auto

lemma holds_mutableE:
  assumes "holds_mutable core pc"
  obtains k where "pc = Some (Disable_set k core)" | k where "pc = Some (Disable_detach k core)"
  using assms by (cases "(core, pc)" rule: holds_mutable.cases) auto

lemma holds_serverE:
  assumes "holds_server rid pc"
  obtains core f where "pc = Some (Serve_snapshot rid core f)"
  using assms by (cases "(rid, pc)" rule: holds_server.cases) auto

subsection \<open>Waiting in a circle\<close>

text \<open>
  Thread \<open>tb\<close> builds a datatype of client \<open>k\<close> under a key that is taken by the datatype at \<open>core\<close> and waits for that datatype's state;
  thread \<open>td\<close> has disabled that datatype and waits for the manager.
\<close>

definition circular :: "'c client_threads \<Rightarrow> nat \<Rightarrow> nat \<Rightarrow> nat \<Rightarrow> nat \<Rightarrow> bool" where
  "circular s k tb td core =
     ((\<exists>al b. ct_pc s tb = Some (Build_state k al b core)) \<and> ct_pc s td = Some (Disable_detach k core) \<and>
      ck_manager (ct_locks s) k = Some tb \<and> ck_mutable (ct_locks s) core = Some td)"

text \<open>A building call that holds its client's manager and waits for a lock somebody holds: that of a datatype, or that of a server.\<close>

definition build_waits :: "'c client_threads \<Rightarrow> nat \<Rightarrow> nat \<Rightarrow> bool" where
  "build_waits s k tb =
     (ck_manager (ct_locks s) k = Some tb \<and>
      ((\<exists>al b core. ct_pc s tb = Some (Build_state k al b core) \<and> ck_mutable (ct_locks s) core \<noteq> None) \<or>
       (\<exists>al b rid. ct_pc s tb = Some (Build_register k al b rid) \<and> ck_server (ct_locks s) rid \<noteq> None)))"

lemma circular_step:
  assumes inv: "lock_inv s" and c: "circular s k tb td core" and st: "client_step s s'"
  shows "circular s' k tb td core \<and> ct_pc s' tb = ct_pc s tb \<and> ct_pc s' td = ct_pc s td"
  using st
proof (cases rule: client_step.cases)
  case (client_run t pc pc' l)
  have t: "t \<noteq> tb" "t \<noteq> td" using c client_run(2,3) by (auto simp: circular_def)
  have "ck_manager (ct_locks s) k \<noteq> Some t" "ck_mutable (ct_locks s) core \<noteq> Some t" using c t by (auto simp: circular_def)
  then have "\<not> holds_manager k (Some pc)" "\<not> holds_mutable core (Some pc)"
    using inv client_run(2) by (auto simp: lock_inv_def)
  then have "ck_manager l k = Some tb \<and> ck_mutable l core = Some td"
    using client_run(3) c
    by (cases pc) (auto simp: circular_def disable_section_def detach_section_def serve_section_def Let_def
        dest!: build_section_locks split: if_splits option.splits)
  with c t client_run(1) show ?thesis by (auto simp: circular_def)
qed (use c in \<open>auto simp: circular_def\<close>)

lemma circular_for_ever:
  assumes "client_step\<^sup>*\<^sup>* s s'" and "lock_inv s" and "circular s k tb td core"
  shows "circular s' k tb td core \<and> ct_pc s' tb = ct_pc s tb \<and> ct_pc s' td = ct_pc s td \<and> lock_inv s'"
  using assms(1)
proof (induction rule: rtranclp_induct)
  case (step s1 s2)
  with circular_step [of s1 k tb td core s2] lock_inv_step [of s1 s2] show ?case by auto
qed (use assms in simp)

lemma build_meets_disable:
  assumes idle: "ct_pc s tb = None" "ct_pc s td = None" "tb \<noteq> td"
    and free: "ck_manager (ct_locks s) k = None" "ck_mutable (ct_locks s) core = None"
    and taken: "dm_get_datatype (ck_dm (ct_locks s) k) (db_key b) = Some existing" "get_core_id existing = core"
    and live: "m_state (td_mutable (w_cores (ck_world (ct_locks s)) core)) \<noteq> Disabled"
      "at_core (m_attr (td_mutable (w_cores (ck_world (ct_locks s)) core))) = Some core"
  shows "\<exists>l. client_step\<^sup>*\<^sup>* s \<lparr>ct_locks = l, ct_pc = (ct_pc s)(tb \<mapsto> Build_state k al b core, td \<mapsto> Disable_detach k core)\<rparr> \<and>
    ck_manager l k = Some tb \<and> ck_mutable l core = Some td"
proof -
  let ?l = "ct_locks s"
  define l1 where "l1 = ?l\<lparr>ck_manager := (ck_manager ?l)(k := Some tb)\<rparr>"
  define l2 where "l2 = l1\<lparr>ck_mutable := (ck_mutable ?l)(core := Some td)\<rparr>"
  define l3 where "l3 = snd (disable_section k core l2)"
  define f where "f = (ct_pc s)(tb \<mapsto> Build_state k al b core)"
  have 1: "client_step s (s\<lparr>ct_pc := (ct_pc s)(tb \<mapsto> Build_lock k al b)\<rparr>)" by (rule client_call) (simp_all add: idle)
  have 2: "client_step (s\<lparr>ct_pc := (ct_pc s)(tb \<mapsto> Build_lock k al b)\<rparr>) \<lparr>ct_locks = l1, ct_pc = (ct_pc s)(tb \<mapsto> Build_entry k al b)\<rparr>"
    using client_run [of "s\<lparr>ct_pc := (ct_pc s)(tb \<mapsto> Build_lock k al b)\<rparr>" tb] free(1) by (simp add: l1_def)
  have 3: "client_step \<lparr>ct_locks = l1, ct_pc = (ct_pc s)(tb \<mapsto> Build_entry k al b)\<rparr> \<lparr>ct_locks = l1, ct_pc = f\<rparr>"
    using client_run [of "\<lparr>ct_locks = l1, ct_pc = (ct_pc s)(tb \<mapsto> Build_entry k al b)\<rparr>" tb] taken by (simp add: l1_def f_def)
  have 4: "client_step \<lparr>ct_locks = l1, ct_pc = f\<rparr> \<lparr>ct_locks = l1, ct_pc = f(td \<mapsto> Disable_lock k core)\<rparr>"
    using client_call [of "\<lparr>ct_locks = l1, ct_pc = f\<rparr>" td "Disable_lock k core"] idle by (simp add: f_def)
  have 5: "client_step \<lparr>ct_locks = l1, ct_pc = f(td \<mapsto> Disable_lock k core)\<rparr> \<lparr>ct_locks = l2, ct_pc = f(td \<mapsto> Disable_set k core)\<rparr>"
    using client_run [of "\<lparr>ct_locks = l1, ct_pc = f(td \<mapsto> Disable_lock k core)\<rparr>" td] free(2) by (simp add: l1_def l2_def)
  have d: "disable_section k core l2 = (Disable_detach k core, l3)" "ck_manager l3 k = Some tb" "ck_mutable l3 core = Some td"
    using live by (simp_all add: l3_def disable_section_def l2_def l1_def Let_def detach_datatype_if_same_instance_def)
  have 6: "client_step \<lparr>ct_locks = l2, ct_pc = f(td \<mapsto> Disable_set k core)\<rparr> \<lparr>ct_locks = l3, ct_pc = f(td \<mapsto> Disable_detach k core)\<rparr>"
    using client_run [of "\<lparr>ct_locks = l2, ct_pc = f(td \<mapsto> Disable_set k core)\<rparr>" td] d(1) by simp
  have "client_step\<^sup>*\<^sup>* s \<lparr>ct_locks = l3, ct_pc = f(td \<mapsto> Disable_detach k core)\<rparr>"
    using 1 2 3 4 5 6 by (meson converse_rtranclp_into_rtranclp rtranclp.rtrancl_refl)
  with d show ?thesis unfolding f_def by blast
qed

definition ex_threads :: "unit client_threads" where
  "ex_threads = \<lparr>ct_locks = \<lparr>ck_dm = (\<lambda>_. \<lparr>dm_common = at_client_common ex_attr, dm_datatypes = [(''k'', DS_Counter (Counter_new 7 0))]\<rparr>),
     ck_world = ex_w, ck_manager = (\<lambda>_. None), ck_mutable = (\<lambda>_. None), ck_server = (\<lambda>_. None)\<rparr>, ct_pc = (\<lambda>_. None)\<rparr>"

lemma ex_threads_reachable: "client_reachable ex_threads"
  by (rule client_start_idle) (simp add: client_idle_def ex_threads_def)

lemma client_reachable_steps: "client_step\<^sup>*\<^sup>* s s' \<Longrightarrow> client_reachable s \<Longrightarrow> client_reachable s'"
  by (induction rule: rtranclp_induct) (auto intro: client_next)

lemma ex_threads_meet:
  "ct_pc ex_threads = (\<lambda>_. None)" "ck_manager (ct_locks ex_threads) = (\<lambda>_. None)" "ck_mutable (ct_locks ex_threads) = (\<lambda>_. None)"
  "dm_get_datatype (ck_dm (ct_locks ex_threads) k) (db_key (create_datatype ex_extern ''k'')) = Some (DS_Counter (Counter_new 7 0))"
  "get_core_id (DS_Counter (Counter_new 7 0)) = 7"
  "m_state (td_mutable (w_cores (ck_world (ct_locks ex_threads)) 7)) \<noteq> Disabled"
  "at_core (m_attr (td_mutable (w_cores (ck_world (ct_locks ex_threads)) 7))) = Some 7"
  by (simp_all add: ex_threads_def dm_get_datatype_def create_datatype_def DatatypeBuilder_new_def Counter_new_def ex_w_def
      ex_td_def ex_attr_def set_transactional_def Attribute_new_def)

subsection \<open>Properties\<close>

text \<open>
  C16: Every deadlock comes from disabling. However the calls of any number of clients on an in-memory backend interleave
  (building and looking up datatypes, reading their states, serving requests, disabling datatypes), if calls are in progress and none of them can go on, then
  a datatype is being disabled and waits, with its own lock held, for the manager of its client; and that manager is held by a call that builds a datatype and itself waits
  for the lock of a datatype or of a server. The locks meant are those of managers, datatypes and servers.
\<close>

theorem only_deadlock:
  assumes reach: "client_reachable s" and t: "ct_pc s t = Some pc" "\<not> client_returned pc"
    and stuck: "\<And>t pc. ct_pc s t = Some pc \<Longrightarrow> client_section t pc (ct_locks s) = None"
  shows "\<exists>k core td tb. ct_pc s td = Some (Disable_detach k core) \<and> ck_mutable (ct_locks s) core = Some td \<and> build_waits s k tb"
proof -
  let ?l = "ct_locks s"
  have inv: "ck_manager ?l k = Some u \<longleftrightarrow> holds_manager k (ct_pc s u)" "ck_mutable ?l c = Some u \<longleftrightarrow> holds_mutable c (ct_pc s u)"
    "ck_server ?l r = Some u \<longleftrightarrow> holds_server r (ct_pc s u)" for k u c r
    using lock_inv_reachable [OF reach] by (simp_all add: lock_inv_def)
  have manager: "build_waits s k tb" if "ck_manager ?l k = Some tb" for k tb
  proof -
    from that inv(1) have "holds_manager k (ct_pc s tb)" by simp
    then show ?thesis
    proof (rule holds_managerE)
      fix al b
      assume "ct_pc s tb = Some (Build_entry k al b)"
      from stuck [OF this] show ?thesis by (simp split: option.splits)
    next
      fix al b core
      assume "ct_pc s tb = Some (Build_state k al b core)"
      with stuck [OF this] that show ?thesis by (auto simp: build_waits_def split: if_splits)
    next
      fix al b rid
      assume "ct_pc s tb = Some (Build_register k al b rid)"
      with stuck [OF this] that show ?thesis by (auto simp: build_waits_def split: if_splits)
    qed
  qed
  have mutable: ?thesis if "ck_mutable ?l c = Some u" for c u
  proof -
    from that inv(2) have "holds_mutable c (ct_pc s u)" by simp
    then show ?thesis
    proof (rule holds_mutableE)
      fix k
      assume "ct_pc s u = Some (Disable_set k c)"
      from stuck [OF this] show ?thesis by simp
    next
      fix k
      assume u: "ct_pc s u = Some (Disable_detach k c)"
      then obtain tb where "ck_manager ?l k = Some tb" using stuck [OF u] by (auto split: if_splits)
      with manager u that show ?thesis by blast
    qed
  qed
  have server: ?thesis if "ck_server ?l r = Some u" for r u
  proof -
    have "holds_server r (ct_pc s u)" using that inv(3) by simp
    then obtain core f where u: "ct_pc s u = Some (Serve_snapshot r core f)" by (rule holds_serverE)
    then obtain v where "ck_mutable ?l core = Some v" using stuck [OF u] by (auto split: if_splits)
    then show ?thesis by (rule mutable)
  qed
  have manager': ?thesis if "ck_manager ?l k = Some tb" for k tb
    using manager [OF that] mutable server unfolding build_waits_def by blast
  show ?thesis
    using t stuck [OF t(1)] mutable server manager' by (cases pc) (auto split: if_splits option.splits)
qed

theorem only_deadlock_witness:
  "\<exists>s. client_reachable (s :: unit client_threads) \<and> (\<exists>k core td tb. ct_pc s td = Some (Disable_detach k core) \<and> build_waits s k tb)"
proof -
  let ?b = "create_datatype ex_extern ''k''"
  let ?f = "(\<lambda>_. None)(1 \<mapsto> Build_state 0 ex_alloc ?b 7, 2 \<mapsto> Disable_detach 0 7)"
  obtain l where l: "client_step\<^sup>*\<^sup>* ex_threads \<lparr>ct_locks = l, ct_pc = ?f\<rparr>" "ck_manager l 0 = Some 1" "ck_mutable l 7 = Some 2"
    using build_meets_disable [of ex_threads 1 2 0 7 ?b "DS_Counter (Counter_new 7 0)" ex_alloc] ex_threads_meet
    by (auto simp del: One_nat_def)
  have stuck: "client_section t pc l = None" if "?f t = Some pc" for t pc
    using that l(2,3) by (auto split: if_splits simp del: One_nat_def)
  let ?s = "\<lparr>ct_locks = l, ct_pc = ?f\<rparr>"
  have r: "client_reachable ?s" by (rule client_reachable_steps [OF l(1) ex_threads_reachable])
  have pc: "ct_pc ?s 1 = Some (Build_state 0 ex_alloc ?b 7)" "\<not> client_returned (Build_state 0 ex_alloc ?b 7)" by simp_all
  have "client_section t pc (ct_locks ?s) = None" if "ct_pc ?s t = Some pc" for t pc using stuck [of t pc] that by simp
  from only_deadlock [OF r pc this] r show ?thesis by blast
qed

text \<open>
  C17: Building under a taken key can lock a client for ever. Whenever client \<open>k\<close> has a datatype that is not disabled yet and no
  lock is held, a call that builds a datatype under the same key and a disabling of that datatype (by the server, by an unsubscribe that is
  acknowledged, or by an error) can run into each other: each holds the lock the other one waits for. From then on
  neither ever returns, and the locks of the manager and of the datatype are never released.
\<close>

theorem build_disable_deadlock:
  assumes reach: "client_reachable s" and idle: "ct_pc s tb = None" "ct_pc s td = None" "tb \<noteq> td"
    and free: "ck_manager (ct_locks s) k = None" "ck_mutable (ct_locks s) core = None"
    and taken: "dm_get_datatype (ck_dm (ct_locks s) k) (db_key b) = Some existing" "get_core_id existing = core"
    and live: "m_state (td_mutable (w_cores (ck_world (ct_locks s)) core)) \<noteq> Disabled"
      "at_core (m_attr (td_mutable (w_cores (ck_world (ct_locks s)) core))) = Some core"
  shows "\<exists>s1. client_step\<^sup>*\<^sup>* s s1 \<and> ct_pc s1 tb = Some (Build_state k al b core) \<and> ct_pc s1 td = Some (Disable_detach k core) \<and>
    (\<forall>s2. client_step\<^sup>*\<^sup>* s1 s2 \<longrightarrow> ct_pc s2 tb = ct_pc s1 tb \<and> ct_pc s2 td = ct_pc s1 td \<and>
      ck_manager (ct_locks s2) k = Some tb \<and> ck_mutable (ct_locks s2) core = Some td)"
proof -
  obtain l where run: "client_step\<^sup>*\<^sup>* s \<lparr>ct_locks = l, ct_pc = (ct_pc s)(tb \<mapsto> Build_state k al b core, td \<mapsto> Disable_detach k core)\<rparr>"
    (is "client_step\<^sup>*\<^sup>* s ?s") and l: "ck_manager l k = Some tb" "ck_mutable l core = Some td"
    using build_meets_disable [OF idle free taken live] by blast
  have c: "circular ?s k tb td core" using l idle(3) by (simp add: circular_def)
  have "lock_inv ?s" by (rule lock_inv_reachable [OF client_reachable_steps [OF run reach]])
  from circular_for_ever [OF _ this c]
  have "ct_pc s2 tb = ct_pc ?s tb \<and> ct_pc s2 td = ct_pc ?s td \<and>
      ck_manager (ct_locks s2) k = Some tb \<and> ck_mutable (ct_locks s2) core = Some td" if "client_step\<^sup>*\<^sup>* ?s s2" for s2
    using that by (auto simp: circular_def)
  with run idle(3) show ?thesis by (intro exI [of _ ?s]) auto
qed

theorem build_disable_deadlock_witness:
  "\<exists>s1. client_step\<^sup>*\<^sup>* ex_threads s1 \<and> (\<forall>s2. client_step\<^sup>*\<^sup>* s1 s2 \<longrightarrow>
     ct_pc s2 1 = Some (Build_state 0 ex_alloc (create_datatype ex_extern ''k'') 7) \<and> ct_pc s2 2 = Some (Disable_detach 0 7))"
proof -
  have idle: "ct_pc ex_threads 1 = None" "ct_pc ex_threads 2 = None" "(1::nat) \<noteq> 2" "ck_mutable (ct_locks ex_threads) 7 = None" "ck_manager (ct_locks ex_threads) 0 = None"
    by (simp_all add: ex_threads_meet)
  from build_disable_deadlock [OF ex_threads_reachable idle(1-3,5,4) ex_threads_meet(4-7), of ex_alloc]
  show ?thesis
  proof (elim exE conjE)
    fix s1
    assume s1: "client_step\<^sup>*\<^sup>* ex_threads s1" "ct_pc s1 1 = Some (Build_state 0 ex_alloc (create_datatype ex_extern ''k'') 7)"
      "ct_pc s1 2 = Some (Disable_detach 0 7)"
      "\<forall>s2. client_step\<^sup>*\<^sup>* s1 s2 \<longrightarrow> ct_pc s2 1 = ct_pc s1 1 \<and> ct_pc s2 2 = ct_pc s1 2 \<and>
         ck_manager (ct_locks s2) 0 = Some 1 \<and> ck_mutable (ct_locks s2) 7 = Some 2"
    have "ct_pc s2 1 = Some (Build_state 0 ex_alloc (create_datatype ex_extern ''k'') 7) \<and> ct_pc s2 2 = Some (Disable_detach 0 7)"
      if "client_step\<^sup>*\<^sup>* s1 s2" for s2
      using s1(4) [THEN spec, THEN mp, OF that] unfolding s1(2,3) by (elim conjE) (intro conjI)
    with s1(1) show ?thesis by blast
  qed
qed

end
