(* ===== verification/Protocol_Gaps.thy ===== *)
theory Protocol_Gaps
  imports Replication
begin

text \<open>
  Behaviours of the server and the pull handler at the edge of the system's step relation. Its guards exclude
  a snapshot taken of a creator with unacknowledged work, a creation request answered late, and a client
  that comes back under its old id: each is shown to be real. Two more end the life of a replica: writes
  before the first exchange, and an unsubscribe call that overtakes an exchange.
\<close>

subsection \<open>Concrete situations\<close>

text \<open>The creator of the run in the middle of a transaction.\<close>

definition ex_a3 :: MutableDatatype where
  "ex_a3 = fst (execute_local_operation ex_a2 (new_counter_increase 0 3))"

lemma ex_a2_inv:
  "buffer_inv (get_cuid (m_attr ex_a2)) ex_a2" "linked (ls_history ex_srv2) (get_cuid (m_attr ex_a2)) ex_a2" "order_inv ex_srv2"
  using replica_inv_reachable [OF ex_run_c ex_sysC_simps(11)] sys_inv_reachable [OF ex_run_c]
  by (simp_all add: ex_sysC_simps sys_inv_def)

lemma ex_a3_linked: "linked (ls_history ex_srv2) (get_cuid (m_attr ex_a2)) ex_a3"
  by (rule operation_keeps(2) [OF ex_a2_inv(1,2) _ _ ex_a3_def]) (simp_all add: ex_a2_def ex_a1_def)

lemma ex_a3_work:
  "pending_delta ex_a3 = 3" "drop (unat (cp_cseq (m_checkpoint ex_a3))) (pb_transaction (m_push_buffer ex_a3)) = []"
  by (simp_all add: ex_a3_def execute_local_operation_counter ex_a2_def ex_a1_def pending_delta_def record_operation_def
      push_operation_def Transaction_new_def ex_run_defs)

lemma ex_srv2_facts:
  "get_creator_wired_datatype ex_srv2 = Some 0" "ls_created ex_srv2" "own (get_cuid ex_attr_b) (ls_history ex_srv2) = []"
  "ls_type ex_srv2 = Type_Counter" "ls_duid ex_srv2 = get_duid ex_attr" "ls_sseq ex_srv2 = 1"
  by (simp_all add: ex_srv2_def ex_srv1_def get_creator_wired_datatype_def insert_client_item_def LocalDatatypeServer_new_def
      hm_insert_def hm_remove_def ex_tx1_def own_def ex_run_defs)

subsection \<open>Properties\<close>

text \<open>
  C36: A snapshot contains what the creator has not pushed yet. A replica that subscribes while the
  creator has unacknowledged or uncommitted work takes over a value that already includes it, under a
  checkpoint that does not: when these transactions reach the server, the subscriber pulls and adds
  them a second time.
\<close>

theorem snapshot_counts_unacknowledged:
  assumes ord: "order_inv s" and m: "m_state m = Subscribing" "m_checkpoint m = CheckPoint_default"
    and p: "create_push_pull_pack x m = Ok p" "ppp_transactions p = []" "at_type (m_attr m) = ls_type s"
    and new: "own (get_cuid (m_attr m)) (ls_history s) = []" and created: "ls_created s"
    and a: "get_creator_wired_datatype s = Some a" "linked (ls_history s) v (wd_mutable (h a))"
  shows "\<exists>q m'. process_subscribing now h s p = (s, Ok q) \<and> apply_pull q m = (m', Ok ()) \<and>
    crdt_value (m_crdt m') = txs_delta (ls_history s) +
      (txs_delta (drop (unat (cp_cseq (m_checkpoint (wd_mutable (h a))))) (pb_transaction (m_push_buffer (wd_mutable (h a))))) +
       pending_delta (wd_mutable (h a))) \<and>
    cp_sseq (m_checkpoint m') = ls_sseq s"
proof -
  let ?a = "wd_mutable (h a)" and ?H = "ls_history s" and ?u = "get_cuid (m_attr m)"
  let ?S = "unat (cp_sseq (m_checkpoint ?a))"
  have pf: "ppp_cuid p = ?u" "ppp_type p = ls_type s"
    using p by (auto simp: create_push_pull_pack_def checkpointing_def PushPullPack_new_def get_cuid_def Let_def split: result.splits)
  have num: "map tx_sseq ?H = map (\<lambda>i. of_nat (Suc i)) [0..<length ?H]" "length ?H < 2 ^ 64" "counter_txs ?H"
    using ord by (simp_all add: order_inv_def Let_def)
  have others: "filter (\<lambda>t. tx_cuid t \<noteq> ?u) (drop n ?H) = drop n ?H" for n
    using new by (auto simp: own_def filter_empty_conv filter_id_conv dest: in_set_dropD)
  define q where "q = (pull_transactions s ((get_pulled_stub p)\<lparr>ppp_duid := ls_duid s,
      ppp_checkpoint := CheckPoint_default\<lparr>cp_sseq := cp_sseq (m_checkpoint ?a)\<rparr>,
      ppp_snapshot_transaction := Some (get_subscribe_snapshot now (h a))\<rparr>))\<lparr>ppp_state := Subscribed\<rparr>"
  have e: "process_subscribing now h s p = (s, Ok q)"
    using created p(2) pf a(1) by (simp add: process_subscribing_def q_def get_pulled_stub_def get_subscribe_snapshot_def Let_def)
  have q: "ppp_error q = None" "ppp_state q = Subscribed" "ppp_checkpoint q = \<lparr>cp_sseq = ls_sseq s, cp_cseq = 0\<rparr>"
      "ppp_transactions q = drop ?S ?H" "ppp_snapshot_transaction q = Some (get_subscribe_snapshot now (h a))"
    using sseq_drop [OF num(1,2), of "cp_sseq (m_checkpoint ?a)"] others
    by (simp_all add: q_def pull_transactions_def get_pulled_stub_def pf CheckPoint_default_def)
  have acc: "accepted m q" and sn: "\<not> no_snapshot m q"
    using m q num by (simp_all add: accepted_def no_snapshot_def syncable_def)
  have tx: "tx_operations (get_subscribe_snapshot now (h a)) = [new_snapshot_operation now ?a]"
    by (simp add: get_subscribe_snapshot_def push_operation_def Transaction_new_with_cuid_def)
  define m' where "m' = set_state (pulled_into q (subscribed_from q (new_snapshot_operation now ?a) (m_crdt ?a) m)) Subscribed"
  have ap: "apply_pull q m = (m', Ok ())"
    unfolding m'_def by (rule apply_pull_snapshot [OF acc sn q(5) tx snapshot_op_simps(1)]) simp
  have "unskipped (m_checkpoint m) q = drop ?S ?H"
    using order_numbers(1) [OF ord] by (simp add: unskipped_def calculate_pulling_transactions_def q m(2) CheckPoint_default_def Let_def)
  then have "crdt_value (m_crdt m') = crdt_value (m_crdt ?a) + txs_delta (drop ?S ?H)"
    by (simp add: m'_def subscribed_from_def Let_def)
  moreover have "crdt_value (m_crdt ?a) = txs_delta (take ?S ?H) +
      txs_delta (drop (unat (cp_cseq (m_checkpoint ?a))) (pb_transaction (m_push_buffer ?a))) + pending_delta ?a"
    using a(2) by (simp add: linked_def Let_def)
  moreover have "cp_sseq (m_checkpoint m') = ls_sseq s"
    by (simp add: m'_def subscribed_from_def check_with_def q m(2) CheckPoint_default_def Let_def)
  ultimately show ?thesis using e ap txs_delta_cut [of ?H ?S] by (simp add: algebra_simps)
qed

theorem snapshot_counts_unacknowledged_witness:
  "\<exists>q m'. process_subscribing 0 (\<lambda>_. WiredDatatype_new ex_a3) ex_srv2 ex_p2 = (ex_srv2, Ok q) \<and> apply_pull q ex_b0 = (m', Ok ()) \<and>
     crdt_value (m_crdt m') = txs_delta (ls_history ex_srv2) + 3 \<and> cp_sseq (m_checkpoint m') = 1"
proof -
  have b0: "m_state ex_b0 = Subscribing" "m_checkpoint ex_b0 = CheckPoint_default" "ppp_transactions ex_p2 = []"
      "m_attr ex_b0 = ex_attr_b" "at_type ex_attr_b = Type_Counter"
    by (simp_all add: ex_b0_def ex_p2_def PushPullPack_new_def ex_run_defs)
  have "linked (ls_history ex_srv2) (get_cuid (m_attr ex_a2)) (wd_mutable (WiredDatatype_new ex_a3))"
    using ex_a3_linked by (simp add: WiredDatatype_new_def)
  from snapshot_counts_unacknowledged [OF ex_a2_inv(3) b0(1,2) ex_ask_b b0(3) _ _ ex_srv2_facts(2,1) this, of 0]
  show ?thesis by (simp add: b0 ex_srv2_facts ex_a3_work WiredDatatype_new_def)
qed

text \<open>
  C37: A late acknowledgement of a creation hides the history. A creation request that is repeated
  after others have pushed is answered without an error, with the server's sequence number as
  checkpoint and without a single transaction; the replica moves past transactions it has never seen
  and no later exchange sends them.
\<close>

theorem repeated_creation_skips_history:
  assumes dup: "ls_duid s = ppp_duid p" and w: "\<not> ppp_is_readonly p" "ppp_transactions p = []"
    and m: "m_state m = Creating" "m_checkpoint m = CheckPoint_default"
  shows "\<exists>s' q m'. process_creating s p = (s', Ok q) \<and> ls_history s' = ls_history s \<and> apply_pull q m = (m', Ok ()) \<and>
    crdt_value (m_crdt m') = crdt_value (m_crdt m) \<and> cp_sseq (m_checkpoint m') = ls_sseq s \<and> m_state m' = Subscribed"
proof -
  let ?s = "s\<lparr>ls_created := True, ls_creator := ppp_cuid p, ls_duid := ppp_duid p\<rparr>"
  obtain s' c any where push: "push_transactions ?s p = (s', c, any)" by (metis prod.collapse)
  then have s': "ls_history s' = ls_history s" "ls_sseq s' = ls_sseq s"
    using w(2) by (auto simp: push_transactions_eq Let_def)
  define q where "q = (get_pulled_stub p)\<lparr>ppp_checkpoint := CheckPoint_default\<lparr>cp_sseq := ls_sseq s', cp_cseq := c\<rparr>, ppp_state := Subscribed\<rparr>"
  have e: "process_creating s p = (s', Ok q)"
    using dup w(1) push by (simp add: process_creating_def q_def get_pulled_stub_def Let_def)
  have "accepted m q" "no_snapshot m q"
    using m by (simp_all add: accepted_def no_snapshot_def syncable_def q_def get_pulled_stub_def)
  from apply_pull_accepted [OF this] m e s' show ?thesis
    by (auto simp: q_def get_pulled_stub_def unskipped_def check_with_def CheckPoint_default_def Let_def)
qed


theorem repeated_creation_skips_history_witness:
  "\<exists>s' q m'. process_creating (ex_srv2\<lparr>ls_history := ls_history ex_srv2 @ [ex_tx 9 9], ls_sseq := 2\<rparr>)
       (PushPullPack_new ex_attr Creating) = (s', Ok q) \<and> apply_pull q (ex_new ex_attr Creating) = (m', Ok ()) \<and>
     crdt_value (m_crdt m') = 0 \<and> cp_sseq (m_checkpoint m') = 2"
proof -
  have n: "m_state (ex_new ex_attr Creating) = Creating" "m_checkpoint (ex_new ex_attr Creating) = CheckPoint_default"
      "crdt_value (m_crdt (ex_new ex_attr Creating)) = 0"
    by (simp_all add: ex_run_defs)
  have "ls_duid (ex_srv2\<lparr>ls_history := ls_history ex_srv2 @ [ex_tx 9 9], ls_sseq := 2\<rparr>) = ppp_duid (PushPullPack_new ex_attr Creating)"
      "\<not> ppp_is_readonly (PushPullPack_new ex_attr Creating)" "ppp_transactions (PushPullPack_new ex_attr Creating) = []"
    by (simp_all add: ex_srv2_facts PushPullPack_new_def) (simp add: ex_run_defs)
  from repeated_creation_skips_history [OF this n(1,2)] n(3) show ?thesis by auto
qed

text \<open>
  C38: Local writes before the first exchange with an existing datatype disable the replica. A
  \<open>subscribe_or_create\<close> replica may be written to at once, but when the datatype turns out to exist
  its first request is refused for carrying transactions; applying the answer disables the replica,
  and the recovery throws the transactions away.
\<close>

theorem early_writes_are_refused:
  assumes "ls_created s" and "ls_type s = ppp_type p" and "ppp_transactions p \<noteq> []"
  shows "\<exists>q m' e. process_subscribing_or_creating now h s p = (s, Ok q) \<and> apply_pull q m = (m', Err e) \<and> m_state m' = Disabled \<and>
    dewa_recovery e = Disable \<and> dewa_error e = ServerRejected (Rejected_ProtocolViolation ''cannot push transactions when subscribing'') \<and>
    pb_transaction (m_push_buffer (fst (apply_action m' (dewa_recovery e)))) = []"
proof -
  define q where "q = refuse (get_pulled_stub p) (PPE_ProtocolViolation ''cannot push transactions when subscribing'')"
  have "process_subscribing_or_creating now h s p = (s, Ok q)"
    using assms by (simp add: process_subscribing_or_creating_def process_subscribing_def q_def)
  moreover have "ppp_error q = Some (PPE_ProtocolViolation ''cannot push transactions when subscribing'')" "ppp_state q = Disabled"
    by (simp_all add: q_def refuse_def)
  ultimately show ?thesis using apply_pull_error [of q _ m]
    by (auto simp: mutable_disable_def MemoryPushBuffer_new_def)
qed

theorem early_writes_are_refused_witness:
  "\<exists>q m' e. process_subscribing_or_creating 0 ex_heap ex_srv2 (ex_p1\<lparr>ppp_state := SubscribingOrCreating\<rparr>) = (ex_srv2, Ok q) \<and>
     apply_pull q (ex_a1\<lparr>m_state := SubscribingOrCreating\<rparr>) = (m', Err e) \<and> m_state m' = Disabled"
  using early_writes_are_refused [of ex_srv2 "ex_p1\<lparr>ppp_state := SubscribingOrCreating\<rparr>" 0 ex_heap "ex_a1\<lparr>m_state := SubscribingOrCreating\<rparr>"]
  by (auto simp: ex_srv2_facts ex_p1_def PushPullPack_new_def ex_run_defs)

text \<open>
  C39: A client that comes back is not heard. The server keeps the acknowledged sequence number of a
  client that unsubscribed; when the same client subscribes again its numbers start at 1, and what it
  pushes is acknowledged but never enters the history until it has made as many transactions as before.
\<close>

theorem returning_client_is_ignored:
  assumes gone: "process_unsubscribing x s p rt = (s1, Ok q)" "hm_contains (ls_wired_map s) (ppp_cuid p)" "ppp_error q = None"
    and again: "ppp_cuid p' = ppp_cuid p" "ppp_type p' = ls_type s" "\<not> ppp_is_readonly p'"
    and few: "\<forall>t \<in> set (ppp_transactions p'). tx_cseq t \<le> cp_cseq (ppp_checkpoint q)"
    and e: "process_subscribed (insert_client_item s1 (ppp_cuid p) w sender) p' rt = (s2, Ok q')"
  shows "ls_history s2 = ls_history s1 \<and> ppp_error q' = None \<and> cp_cseq (ppp_checkpoint q') = cp_cseq (ppp_checkpoint q)"
proof -
  let ?u = "ppp_cuid p" and ?c = "cp_cseq (ppp_checkpoint q)"
  obtain t0 q0 where push: "process_client_push s p Disabled rt = (t0, q0)" by (metis prod.collapse)
  note frame = process_client_push_frame [OF push]
  have t0: "ls_history s1 = ls_history t0" "ls_cseq_map s1 = ls_cseq_map t0" "ls_type s1 = ls_type t0" "q = q0"
    using gone(1,2) push by (auto simp: process_unsubscribing_def Let_def split: option.splits if_splits)
  have "cp_cseq (client_checkpoint t0 ?u) = ?c"
    using push gone(3) t0(4)
    by (auto simp: process_client_push_def push_transactions_eq refuse_def pull_transactions_def client_checkpoint_def
        get_pulled_stub_def Let_def split: if_splits)
  then have cp: "cp_cseq (client_checkpoint (insert_client_item s1 ?u w sender) (ppp_cuid p')) = ?c"
    using again(1) t0(2) by (simp add: client_checkpoint_def insert_client_item_def)
  have none: "fresh_txs ?c (ppp_transactions p') = []" "max_cseq ?c (ppp_transactions p') = ?c"
    using few by (auto intro!: fresh_txs_none max_cseq_same)
  have ty: "ls_type (insert_client_item s1 ?u w sender) = ls_type s" by (simp add: insert_client_item_def t0(3) frame)
  obtain s3 c any where push2: "push_transactions (insert_client_item s1 ?u w sender) p' = (s3, c, any)" by (metis prod.collapse)
  then have s3: "ls_history s3 = ls_history s1" "c = ?c"
    using cp none by (auto simp: push_transactions_eq insert_client_item_def Let_def)
  have "hm_contains (ls_wired_map (insert_client_item s1 ?u w sender)) (ppp_cuid p')"
    using again(1) by (simp add: insert_client_item_def)
  with e again ty push2 s3 show ?thesis
    by (auto simp: process_subscribed_def process_client_push_def pull_transactions_def get_pulled_stub_def Let_def split: if_splits)
qed

theorem returning_client_is_ignored_witness:
  "\<exists>s1 q s2 q'. process_unsubscribing ex_extern ex_srv2 (PushPullPack_new ex_attr Unsubscribing) True = (s1, Ok q) \<and>
     process_subscribed (insert_client_item s1 (get_cuid ex_attr) 0 0) ex_p1 True = (s2, Ok q') \<and>
     ppp_transactions ex_p1 = [ex_tx1] \<and> ls_history s2 = ls_history s1 \<and> ppp_error q' = None \<and> cp_cseq (ppp_checkpoint q') = 1"
proof -
  let ?p = "PushPullPack_new ex_attr Unsubscribing"
  have cuid: "ppp_cuid ?p = get_cuid ex_attr" "ppp_cuid ex_p1 = ppp_cuid ?p" "ppp_type ex_p1 = ls_type ex_srv2" "\<not> ppp_is_readonly ex_p1"
      "hm_contains (ls_wired_map ex_srv2) (ppp_cuid ?p)" "ppp_transactions ex_p1 = [ex_tx1]" "tx_cseq ex_tx1 = 1"
    by (simp_all add: ex_p1_def PushPullPack_new_def ex_srv2_def ex_srv1_def insert_client_item_def LocalDatatypeServer_new_def
        ex_tx1_def ex_run_defs)
  obtain s1 r where g: "process_unsubscribing ex_extern ex_srv2 ?p True = (s1, r)" by (metis prod.collapse)
  have r: "\<exists>q. r = Ok q \<and> ppp_error q = None \<and> cp_cseq (ppp_checkpoint q) = 1"
    using g cuid(5)
    by (simp add: process_unsubscribing_def process_client_push_def PushPullPack_new_def get_pulled_stub_def push_transactions_eq
        client_checkpoint_def ex_srv2_def max_cseq_def pull_transactions_def ex_run_defs case_prod_beta)
      (auto split: option.splits if_splits)
  then obtain q where q: "r = Ok q" "ppp_error q = None" "cp_cseq (ppp_checkpoint q) = 1" by blast
  obtain s2 r' where e: "process_subscribed (insert_client_item s1 (ppp_cuid ?p) 0 0) ex_p1 True = (s2, r')" by (metis prod.collapse)
  obtain q' where r': "r' = Ok q'" using e by (auto simp: process_subscribed_def Let_def split: if_splits prod.splits)
  from returning_client_is_ignored [OF g [unfolded q(1)] cuid(5) q(2) cuid(2-4) _ e [unfolded r']] cuid q
  show ?thesis using g e r' by (auto simp: q(1))
qed

text \<open>
  C40: An unsubscribe call that overtakes an exchange. When a subscribed replica asks, the user calls
  unsubscribe before the answer is applied, and the server accepted the request, then applying the
  answer fails as a protocol violation: the replica is disabled without the acknowledgement, and the
  server still counts the client as a subscriber.
\<close>

theorem unsubscribe_overtakes_exchange:
  assumes e: "process_subscribed s p rt = (s', Ok q)" "ppp_error q = None" and m: "m_state m = Subscribed"
  shows "\<exists>m' er. apply_pull q (set_state m Unsubscribing) = (m', Err er) \<and> m_state m' = Disabled \<and> dewa_recovery er = Disable \<and>
    m_checkpoint m' = m_checkpoint m \<and> m_push_buffer m' = m_push_buffer m \<and> m_crdt m' = m_crdt m \<and>
    hm_contains (ls_wired_map s') (ppp_cuid p)"
proof -
  have acc: "hm_contains (ls_wired_map s) (ppp_cuid p)" and push: "process_client_push s p Subscribed rt = (s', q)"
    using e by (auto simp: process_subscribed_def refuse_def Let_def split: if_splits prod.splits)
  have st: "ppp_state q = Subscribed"
    using push e(2) by (auto simp: process_client_push_def refuse_def Let_def split: if_splits prod.splits)
  have "hm_contains (ls_wired_map s') (ppp_cuid p)" using acc by (simp add: process_client_push_frame(1) [OF push])
  with apply_pull_illegal [of "set_state m Unsubscribing" q] e(2) st show ?thesis
    by (simp add: syncable_def process_illegal_state_response_def)
qed


theorem unsubscribe_overtakes_exchange_witness:
  "\<exists>s' q m' er. process_subscribed ex_srv2 (PushPullPack_new ex_attr Subscribed) True = (s', Ok q) \<and>
     apply_pull q (set_state ex_a2 Unsubscribing) = (m', Err er) \<and> m_state m' = Disabled"
proof -
  obtain s' r where e: "process_subscribed ex_srv2 (PushPullPack_new ex_attr Subscribed) True = (s', r)" by (metis prod.collapse)
  then have "\<exists>q. r = Ok q \<and> ppp_error q = None"
    by (auto simp: process_subscribed_def process_client_push_def PushPullPack_new_def get_pulled_stub_def pull_transactions_def
        ex_srv2_def ex_srv1_def insert_client_item_def LocalDatatypeServer_new_def ex_run_defs split: prod.splits if_splits)
  then obtain q where q: "r = Ok q" "ppp_error q = None" by blast
  from unsubscribe_overtakes_exchange [OF e [unfolded q(1)] q(2) ex_sysC_simps(4)] e q show ?thesis by auto
qed

end
