(* ===== verification/Datatype_Api.thy ===== *)
theory Datatype_Api
  imports Client
begin

text \<open>
  The common interface of all datatypes (\<open>datatypes/datatype.rs\<close>): the blanket implementation
  forwards every call of a handle to the core datatype it points to. The cores live in a heap, so a
  call returns the heap with its own core updated. \<open>resp_tx\<close> names the response channel of a
  \<open>sync\<close> call, \<open>shared\<close> says whether somebody else still holds the removed handler.
\<close>

definition get_core :: "Counter \<Rightarrow> nat" where
  "get_core self = ct_datatype self"

definition dt_get_key :: "cores \<Rightarrow> Counter \<Rightarrow> string" where
  "dt_get_key cores self = td_get_key (cores (get_core self))"

definition dt_get_type :: "cores \<Rightarrow> Counter \<Rightarrow> DataType" where
  "dt_get_type cores self = td_get_type (cores (get_core self))"

definition dt_get_state :: "cores \<Rightarrow> Counter \<Rightarrow> DatatypeState" where
  "dt_get_state cores self = td_get_state (cores (get_core self))"

definition dt_get_server_version :: "cores \<Rightarrow> Counter \<Rightarrow> u64" where
  "dt_get_server_version cores self = td_get_server_version (cores (get_core self))"

definition dt_get_client_version :: "cores \<Rightarrow> Counter \<Rightarrow> u64" where
  "dt_get_client_version cores self = td_get_client_version (cores (get_core self))"

definition dt_get_synced_client_version :: "cores \<Rightarrow> Counter \<Rightarrow> u64" where
  "dt_get_synced_client_version cores self = td_get_synced_client_version (cores (get_core self))"

definition dt_sync :: "cores \<Rightarrow> Counter \<Rightarrow> nat \<Rightarrow> cores \<times> (unit, DatatypeError) result" where
  "dt_sync cores self resp_tx =
     (let (td, r) = td_sync (cores (get_core self)) resp_tx in (cores(get_core self := td), r))"

definition dt_unsubscribe :: "cores \<Rightarrow> Counter \<Rightarrow> cores \<times> (unit, DatatypeError) result" where
  "dt_unsubscribe cores self =
     (let (td, r) = td_unsubscribe (cores (get_core self)) in (cores(get_core self := td), r))"

definition dt_set_handler :: "cores \<Rightarrow> Counter \<Rightarrow> usize \<Rightarrow> DatatypeHandler \<Rightarrow> cores" where
  "dt_set_handler cores self i handler =
     cores(get_core self := td_set_handler (cores (get_core self)) i handler)"

definition dt_unset_handler :: "cores \<Rightarrow> Counter \<Rightarrow> usize \<Rightarrow> bool \<Rightarrow> cores \<times> DatatypeHandler option" where
  "dt_unset_handler cores self i shared =
     (let (td, old) = td_unset_handler (cores (get_core self)) i shared in (cores(get_core self := td), old))"

definition dt_get_attr :: "cores \<Rightarrow> Counter \<Rightarrow> Attribute" where
  "dt_get_attr cores self = m_attr (td_mutable (cores (get_core self)))"

definition dt_increase_by ::
  "SystemTime \<Rightarrow> nat \<Rightarrow> cores \<Rightarrow> Counter \<Rightarrow> i64 \<Rightarrow> (cores \<times> (i64, DatatypeError) result) option" where
  "dt_increase_by now fresh cores self d =
     map_option (\<lambda>(td, r). (cores(get_core self := td), r)) (increase_by now fresh self d (cores (get_core self)))"

text \<open>What the interface allows in which state.\<close>

definition may_sync :: "DatatypeState \<Rightarrow> bool" where
  "may_sync s = (s \<noteq> Disabled)"

definition may_unsubscribe :: "DatatypeState \<Rightarrow> bool" where
  "may_unsubscribe s = (s = Subscribed)"

definition may_write :: "DatatypeState \<Rightarrow> bool \<Rightarrow> bool" where
  "may_write s readonly = (s \<in> {Creating, SubscribingOrCreating, Subscribed} \<and> \<not> readonly)"

text \<open>No call is under way on the datatype and no operation is waiting for its transaction to end.\<close>

definition at_rest :: "TransactionalDatatype \<Rightarrow> bool" where
  "at_rest td = (td_tx_ctx td = None \<and> \<not> td_op_mutex td \<and> \<not> td_tx_mutex td \<and> pending (m_tx_record (td_mutable td)) = None)"

lemma is_read_writable_iff: "is_read_writable s \<longleftrightarrow> s \<in> {Creating, SubscribingOrCreating, Subscribed}"
  by (cases s) auto

lemma write_refused:
  assumes "\<not> may_write (dt_get_state cores c) (at_is_readonly (dt_get_attr cores c))"
  shows "\<exists>e. dt_increase_by now fresh cores c d = Some (cores, Err e) \<and>
    (if may_write (dt_get_state cores c) False then e = ReadonlyViolation else (\<exists>msg. e = NotWritable msg))"
proof -
  have "fun_upd cores (get_core c) (cores (get_core c)) = cores" by simp
  with assms show ?thesis
    by (auto simp: dt_increase_by_def dt_get_state_def dt_get_attr_def check_writable_def execute_local_operation_as_tx_def increase_by_def
        may_write_def td_get_state_def is_read_writable_iff)
qed

lemma write_accepted:
  assumes may: "may_write (dt_get_state cores c) (at_is_readonly (dt_get_attr cores c))" and td: "cores (get_core c) = td"
    and rest: "at_rest td" "mutable_reachable (td_mutable td)" "\<not> has_tag (ct_tx_ctx c)"
  shows "\<exists>td'. dt_increase_by now fresh cores c d = Some (cores(get_core c := td'), Ok (get_value td + d)) \<and>
    at_rest td' \<and> td_get_state td' = dt_get_state cores c \<and>
    (let m = td_mutable td; b = m_push_buffer m; tx1 = set_tag (tx_of (m_op_id m) [new_counter_increase now d]) None
     in if pb_mem_size b + Transaction_size tx1 \<le> max_mem_size_of_push_buffer (pb_option b)
        then get_value td' = get_value td + d \<and> pb_transaction (m_push_buffer (td_mutable td')) = pb_transaction b @ [tx1]
        else get_value td' = get_value td \<and> m_push_buffer (td_mutable td') = b)"
proof -
  have "check_writable td = Ok ()"
    using may td by (auto simp: check_writable_def may_write_def dt_get_state_def dt_get_attr_def td_get_state_def is_read_writable_iff)
  with rest(1) have "idle td" by (simp add: idle_def at_rest_def)
  then obtain td' where td': "increase_by now fresh c d td = Some (td', Ok (get_value td + d))" "idle td'"
    "m_state (td_mutable td') = m_state (td_mutable td)" "commits (td_mutable td) [new_counter_increase now d] None (td_event_loop td) td'"
    using increase_by_effect [OF _ rest(2,3), of now fresh d] by auto
  have "at_rest td'" "td_get_state td' = dt_get_state cores c"
    using td'(2,3) td by (simp_all add: idle_def at_rest_def dt_get_state_def td_get_state_def)
  with td' td show ?thesis
    by (intro exI [of _ td']) (simp add: dt_increase_by_def commits_def get_value_def ops_delta_def Let_def)
qed

text \<open>
  C33: The lifecycle guards of the interface. \<open>sync\<close> is refused exactly for a disabled datatype,
  \<open>unsubscribe\<close> for every state but subscribed, a write for a datatype that is read only or not in
  one of the three writable states; a refused call changes nothing at all and says why. An accepted
  \<open>sync\<close> only queues its request, an accepted \<open>unsubscribe\<close> only moves the state. A write that is allowed, through a handle that is
  not that of a transaction and on a datatype at rest, returns the value plus the amount; if the push buffer has room, the value
  is increased and exactly one transaction with exactly this increment is appended to the buffer, otherwise value and buffer are as before. No call
  reaches another datatype.
\<close>

theorem api_lifecycle_guards:
  "(case dt_sync cores c tx of (cores', r) \<Rightarrow>
      if may_sync (dt_get_state cores c)
      then r = Ok () \<and> cores' = cores(get_core c := (cores (get_core c))\<lparr>td_event_loop := (td_event_loop (cores (get_core c)))
             \<lparr>el_unbounded := el_unbounded (td_event_loop (cores (get_core c))) @ [PushTransaction (Some tx)]\<rparr>\<rparr>)
      else cores' = cores \<and> (\<exists>msg. r = Err (NotWritable msg))) \<and>
   (case dt_unsubscribe cores c of (cores', r) \<Rightarrow>
      if may_unsubscribe (dt_get_state cores c)
      then r = Ok () \<and> dt_get_state cores' c = Unsubscribing \<and>
           get_value (cores' (get_core c)) = get_value (cores (get_core c)) \<and>
           m_push_buffer (td_mutable (cores' (get_core c))) = m_push_buffer (td_mutable (cores (get_core c))) \<and>
           (\<forall>a. a = get_core c \<or> cores' a = cores a)
      else cores' = cores \<and> (\<exists>msg. r = Err (NotWritable msg))) \<and>
   (if may_write (dt_get_state cores c) (at_is_readonly (dt_get_attr cores c))
    then at_rest (cores (get_core c)) \<and> mutable_reachable (td_mutable (cores (get_core c))) \<and> \<not> has_tag (ct_tx_ctx c) \<longrightarrow>
      (\<exists>td'. dt_increase_by now fresh cores c d = Some (cores(get_core c := td'), Ok (get_value (cores (get_core c)) + d)) \<and>
         at_rest td' \<and> td_get_state td' = dt_get_state cores c \<and>
         (let m = td_mutable (cores (get_core c)); b = m_push_buffer m;
              tx1 = set_tag (tx_of (m_op_id m) [new_counter_increase now d]) None
          in if pb_mem_size b + Transaction_size tx1 \<le> max_mem_size_of_push_buffer (pb_option b)
             then get_value td' = get_value (cores (get_core c)) + d \<and>
                  pb_transaction (m_push_buffer (td_mutable td')) = pb_transaction b @ [tx1]
             else get_value td' = get_value (cores (get_core c)) \<and> m_push_buffer (td_mutable td') = b))
    else (\<exists>e. dt_increase_by now fresh cores c d = Some (cores, Err e) \<and>
      (if may_write (dt_get_state cores c) False then e = ReadonlyViolation else (\<exists>msg. e = NotWritable msg))))"
proof (intro conjI, goal_cases)
  case 1
  have "fun_upd cores (get_core c) (cores (get_core c)) = cores" by simp
  then show ?case
    by (auto simp: dt_sync_def dt_get_state_def td_sync_def check_disabled_def
        send_push_transaction_def send_to_unbounded_def may_sync_def td_get_state_def)
next
  case 2
  have "fun_upd cores (get_core c) (cores (get_core c)) = cores" by simp
  then show ?case
    by (auto simp: dt_unsubscribe_def dt_get_state_def td_unsubscribe_def check_subscribed_def may_unsubscribe_def td_get_state_def get_value_def)
next
  case 3
  show ?case
  proof (cases "may_write (dt_get_state cores c) (at_is_readonly (dt_get_attr cores c))")
    case True
    from write_accepted [OF True refl, of now fresh d] show ?thesis unfolding if_P [OF True] by blast
  next
    case False
    from write_refused [OF False] show ?thesis unfolding if_not_P [OF False] .
  qed
qed

theorem api_lifecycle_guards_witness:
  "\<exists>td'. dt_increase_by 0 1 (\<lambda>_. ex_td) (Counter_new 0 3) 7 = Some ((\<lambda>_. ex_td)(0 := td'), Ok 7) \<and> get_value td' = 7"
proof -
  let ?cores = "\<lambda>_::nat. ex_td" and ?c = "Counter_new 0 3"
  have m: "td_mutable ex_td = ex_mut" by (simp add: ex_td_def)
  have may: "may_write (dt_get_state ?cores ?c) (at_is_readonly (dt_get_attr ?cores ?c))"
    by (simp add: may_write_def dt_get_state_def dt_get_attr_def td_get_state_def m ex_attr_def set_transactional_def Attribute_new_def)
  have rest: "at_rest (?cores (get_core ?c)) \<and> mutable_reachable (td_mutable (?cores (get_core ?c))) \<and> \<not> has_tag (ct_tx_ctx ?c)"
    using ex_td_idle by (simp add: at_rest_def idle_def m ex_mut_reachable)
  have room: "pb_mem_size (m_push_buffer ex_mut) + Transaction_size (set_tag (tx_of (m_op_id ex_mut) [new_counter_increase 0 7]) None)
      \<le> max_mem_size_of_push_buffer (pb_option (m_push_buffer ex_mut))"
    by (simp add: MemoryPushBuffer_new_def ex_attr_def set_transactional_def Attribute_new_def tx_of_def set_tag_def Transaction_new_def
      Transaction_size_def TRANSACTION_CONSTANT_SIZE_def UID_LEN_def Operation_size_def CounterIncreaseBody_size_def
      new_counter_increase_def Operation_new_def set_lamport_def Let_def)
  have v: "get_value ex_td + 7 = 7" "get_core ?c = 0" by (simp_all add: get_value_def m CounterCrdt_default_def get_core_def Counter_new_def)
  from api_lifecycle_guards [of ?cores ?c 0 0 1 7, THEN conjunct2, THEN conjunct2, unfolded if_P [OF may], rule_format, OF rest]
  show ?thesis unfolding Let_def m if_P [OF room] v by blast
qed

end
