(* ===== verification/Runtime.thy ===== *)
theory Runtime
  imports Client
begin

text \<open>
  The registry of thread pools (\<open>utils/runtime.rs\<close>) and its use by clients (\<open>clients/common.rs\<close>):
  one runtime per client group, made on first use and taken out when the client is dropped. The map is
  behind a \<open>OnceLock\<close> and a mutex: \<open>None\<close> until first used. A runtime is named by a number, the
  one a build makes is an argument; what tokio does with it is not modelled.
\<close>

type_synonym RuntimeMap = "(string \<times> nat) list"
type_synonym RUNTIME_MAP = "RuntimeMap option"

definition get_or_init_runtime_handle :: "nat \<Rightarrow> RUNTIME_MAP \<Rightarrow> string \<Rightarrow> RUNTIME_MAP \<times> nat" where
  "get_or_init_runtime_handle built st grp =
     (let map_guard = (case st of Some m \<Rightarrow> m | None \<Rightarrow> [])
      in case hm_get map_guard grp of
           Some rt \<Rightarrow> (Some map_guard, rt)
         | None \<Rightarrow> (Some (hm_insert grp built map_guard), built))"

definition reserve_to_shutdown_runtime :: "RUNTIME_MAP \<Rightarrow> string \<Rightarrow> RUNTIME_MAP \<times> nat option" where
  "reserve_to_shutdown_runtime st grp =
     (case st of
        None \<Rightarrow> (None, None)
      | Some map_guard \<Rightarrow> (Some (hm_remove grp map_guard), hm_get map_guard grp))"

definition thread_name :: "ClientCommon \<Rightarrow> string" where
  "thread_name self = cc_collection self @ ''/'' @ cc_alias self @ ''/'' @ Uid_display (cc_cuid self)"

definition ClientCommon_new_arc :: "nat \<Rightarrow> Cuid \<Rightarrow> string \<Rightarrow> string \<Rightarrow> RUNTIME_MAP \<Rightarrow> RUNTIME_MAP \<times> ClientCommon \<times> nat" where
  "ClientCommon_new_arc built cuid collection alias st =
     (let common = ClientCommon_new cuid collection alias;
          (st', handle) = get_or_init_runtime_handle built st (thread_name common)
      in (st', common, handle))"

definition ClientCommon_drop :: "RUNTIME_MAP \<Rightarrow> ClientCommon \<Rightarrow> RUNTIME_MAP \<times> nat option" where
  "ClientCommon_drop st self = reserve_to_shutdown_runtime st (thread_name self)"

definition runtime_of :: "RUNTIME_MAP \<Rightarrow> string \<Rightarrow> nat option" where
  "runtime_of st grp = (case st of None \<Rightarrow> None | Some m \<Rightarrow> hm_get m grp)"

text \<open>
  A client owns its runtime. When no runtime is registered under a client's name yet (its id is random),
  creating the client makes a runtime of its own, the runtime is found under its group until the client is dropped, dropping it
  shuts down exactly that runtime, and after both the registry serves every other client as before.
\<close>

lemma client_owns_runtime:
  assumes new: "ClientCommon_new_arc built cuid collection alias st = (st1, common, handle)"
    and drop: "ClientCommon_drop st1 common = (st2, shut)"
    and fresh: "runtime_of st (thread_name common) = None"
  shows "handle = built \<and> runtime_of st1 (thread_name common) = Some built \<and> shut = Some built \<and>
    (\<forall>g. runtime_of st2 g = runtime_of st g)"
  using assms
  by (auto simp: ClientCommon_new_arc_def ClientCommon_drop_def get_or_init_runtime_handle_def reserve_to_shutdown_runtime_def
      runtime_of_def Let_def split: option.splits)

end
