(* ===== verification/Observability.thy ===== *)
theory Observability
  imports Attributes
begin

text \<open>
  What the crate reports about itself: the context a log line shows (\<open>observability/trace_context.rs\<close>), the log line
  (\<open>observability/log_layer.rs\<close>), the metrics (\<open>observability/metrics.rs\<close>), the stack trace of an error
  (\<open>errors/mod.rs\<close>) and the name of the agent (\<open>constants.rs\<close>). What the \<open>tracing\<close>, \<open>time\<close>, \<open>itoa\<close>
  and \<open>btparse\<close> packages hand to this code are arguments: the recorded fields, the spans around an event, the formatted
  time, the printed line number and the parsed frames. A string is the list of its UTF-8 bytes; characters outside ASCII
  are written as these bytes.
\<close>

subsection \<open>Bytes and strings\<close>

type_synonym u32 = "32 word"

definition as_bytes :: "string \<Rightarrow> u8 list" where
  "as_bytes s = map of_char s"

definition strip_prefix :: "string \<Rightarrow> string \<Rightarrow> string option" where
  "strip_prefix p s = (if take (length p) s = p then Some (drop (length p) s) else None)"

definition strip_suffix :: "char \<Rightarrow> string \<Rightarrow> string option" where
  "strip_suffix c s = (if s \<noteq> [] \<and> last s = c then Some (butlast s) else None)"

fun str_contains :: "string \<Rightarrow> string \<Rightarrow> bool" where
  "str_contains p [] = (p = [])"
| "str_contains p (c # s) = (take (length p) (c # s) = p \<or> str_contains p s)"

subsection \<open>QortooTraceContextVisitor\<close>

record QortooTraceContextVisitor =
  tv_msg :: "u8 list"
  tv_collection :: "u8 list"
  tv_client :: "u8 list"
  tv_cuid :: "u8 list"
  tv_datatype :: "u8 list"
  tv_duid :: "u8 list"

definition QortooTraceContextVisitor_new :: QortooTraceContextVisitor where
  "QortooTraceContextVisitor_new =
     \<lparr>tv_msg = [], tv_collection = [], tv_client = [], tv_cuid = [], tv_datatype = [], tv_duid = []\<rparr>"

definition message_into :: "QortooTraceContextVisitor \<Rightarrow> u8 list \<Rightarrow> u8 list" where
  "message_into self buf = buf @ tv_msg self @ [9, 9]"

definition category_into :: "QortooTraceContextVisitor \<Rightarrow> u8 list \<Rightarrow> u8 list" where
  "category_into self buf =
     (let buf1 = if tv_collection self \<noteq> [] then buf @ [0xF0, 0x9F, 0x97, 0x84] @ tv_collection self else buf;
          buf2 = if tv_client self \<noteq> [] \<or> tv_cuid self \<noteq> []
                 then buf1 @ [0xF0, 0x9F, 0x91, 0xA5] @ tv_client self @ as_bytes ''('' @ tv_cuid self @ as_bytes '')'' else buf1;
          buf3 = if tv_datatype self \<noteq> [] \<or> tv_duid self \<noteq> []
                 then buf2 @ [0xF0, 0x9F, 0x97, 0x82] @ tv_datatype self @ as_bytes ''('' @ tv_duid self @ as_bytes '')'' else buf2
      in buf3 @ [9])"

text \<open>The result says whether to go on with the enclosing spans.\<close>

definition merge_context :: "QortooTraceContextVisitor \<Rightarrow> QortooTraceContextVisitor \<Rightarrow> QortooTraceContextVisitor \<times> bool" where
  "merge_context self other =
     (if tv_collection self \<noteq> [] \<and> tv_client self \<noteq> [] \<and> tv_cuid self \<noteq> [] \<and> tv_datatype self \<noteq> [] \<and> tv_duid self \<noteq> []
      then (self, False)
      else
        (let s1 = if tv_collection self = [] \<and> tv_collection other \<noteq> [] then self\<lparr>tv_collection := tv_collection other\<rparr> else self;
             s2 = if tv_client s1 = [] \<and> tv_client other \<noteq> [] then s1\<lparr>tv_client := tv_client other\<rparr> else s1;
             s3 = if tv_cuid s2 = [] \<and> tv_cuid other \<noteq> [] then s2\<lparr>tv_cuid := tv_cuid other\<rparr> else s2;
             s4 = if tv_datatype s3 = [] \<and> tv_datatype other \<noteq> [] then s3\<lparr>tv_datatype := tv_datatype other\<rparr> else s3;
             s5 = if tv_duid s4 = [] \<and> tv_duid other \<noteq> [] then s4\<lparr>tv_duid := tv_duid other\<rparr> else s4
         in (s5, True)))"

definition record_str :: "QortooTraceContextVisitor \<Rightarrow> string \<Rightarrow> string \<Rightarrow> QortooTraceContextVisitor" where
  "record_str self field s =
     (if field = ''message'' then self\<lparr>tv_msg := tv_msg self @ as_bytes s\<rparr>
      else if field = ''collection'' then self\<lparr>tv_collection := tv_collection self @ as_bytes s\<rparr>
      else if field = ''client'' then self\<lparr>tv_client := tv_client self @ as_bytes s\<rparr>
      else if field = ''cuid'' then self\<lparr>tv_cuid := tv_cuid self @ as_bytes s\<rparr>
      else if field = ''data_key'' then self\<lparr>tv_datatype := tv_datatype self @ as_bytes s\<rparr>
      else if field = ''duid'' then self\<lparr>tv_duid := tv_duid self @ as_bytes s\<rparr>
      else self)"

text \<open>The value comes as what its \<open>Debug\<close> prints. Writing to a vector of bytes does not fail.\<close>

definition record_debug :: "QortooTraceContextVisitor \<Rightarrow> string \<Rightarrow> string \<Rightarrow> QortooTraceContextVisitor" where
  "record_debug self field printed =
     (if field = ''message'' then self\<lparr>tv_msg := tv_msg self @ as_bytes printed\<rparr>
      else if field = ''collection'' then self\<lparr>tv_collection := tv_collection self @ as_bytes printed\<rparr>
      else if field = ''client'' then self\<lparr>tv_client := tv_client self @ as_bytes printed\<rparr>
      else if field = ''cuid'' then self\<lparr>tv_cuid := tv_cuid self @ as_bytes printed\<rparr>
      else if field = ''data_key'' then self\<lparr>tv_datatype := tv_datatype self @ as_bytes printed\<rparr>
      else if field = ''duid'' then self\<lparr>tv_duid := tv_duid self @ as_bytes printed\<rparr>
      else self)"

text \<open>A set of fields calls the visitor for each of its fields in order, as a string or with what \<open>Debug\<close> prints.\<close>

datatype field_value = Field_str string | Field_debug string

fun record_fields :: "(string \<times> field_value) list \<Rightarrow> QortooTraceContextVisitor \<Rightarrow> QortooTraceContextVisitor" where
  "record_fields [] v = v"
| "record_fields ((name, Field_str s) # fs) v = record_fields fs (record_str v name s)"
| "record_fields ((name, Field_debug s) # fs) v = record_fields fs (record_debug v name s)"

subsection \<open>QortooLogLayer\<close>

datatype Level = TRACE | DEBUG | INFO | WARN | ERROR

definition esc :: "u8 list \<Rightarrow> u8 list" where
  "esc s = 27 # s"

fun level_str_into :: "Level \<Rightarrow> u8 list \<Rightarrow> u8 list" where
  "level_str_into TRACE buf = buf @ esc (as_bytes ''[35m[T] '') @ esc (as_bytes ''[0m'')"
| "level_str_into DEBUG buf = buf @ esc (as_bytes ''[34m[D] '') @ esc (as_bytes ''[0m'')"
| "level_str_into INFO buf = buf @ esc (as_bytes ''[32m[I] '') @ esc (as_bytes ''[0m'')"
| "level_str_into WARN buf = buf @ esc (as_bytes ''[33m[W] '') @ esc (as_bytes ''[0m'')"
| "level_str_into ERROR buf = buf @ esc (as_bytes ''[31m[E] '') @ esc (as_bytes ''[0m'')"

definition ts_into :: "string \<Rightarrow> u8 list \<Rightarrow> u8 list" where
  "ts_into rfc2822 buf = buf @ as_bytes rfc2822 @ [9]"

definition thread_id_into :: "string \<Rightarrow> u8 list \<Rightarrow> u8 list" where
  "thread_id_into dbg buf =
     (let trimmed = (case Option.bind (strip_prefix ''ThreadId('' dbg) (strip_suffix (CHR '')'')) of Some s \<Rightarrow> s | None \<Rightarrow> dbg)
      in buf @ as_bytes ''['' @ [0xF0, 0x9F, 0xA7, 0xB5] @ as_bytes ''#'' @ as_bytes trimmed @ as_bytes '']'' @ [9])"

record log_metadata =
  md_level :: Level
  md_file :: "string option"
  md_line :: "u32 option"

definition metadata_into :: "(u32 \<Rightarrow> string) \<Rightarrow> log_metadata \<Rightarrow> u8 list \<Rightarrow> u8 list" where
  "metadata_into itoa md buffer =
     buffer @ [0xF0, 0x9F, 0x97, 0x82, 0xEF, 0xB8, 0x8F, 32] @
     as_bytes (case md_file md of Some f \<Rightarrow> f | None \<Rightarrow> ''unknown'') @ as_bytes '':'' @
     as_bytes (itoa (case md_line md of Some l \<Rightarrow> l | None \<Rightarrow> 0))"

text \<open>
  \<open>ctx.lookup_current()\<close> and the scope of that span, from the span itself to the root; of each span, the visitor
  among its extensions if there is one.
\<close>

type_synonym span_scope = "QortooTraceContextVisitor option list"

fun process_scope :: "span_scope \<Rightarrow> QortooTraceContextVisitor \<Rightarrow> QortooTraceContextVisitor" where
  "process_scope [] current_visitor = current_visitor"
| "process_scope (None # spans) current_visitor = process_scope spans current_visitor"
| "process_scope (Some visitor # spans) current_visitor =
     (case merge_context current_visitor visitor of
        (v, True) \<Rightarrow> process_scope spans v
      | (v, False) \<Rightarrow> v)"

definition process_context :: "span_scope option \<Rightarrow> QortooTraceContextVisitor \<Rightarrow> QortooTraceContextVisitor" where
  "process_context ctx current_visitor =
     (case ctx of Some scope \<Rightarrow> process_scope scope current_visitor | None \<Rightarrow> current_visitor)"

record 'f QortooLogLayer =
  level_filter :: "'f option"

definition log_enabled :: "(Level \<Rightarrow> 'f \<Rightarrow> bool) \<Rightarrow> 'f QortooLogLayer \<Rightarrow> log_metadata \<Rightarrow> bool" where
  "log_enabled le self md = (case map_option (le (md_level md)) (level_filter self) of Some b \<Rightarrow> b | None \<Rightarrow> True)"

definition on_new_span ::
  "(QortooTraceContextVisitor \<Rightarrow> 'e \<Rightarrow> 'e) \<Rightarrow> (string \<times> field_value) list \<Rightarrow> 'i \<Rightarrow> ('i \<rightharpoonup> 'e) \<Rightarrow> ('i \<rightharpoonup> 'e)" where
  "on_new_span extensions_insert attrs i spans =
     (case spans i of
        Some extensions \<Rightarrow> spans(i \<mapsto> extensions_insert (record_fields attrs QortooTraceContextVisitor_new) extensions)
      | None \<Rightarrow> spans)"

text \<open>What is written to the standard output for an event; errors of the output are ignored.\<close>

definition on_event ::
  "(u32 \<Rightarrow> string) \<Rightarrow> string \<Rightarrow> string \<Rightarrow> log_metadata \<Rightarrow> (string \<times> field_value) list \<Rightarrow> span_scope option \<Rightarrow> u8 list" where
  "on_event itoa rfc2822 thread_dbg md values ctx =
     (let buffer1 = ts_into rfc2822 [];
          buffer2 = level_str_into (md_level md) buffer1;
          visitor = record_fields values QortooTraceContextVisitor_new;
          buffer3 = message_into visitor buffer2;
          buffer4 = thread_id_into thread_dbg buffer3;
          visitor' = process_context ctx visitor;
          buffer5 = category_into visitor' buffer4;
          buffer6 = metadata_into itoa md buffer5
      in buffer6 @ [10])"

subsection \<open>Metrics\<close>

text \<open>Emitting hands updates to the recorder of the \<open>metrics\<close> package. A duration is in nanoseconds.\<close>

datatype metric_update =
    Counter_increment string "(string \<times> string) list" u64
  | Histogram_record string "(string \<times> string) list" nat

definition metric_labels :: "Attribute \<Rightarrow> (string \<times> string) list" where
  "metric_labels attr =
     [(''collection'', cc_collection (at_client_common attr)), (''key'', at_key attr), (''type'', DataType_display (at_type attr))]"

definition emit_sync :: "Attribute \<Rightarrow> bool \<Rightarrow> nat \<Rightarrow> metric_update list" where
  "emit_sync attr ok duration =
     (let result = if ok then ''success'' else ''failure''
      in [Counter_increment ''qortoo_sync_total'' (metric_labels attr @ [(''result'', result)]) 1,
          Histogram_record ''qortoo_sync_duration_seconds'' (metric_labels attr) duration])"

definition emit_backoff :: "Attribute \<Rightarrow> metric_update list" where
  "emit_backoff attr = [Counter_increment ''qortoo_backoff_total'' (metric_labels attr) 1]"

subsection \<open>Constants and stack traces\<close>

record sdk_constants =
  SDK_VER :: string
  SDK_NAME :: string
  GIT_HASH :: "string option"

definition SDK_HASH :: "sdk_constants \<Rightarrow> string" where
  "SDK_HASH k = (case GIT_HASH k of Some hash \<Rightarrow> hash | None \<Rightarrow> ''unknown'')"

text \<open>The string is kept in a cell that is written once.\<close>

definition get_agent :: "sdk_constants \<Rightarrow> string option \<Rightarrow> string \<times> string option" where
  "get_agent k AGENT =
     (case AGENT of
        Some agent \<Rightarrow> (agent, AGENT)
      | None \<Rightarrow> (let agent = SDK_NAME k @ ''-'' @ SDK_VER k @ ''-'' @ SDK_HASH k in (agent, Some agent)))"

record bt_frame =
  fr_function :: string
  fr_file :: "string option"
  fr_line :: "usize option"

definition utf8 :: "u8 list \<Rightarrow> string" where
  "utf8 bs = map (\<lambda>b. char_of (unat b)) bs"

definition stack_line :: "nat \<Rightarrow> string \<Rightarrow> string \<Rightarrow> usize \<Rightarrow> string" where
  "stack_line n function file line =
     [CHR 0x0A] @ replicate n (CHR '' '') @ utf8 [0xE2, 0x86, 0x98, 0xEF, 0xB8, 0x8E, 32] @ function @
     utf8 [32, 0xF0, 0x9F, 0x97, 0x82, 0xEF, 0xB8, 0x8F, 32] @ file @ '':'' @ show_u64 line"

fun stack_frames :: "string \<Rightarrow> string \<Rightarrow> u32 \<Rightarrow> bt_frame list \<Rightarrow> string \<Rightarrow> nat \<Rightarrow> string" where
  "stack_frames sdk caller_file caller_line [] s stack_count = s"
| "stack_frames sdk caller_file caller_line (frame # frames) s stack_count =
     (if str_contains sdk (fr_function frame)
      then
        (let stack_count = stack_count + 1;
             file_str = (case fr_file frame of Some f \<Rightarrow> f | None \<Rightarrow> '''');
             file = (case strip_prefix ''./'' file_str of Some f \<Rightarrow> f | None \<Rightarrow> file_str);
             line = (case fr_line frame of Some l \<Rightarrow> l | None \<Rightarrow> 0);
             file = (if stack_count = 1 then caller_file else file);
             line = (if stack_count = 1 then ucast caller_line else line)
         in stack_frames sdk caller_file caller_line frames (s @ stack_line stack_count (fr_function frame) file line) stack_count)
      else stack_frames sdk caller_file caller_line frames s stack_count)"

text \<open>\<open>None\<close> is the panic when the captured backtrace cannot be parsed.\<close>

definition with_stack_trace :: "sdk_constants \<Rightarrow> bt_frame list option \<Rightarrow> string \<Rightarrow> u32 \<Rightarrow> string option" where
  "with_stack_trace k trace caller_file caller_line =
     map_option (\<lambda>frames. stack_frames (SDK_NAME k) caller_file caller_line frames '''' 0) trace"

text \<open>The macro: the error is logged with its stack trace and is the value of the expression.\<close>

definition with_err_out ::
  "('err \<Rightarrow> string) \<Rightarrow> sdk_constants \<Rightarrow> bt_frame list option \<Rightarrow> string \<Rightarrow> u32 \<Rightarrow> 'err \<Rightarrow> (string \<times> 'err) option" where
  "with_err_out display k trace caller_file caller_line err =
     map_option (\<lambda>s. ([CHR 0x1B] @ ''[31m'' @ display err @ [CHR 0x1B] @ ''[0m'' @ s, err))
       (with_stack_trace k trace caller_file caller_line)"

subsection \<open>Lemmas\<close>

text \<open>The first value of a list that is not empty, and the context read off the spans field by field.\<close>

fun first_nonempty :: "'a list list \<Rightarrow> 'a list" where
  "first_nonempty [] = []"
| "first_nonempty (x # xs) = (if x \<noteq> [] then x else first_nonempty xs)"

definition innermost :: "span_scope \<Rightarrow> QortooTraceContextVisitor \<Rightarrow> QortooTraceContextVisitor" where
  "innermost scope v =
     (let vs = v # List.map_filter id scope
      in v\<lparr>tv_collection := first_nonempty (map tv_collection vs), tv_client := first_nonempty (map tv_client vs),
           tv_cuid := first_nonempty (map tv_cuid vs), tv_datatype := first_nonempty (map tv_datatype vs),
           tv_duid := first_nonempty (map tv_duid vs)\<rparr>)"

definition complete :: "QortooTraceContextVisitor \<Rightarrow> bool" where
  "complete v = (tv_collection v \<noteq> [] \<and> tv_client v \<noteq> [] \<and> tv_cuid v \<noteq> [] \<and> tv_datatype v \<noteq> [] \<and> tv_duid v \<noteq> [])"

lemma merge_complete: "complete v \<Longrightarrow> merge_context v u = (v, False)"
  unfolding merge_context_def complete_def by (rule if_P)

lemma fill_field:
  "(if tv_collection s = [] \<and> x \<noteq> [] then s\<lparr>tv_collection := x\<rparr> else s) = s\<lparr>tv_collection := first_nonempty [tv_collection s, x]\<rparr>"
  "(if tv_client s = [] \<and> x \<noteq> [] then s\<lparr>tv_client := x\<rparr> else s) = s\<lparr>tv_client := first_nonempty [tv_client s, x]\<rparr>"
  "(if tv_cuid s = [] \<and> x \<noteq> [] then s\<lparr>tv_cuid := x\<rparr> else s) = s\<lparr>tv_cuid := first_nonempty [tv_cuid s, x]\<rparr>"
  "(if tv_datatype s = [] \<and> x \<noteq> [] then s\<lparr>tv_datatype := x\<rparr> else s) = s\<lparr>tv_datatype := first_nonempty [tv_datatype s, x]\<rparr>"
  "(if tv_duid s = [] \<and> x \<noteq> [] then s\<lparr>tv_duid := x\<rparr> else s) = s\<lparr>tv_duid := first_nonempty [tv_duid s, x]\<rparr>"
  by (cases s; simp)+

lemma merge_incomplete: "\<not> complete v \<Longrightarrow> merge_context v u = (innermost [Some u] v, True)"
  unfolding merge_context_def complete_def fill_field
  by (subst if_not_P, assumption) (simp add: innermost_def Let_def List.map_filter_simps del: first_nonempty.simps)

text \<open>The merge that finds the last missing field still asks for the next span.\<close>

lemma merge_last_field_goes_on:
  "\<exists>v u. complete (fst (merge_context v u)) \<and> snd (merge_context v u)"
proof (intro exI)
  let ?v = "QortooTraceContextVisitor_new"
  let ?u = "\<lparr>tv_msg = [], tv_collection = [1], tv_client = [1], tv_cuid = [1], tv_datatype = [1], tv_duid = [1]\<rparr>"
  show "complete (fst (merge_context ?v ?u)) \<and> snd (merge_context ?v ?u)"
    by (simp add: complete_def merge_context_def QortooTraceContextVisitor_new_def)
qed

lemma innermost_complete: "complete v \<Longrightarrow> innermost scope v = v"
  by (cases v) (simp add: innermost_def complete_def)

lemma innermost_none: "innermost (None # spans) v = innermost spans v"
  by (simp add: innermost_def List.map_filter_simps)

lemma first_nonempty_nested: "first_nonempty (first_nonempty [x, y] # xs) = first_nonempty (x # y # xs)"
  by simp

lemma innermost_some: "innermost (Some u # spans) v = innermost spans (innermost [Some u] v)"
  by (simp add: innermost_def Let_def List.map_filter_simps first_nonempty_nested del: first_nonempty.simps)

lemma process_scope_innermost: "process_scope scope v = innermost scope v"
proof (induction scope v rule: process_scope.induct)
  case (1 v)
  then show ?case by (cases v) (simp add: innermost_def List.map_filter_simps)
next
  case (3 visitor spans v)
  then show ?case
    by (cases "complete v") (simp_all add: merge_complete merge_incomplete innermost_complete innermost_some [of visitor spans])
qed (simp add: innermost_none)

text \<open>
  The stack trace of an error has one line for each frame of this crate, in order and indented by its position;
  the first one is located where the error was raised.
\<close>

definition frame_line :: "string \<Rightarrow> u32 \<Rightarrow> nat \<times> bt_frame \<Rightarrow> string" where
  "frame_line caller_file caller_line nf =
     (case nf of (n, frame) \<Rightarrow>
        let file_str = (case fr_file frame of Some f \<Rightarrow> f | None \<Rightarrow> '''')
        in if n = 1 then stack_line n (fr_function frame) caller_file (ucast caller_line)
           else stack_line n (fr_function frame) (case strip_prefix ''./'' file_str of Some f \<Rightarrow> f | None \<Rightarrow> file_str)
                  (case fr_line frame of Some l \<Rightarrow> l | None \<Rightarrow> 0))"

lemma stack_frames_lines:
  "stack_frames sdk cf cl frames s n =
     s @ concat (map (frame_line cf cl) (enumerate (Suc n) (filter (\<lambda>f. str_contains sdk (fr_function f)) frames)))"
  by (induction frames arbitrary: s n) (auto simp: frame_line_def Let_def)

lemma with_stack_trace_lines:
  "with_stack_trace k (Some frames) cf cl =
     Some (concat (map (frame_line cf cl) (enumerate 1 (filter (\<lambda>f. str_contains (SDK_NAME k) (fr_function f)) frames))))"
  by (simp add: with_stack_trace_def stack_frames_lines)

lemma get_agent_constant:
  assumes "get_agent k None = (agent, cell)"
  shows "get_agent k cell = (agent, cell)"
  using assms by (auto simp: get_agent_def Let_def)

text \<open>
  C27: The context of a log line. Each of the five context fields of an event (collection, client, client id, key, datatype id) is the event's
  own if it has one, and otherwise that of the innermost enclosing span that has one; the message is the event's. So stopping the walk through the spans
  once every field is known, as \<open>merge\<close> tells \<open>process_context\<close> to do, loses nothing.
\<close>

theorem context_is_innermost:
  "process_context (Some scope) v =
     (let vs = v # List.map_filter id scope
      in \<lparr>tv_msg = tv_msg v, tv_collection = first_nonempty (map tv_collection vs), tv_client = first_nonempty (map tv_client vs),
          tv_cuid = first_nonempty (map tv_cuid vs), tv_datatype = first_nonempty (map tv_datatype vs),
          tv_duid = first_nonempty (map tv_duid vs)\<rparr>)"
  by (cases v) (simp add: process_context_def process_scope_innermost innermost_def)

end
