(* ===== verification/Threads.thy ===== *)
theory Threads
  imports Counter Convergence
begin

text \<open>
  Many threads on one counter. Every call of \<open>datatypes/transactional.rs\<close> and \<open>datatypes/counter.rs\<close> is
  cut at its lock operations: a step of a thread is one critical section of \<open>tx_ctx\<close>, \<open>mutable\<close>,
  \<open>op_mutex\<close> or \<open>tx_mutex\<close>. The steps of all threads interleave freely, with the answers the
  event loop applies in between.
\<close>

subsection \<open>Calls and their program counters\<close>

text \<open>
  A call is an increment through a handle, whose context it uses, or a transaction whose closure is a
  script of increments with a verdict. An operation that runs inside a closure remembers the context, the
  guard and the position at which the closure goes on.
\<close>

datatype call = Single TransactionContext i64 | Tx string "i64 list" "(unit, string) result"

type_synonym frame = "(TransactionContext \<times> DeferGuard \<times> nat) option"

datatype pc =
    Tx_check
  | Tx_begin TransactionContext
  | Tx_wait TransactionContext
  | Tx_waited TransactionContext
  | Tx_lock TransactionContext DeferGuard
  | Tx_body TransactionContext DeferGuard nat
  | Op_check TransactionContext frame
  | Op_begin TransactionContext frame
  | Op_wait TransactionContext frame
  | Op_waited TransactionContext frame
  | Op_lock TransactionContext frame DeferGuard
  | Op_exec TransactionContext frame DeferGuard
  | Dropping "DeferFunc list" bool frame
  | End_take "DeferFunc list" bool frame
  | End_unlock "DeferFunc list" bool frame
  | Crashed

fun call_start :: "call \<Rightarrow> pc" where
  "call_start (Single h d) = Op_check h None"
| "call_start (Tx tag ds v) = Tx_check"

fun op_amount :: "call \<Rightarrow> frame \<Rightarrow> i64" where
  "op_amount (Tx tag ds v) (Some (c, dg, n)) = ds ! n"
| "op_amount (Single h d) f = d"
| "op_amount (Tx tag ds v) None = 0"

text \<open>After an operation: the closure goes on, or the call has returned (\<open>None\<close>).\<close>

fun resume :: "frame \<Rightarrow> pc option" where
  "resume None = None"
| "resume (Some (c, dg, n)) = Some (Tx_body c dg (Suc n))"

definition drop_next :: "DeferFunc list \<Rightarrow> bool \<Rightarrow> frame \<Rightarrow> pc option" where
  "drop_next fs committed f = (if fs = [] then resume f else Some (Dropping fs committed f))"

definition drop_start :: "DeferGuard \<Rightarrow> frame \<Rightarrow> pc option" where
  "drop_start dg f = drop_next (rev (dg_defer_func_lifo dg)) (dg_committed dg) f"

text \<open>
  One step of a call: \<open>None\<close> when it blocks on a mutex, otherwise where the call is afterwards. The address is
  the one the allocator gives for a context that the step creates.
\<close>

fun advance ::
  "SystemTime \<Rightarrow> nat \<Rightarrow> call \<Rightarrow> pc \<Rightarrow> TransactionalDatatype \<Rightarrow> (pc option \<times> TransactionalDatatype) option" where
  "advance now addr (Tx tag ds v) Tx_check td =
     Some (if is_ok (check_writable td) then Some (Tx_begin (TransactionContext_new addr tag)) else None, td)"
| "advance now addr cl (Tx_begin c) td =
     (case begin_transaction td addr c of
        (td1, BeginTx dg) \<Rightarrow> Some (Some (Tx_lock c dg), td1)
      | (td1, SameCtx) \<Rightarrow> Some (Some Crashed, td1)
      | (td1, OtherCtx) \<Rightarrow> Some (Some (Tx_wait c), td1))"
| "advance now addr cl (Tx_wait c) td =
     map_option (\<lambda>l. (Some (Tx_waited c), td\<lparr>td_tx_mutex := l\<rparr>)) (mutex_lock (td_tx_mutex td))"
| "advance now addr cl (Tx_waited c) td =
     Some (Some (Tx_begin c), td\<lparr>td_tx_mutex := mutex_unlock (td_tx_mutex td)\<rparr>)"
| "advance now addr cl (Tx_lock c dg) td =
     map_option (\<lambda>l. (Some (Tx_body c dg 0), td\<lparr>td_tx_mutex := l\<rparr>)) (mutex_lock (td_tx_mutex td))"
| "advance now addr (Tx tag ds v) (Tx_body c dg n) td =
     Some (if n < length ds then Some (Op_check c (Some (c, dg, n)))
           else drop_start (if is_ok v then guard_commit dg else dg) None, td)"
| "advance now addr cl (Op_check c f) td =
     Some (if is_ok (check_writable td) then Some (Op_begin c f) else resume f, td)"
| "advance now addr cl (Op_begin c f) td =
     (case begin_transaction td addr c of
        (td1, BeginTx dg) \<Rightarrow> Some (Some (Op_lock c f dg), td1)
      | (td1, SameCtx) \<Rightarrow> Some (Some (Op_lock c f DeferGuard_new), td1)
      | (td1, OtherCtx) \<Rightarrow> Some (Some (Op_wait c f), td1))"
| "advance now addr cl (Op_wait c f) td =
     map_option (\<lambda>l. (Some (Op_waited c f), td\<lparr>td_op_mutex := l\<rparr>)) (mutex_lock (td_op_mutex td))"
| "advance now addr cl (Op_waited c f) td =
     Some (Some (Op_begin c f), td\<lparr>td_op_mutex := mutex_unlock (td_op_mutex td)\<rparr>)"
| "advance now addr cl (Op_lock c f dg) td =
     map_option (\<lambda>l. (Some (Op_exec c f (add_defer_func dg Defer_unlock_op)), td\<lparr>td_op_mutex := l\<rparr>))
       (mutex_lock (td_op_mutex td))"
| "advance now addr cl (Op_exec c f dg) td =
     (case execute_local_operation (td_mutable td) (new_counter_increase now (op_amount cl f)) of (m, r) \<Rightarrow>
        Some (if is_panic r then Some Crashed else drop_start (if is_ok r then guard_commit dg else dg) f,
              td\<lparr>td_mutable := m\<rparr>))"
| "advance now addr cl (Dropping [] b f) td = Some (resume f, td)"
| "advance now addr cl (Dropping (Defer_unlock_op # fs) b f) td =
     Some (drop_next fs b f, td\<lparr>td_op_mutex := mutex_unlock (td_op_mutex td)\<rparr>)"
| "advance now addr cl (Dropping (Defer_end_transaction tag # fs) b f) td =
     (case end_critical td tag b of (td1, panicked) \<Rightarrow>
        Some (Some (if panicked then Crashed else End_take fs b f), td1))"
| "advance now addr cl (End_take fs b f) td = Some (Some (End_unlock fs b f), td\<lparr>td_tx_ctx := None\<rparr>)"
| "advance now addr cl (End_unlock fs b f) td =
     Some (drop_next fs b f, td\<lparr>td_tx_mutex := mutex_unlock (td_tx_mutex td)\<rparr>)"
| "advance now addr cl pc td = None"

subsection \<open>The system of threads\<close>

record conc =
  co_td :: TransactionalDatatype
  co_threads :: "nat \<Rightarrow> (call \<times> pc) option"

text \<open>The context a call in progress has made, if any.\<close>

fun frame_ctx :: "frame \<Rightarrow> TransactionContext option" where
  "frame_ctx None = None"
| "frame_ctx (Some (c, dg, n)) = Some c"

fun ctx_of :: "pc \<Rightarrow> TransactionContext option" where
  "ctx_of Tx_check = None"
| "ctx_of (Tx_begin c) = Some c"
| "ctx_of (Tx_wait c) = Some c"
| "ctx_of (Tx_waited c) = Some c"
| "ctx_of (Tx_lock c dg) = Some c"
| "ctx_of (Tx_body c dg n) = Some c"
| "ctx_of (Op_check c f) = frame_ctx f"
| "ctx_of (Op_begin c f) = frame_ctx f"
| "ctx_of (Op_wait c f) = frame_ctx f"
| "ctx_of (Op_waited c f) = frame_ctx f"
| "ctx_of (Op_lock c f dg) = frame_ctx f"
| "ctx_of (Op_exec c f dg) = frame_ctx f"
| "ctx_of (Dropping fs b f) = frame_ctx f"
| "ctx_of (End_take fs b f) = frame_ctx f"
| "ctx_of (End_unlock fs b f) = frame_ctx f"
| "ctx_of Crashed = None"

text \<open>An address the allocator may give: no context that is still in use has it.\<close>

definition unused :: "TransactionContext set \<Rightarrow> nat \<Rightarrow> conc \<Rightarrow> bool" where
  "unused Hs addr s =
     ((\<forall>h \<in> Hs. \<not> has_tag h \<longrightarrow> tc_id h \<noteq> addr) \<and>
      (\<forall>c. td_tx_ctx (co_td s) = Some c \<longrightarrow> tc_id c \<noteq> addr) \<and>
      (\<forall>i cl pc c. co_threads s i = Some (cl, pc) \<longrightarrow> ctx_of pc = Some c \<longrightarrow> tc_id c \<noteq> addr))"

definition set_thread :: "conc \<Rightarrow> nat \<Rightarrow> (call \<times> pc) option \<Rightarrow> conc" where
  "set_thread s i t = s\<lparr>co_threads := (co_threads s)(i := t)\<rparr>"

fun call_handle :: "TransactionContext set \<Rightarrow> call \<Rightarrow> bool" where
  "call_handle Hs (Single h d) = (h \<in> Hs)"
| "call_handle Hs (Tx tag ds v) = True"

text \<open>The handles in \<open>Hs\<close> are the ones increments outside a closure go through.\<close>

inductive conc_step :: "TransactionContext set \<Rightarrow> conc \<Rightarrow> conc \<Rightarrow> bool" for Hs where
  start: "co_threads s i = None \<Longrightarrow> call_handle Hs cl \<Longrightarrow>
    conc_step Hs s (set_thread s i (Some (cl, call_start cl)))"
| run: "co_threads s i = Some (cl, pc) \<Longrightarrow> unused Hs addr s \<Longrightarrow> advance now addr cl pc (co_td s) = Some (next, td') \<Longrightarrow>
    conc_step Hs s (set_thread (s\<lparr>co_td := td'\<rparr>) i (map_option (Pair cl) next))"
| pull: "m_state (td_mutable (co_td s)) = Subscribed \<Longrightarrow> accepted (td_mutable (co_td s)) q \<Longrightarrow> no_snapshot (td_mutable (co_td s)) q \<Longrightarrow>
    conc_step Hs s (s\<lparr>co_td := (co_td s)\<lparr>td_mutable := fst (apply_pull q (td_mutable (co_td s)))\<rparr>\<rparr>)"

inductive conc_steps :: "TransactionContext set \<Rightarrow> conc \<Rightarrow> conc \<Rightarrow> bool" for Hs where
  refl: "conc_steps Hs s s"
| step: "conc_steps Hs s s' \<Longrightarrow> conc_step Hs s' s'' \<Longrightarrow> conc_steps Hs s s''"

definition conc_init :: "TransactionalDatatype \<Rightarrow> conc" where
  "conc_init td = \<lparr>co_td = td, co_threads = (\<lambda>_. None)\<rparr>"

subsection \<open>The invariant\<close>

text \<open>Which calls own the transaction in progress, and what they have run of it.\<close>

fun owner :: "pc \<Rightarrow> bool" where
  "owner (Tx_lock c dg) = True"
| "owner (Tx_body c dg n) = True"
| "owner (Op_check c f) = (f \<noteq> None)"
| "owner (Op_begin c f) = (f \<noteq> None)"
| "owner (Op_lock c f dg) = True"
| "owner (Op_exec c f dg) = True"
| "owner (Dropping fs b f) = True"
| "owner (End_take fs b f) = True"
| "owner pc = False"

fun call_ops :: "call \<Rightarrow> i64 list" where
  "call_ops (Single h d) = [d]"
| "call_ops (Tx tag ds v) = ds"

fun call_tag :: "call \<Rightarrow> string option" where
  "call_tag (Single h d) = None"
| "call_tag (Tx tag ds v) = Some tag"

fun call_ok :: "call \<Rightarrow> bool" where
  "call_ok (Single h d) = True"
| "call_ok (Tx tag ds v) = is_ok v"

fun ran :: "call \<Rightarrow> pc \<Rightarrow> i64 list" where
  "ran cl (Tx_body c dg n) = take n (call_ops cl)"
| "ran cl (Op_check c (Some (c', dg, n))) = take n (call_ops cl)"
| "ran cl (Op_begin c (Some (c', dg, n))) = take n (call_ops cl)"
| "ran cl (Op_lock c (Some (c', dg', n)) dg) = take n (call_ops cl)"
| "ran cl (Op_exec c (Some (c', dg', n)) dg) = take n (call_ops cl)"
| "ran cl (Dropping fs b (Some (c', dg', n))) = take (Suc n) (call_ops cl)"
| "ran cl (Dropping fs b None) = call_ops cl"
| "ran cl pc = []"

text \<open>The shape of a call in progress: its context, its guards, its position.\<close>

definition tx_guard :: "string option \<Rightarrow> DeferGuard" where
  "tx_guard tag = add_defer_func DeferGuard_new (Defer_end_transaction tag)"

fun frame_ok :: "call \<Rightarrow> TransactionContext \<Rightarrow> frame \<Rightarrow> bool" where
  "frame_ok (Tx tag ds v) c (Some (c', dg, n)) = (c' = c \<and> tc_tag c = Some tag \<and> dg = tx_guard (Some tag) \<and> n < length ds)"
| "frame_ok (Single h d) c None = (c = h \<and> \<not> has_tag h)"
| "frame_ok cl c f = False"

fun pc_ok :: "call \<Rightarrow> pc \<Rightarrow> bool" where
  "pc_ok cl Tx_check = (\<exists>tag ds v. cl = Tx tag ds v)"
| "pc_ok cl (Tx_begin c) = (\<exists>tag ds v. cl = Tx tag ds v \<and> tc_tag c = Some tag)"
| "pc_ok cl (Tx_wait c) = (\<exists>tag ds v. cl = Tx tag ds v \<and> tc_tag c = Some tag)"
| "pc_ok cl (Tx_waited c) = (\<exists>tag ds v. cl = Tx tag ds v \<and> tc_tag c = Some tag)"
| "pc_ok cl (Tx_lock c dg) = (\<exists>tag ds v. cl = Tx tag ds v \<and> tc_tag c = Some tag \<and> dg = tx_guard (Some tag))"
| "pc_ok cl (Tx_body c dg n) =
     (\<exists>tag ds v. cl = Tx tag ds v \<and> tc_tag c = Some tag \<and> dg = tx_guard (Some tag) \<and> n \<le> length ds)"
| "pc_ok cl (Op_check c f) = frame_ok cl c f"
| "pc_ok cl (Op_begin c f) = frame_ok cl c f"
| "pc_ok cl (Op_wait c f) = (f = None \<and> frame_ok cl c f)"
| "pc_ok cl (Op_waited c f) = (f = None \<and> frame_ok cl c f)"
| "pc_ok cl (Op_lock c f dg) = (frame_ok cl c f \<and> dg = (if f = None then tx_guard None else DeferGuard_new))"
| "pc_ok cl (Op_exec c f dg) =
     (frame_ok cl c f \<and> dg = add_defer_func (if f = None then tx_guard None else DeferGuard_new) Defer_unlock_op)"
| "pc_ok cl (Dropping fs b f) =
     (if f = None
      then b = call_ok cl \<and> (fs = [Defer_end_transaction (call_tag cl)] \<or>
             fs = [Defer_unlock_op, Defer_end_transaction None] \<and> call_tag cl = None)
      else b \<and> fs = [Defer_unlock_op] \<and> (\<exists>c. frame_ok cl c f))"
| "pc_ok cl (End_take fs b f) = (f = None \<and> fs = [])"
| "pc_ok cl (End_unlock fs b f) = (f = None \<and> fs = [])"
| "pc_ok cl Crashed = False"

text \<open>The record of the transaction in progress holds exactly the given amounts, and can be undone.\<close>

definition pending_is :: "MutableDatatype \<Rightarrow> i64 list \<Rightarrow> bool" where
  "pending_is m xs =
     (case pending (m_tx_record m) of
        None \<Rightarrow> xs = []
      | Some tx \<Rightarrow> xs \<noteq> [] \<and> list_all counter_op (tx_operations tx) \<and> map op_delta (tx_operations tx) = xs \<and>
          tx_cuid tx = oid_cuid (m_op_id m) \<and> oid_cuid (rollback_op_id (m_tx_record m)) = oid_cuid (m_op_id m) \<and>
          rollback_state (m_tx_record m) = m_state m)"

definition view_ok :: "TransactionalDatatype \<Rightarrow> call \<Rightarrow> pc \<Rightarrow> bool" where
  "view_ok td cl pc =
     (pc_ok cl pc \<and>
      (if owner pc
       then td_tx_ctx td \<noteq> None \<and> (\<forall>c. ctx_of pc = Some c \<longrightarrow> td_tx_ctx td = Some c) \<and>
            pending_is (td_mutable td) (ran cl pc)
       else \<forall>c c'. ctx_of pc = Some c \<longrightarrow> td_tx_ctx td = Some c' \<longrightarrow> tc_id c' \<noteq> tc_id c))"

text \<open>Who will release a mutex.\<close>

fun frees_tx :: "pc \<Rightarrow> bool" where
  "frees_tx (Tx_waited c) = True"
| "frees_tx (Tx_body c dg n) = True"
| "frees_tx (Op_check c f) = (f \<noteq> None)"
| "frees_tx (Op_begin c f) = (f \<noteq> None)"
| "frees_tx (Op_lock c f dg) = (f \<noteq> None)"
| "frees_tx (Op_exec c f dg) = (f \<noteq> None)"
| "frees_tx (Dropping fs b f) = True"
| "frees_tx (End_take fs b f) = True"
| "frees_tx (End_unlock fs b f) = True"
| "frees_tx pc = False"

fun frees_op :: "pc \<Rightarrow> bool" where
  "frees_op (Op_waited c f) = True"
| "frees_op (Op_exec c f dg) = True"
| "frees_op (Dropping fs b f) = (Defer_unlock_op \<in> set fs)"
| "frees_op pc = False"

definition threads_ok :: "TransactionContext set \<Rightarrow> conc \<Rightarrow> bool" where
  "threads_ok Hs s = (\<forall>i cl pc. co_threads s i = Some (cl, pc) \<longrightarrow> view_ok (co_td s) cl pc \<and> call_handle Hs cl)"

definition one_owner :: "conc \<Rightarrow> bool" where
  "one_owner s = (\<forall>i j cl pc cl' pc'. co_threads s i = Some (cl, pc) \<longrightarrow> co_threads s j = Some (cl', pc') \<longrightarrow>
     owner pc \<longrightarrow> owner pc' \<longrightarrow> i = j)"

definition unowned_free :: "conc \<Rightarrow> bool" where
  "unowned_free s = ((\<forall>i cl pc. co_threads s i = Some (cl, pc) \<longrightarrow> \<not> owner pc) \<longrightarrow>
     td_tx_ctx (co_td s) = None \<and> pending (m_tx_record (td_mutable (co_td s))) = None)"

definition ctxs_apart :: "conc \<Rightarrow> bool" where
  "ctxs_apart s = (\<forall>i j cl pc cl' pc' c c'. co_threads s i = Some (cl, pc) \<longrightarrow> co_threads s j = Some (cl', pc') \<longrightarrow>
     ctx_of pc = Some c \<longrightarrow> ctx_of pc' = Some c' \<longrightarrow> tc_id c = tc_id c' \<longrightarrow> i = j)"

definition handles_apart :: "TransactionContext set \<Rightarrow> conc \<Rightarrow> bool" where
  "handles_apart Hs s =
     ((\<forall>c h. td_tx_ctx (co_td s) = Some c \<longrightarrow> h \<in> Hs \<longrightarrow> tc_id h \<noteq> tc_id c) \<and>
      (\<forall>i cl pc c h. co_threads s i = Some (cl, pc) \<longrightarrow> ctx_of pc = Some c \<longrightarrow> h \<in> Hs \<longrightarrow> tc_id h \<noteq> tc_id c))"

definition mutexes_freed :: "conc \<Rightarrow> bool" where
  "mutexes_freed s =
     ((td_tx_mutex (co_td s) \<longrightarrow> (\<exists>i cl pc. co_threads s i = Some (cl, pc) \<and> frees_tx pc)) \<and>
      (td_op_mutex (co_td s) \<longrightarrow> (\<exists>i cl pc. co_threads s i = Some (cl, pc) \<and> frees_op pc)))"

definition conc_inv :: "TransactionContext set \<Rightarrow> conc \<Rightarrow> bool" where
  "conc_inv Hs s = (threads_ok Hs s \<and> one_owner s \<and> unowned_free s \<and> ctxs_apart s \<and> handles_apart Hs s \<and>
     mutexes_freed s \<and> check_writable (co_td s) = Ok ())"

subsection \<open>The critical sections of the replica\<close>

lemma pending_is_op:
  assumes "pending_is m xs" and "execute_local_operation m (new_counter_increase now d) = (m', r)"
  shows "is_ok r" "pending_is m' (xs @ [d])" "m_state m' = m_state m" "m_attr m' = m_attr m"
    "m_push_buffer m' = m_push_buffer m" "crdt_value (m_crdt m') = crdt_value (m_crdt m) + d"
  using assms
  by (auto simp: execute_local_operation_counter pending_is_def record_operation_def push_operation_def
      Transaction_new_def split: option.splits)

lemma pending_is_rollback:
  assumes "pending_is m xs"
  obtains m' where "do_rollback m = (m', Ok ())" "pending (m_tx_record m') = None" "m_state m' = m_state m" "m_attr m' = m_attr m"
    "m_push_buffer m' = m_push_buffer m" "crdt_value (m_crdt m') = crdt_value (m_crdt m) - sum_list xs"
proof (cases "pending (m_tx_record m)")
  case None
  with assms that [of m] show ?thesis by (simp add: pending_is_def do_rollback_def)
next
  case (Some tx)
  with assms that show ?thesis
    by (simp add: pending_is_def do_rollback_counter crdt_value_undo_all ops_delta_def)
qed

text \<open>
  Ending the transaction: it becomes one more transaction of the buffer, with the tag and exactly the recorded
  amounts, or nothing of it is left.
\<close>

definition ended :: "TransactionalDatatype \<Rightarrow> string option \<Rightarrow> bool \<Rightarrow> i64 list \<Rightarrow> TransactionalDatatype \<Rightarrow> bool" where
  "ended td tag b xs td' =
     ((\<exists>tx. b \<and> pb_transaction (m_push_buffer (td_mutable td')) = pb_transaction (m_push_buffer (td_mutable td)) @ [tx] \<and>
        tx_tag tx = tag \<and> map op_delta (tx_operations tx) = xs \<and> get_value td' = get_value td) \<or>
      m_push_buffer (td_mutable td') = m_push_buffer (td_mutable td) \<and> get_value td' = get_value td - sum_list xs)"

lemma end_critical_pending:
  assumes p: "pending_is (td_mutable td) xs"
  obtains m' el where "end_critical td tag b = (td\<lparr>td_mutable := m', td_event_loop := el\<rparr>, False)"
    "pending (m_tx_record m') = None" "m_state m' = m_state (td_mutable td)" "m_attr m' = m_attr (td_mutable td)"
    "ended td tag b xs (td\<lparr>td_mutable := m', td_event_loop := el\<rparr>)"
proof (cases "b \<and> pending (m_tx_record (td_mutable td)) \<noteq> None")
  case True
  let ?m = "td_mutable td"
  obtain tx where tx: "pending (m_tx_record ?m) = Some tx" using True by blast
  with p have c: "tx_cuid (set_tag tx tag) = oid_cuid (m_op_id ?m)" "map op_delta (tx_operations tx) = xs"
    by (simp_all add: pending_is_def set_tag_def)
  show ?thesis
  proof (cases rule: enqueue_cases [of "m_push_buffer ?m" "set_tag tx tag", case_names ok failed])
    case (ok pb')
    let ?m' = "?m\<lparr>m_tx_record := (m_tx_record ?m)\<lparr>pending := None\<rparr>, m_push_buffer := pb'\<rparr>"
    have "end_critical td tag b = (td\<lparr>td_mutable := ?m',
        td_event_loop := send_push_transaction_with_best_effort (td_event_loop td)\<rparr>, False)"
      using True tx c ok by (simp add: end_critical_def end_transaction_def Let_def)
    then show ?thesis
      by (rule that) (use True c ok in \<open>auto simp: ended_def get_value_def enqueue_Ok_iff set_tag_def\<close>)
  next
    case (failed e)
    let ?m1 = "?m\<lparr>m_tx_record := (m_tx_record ?m)\<lparr>pending := Some (set_tag tx tag)\<rparr>\<rparr>"
    have "pending_is ?m1 xs" using p tx by (simp add: pending_is_def set_tag_def)
    then obtain m2 where m2: "do_rollback ?m1 = (m2, Ok ())" "pending (m_tx_record m2) = None" "m_state m2 = m_state ?m"
      "m_attr m2 = m_attr ?m" "m_push_buffer m2 = m_push_buffer ?m" "crdt_value (m_crdt m2) = crdt_value (m_crdt ?m) - sum_list xs"
      by (rule pending_is_rollback) simp_all
    have "end_critical td tag b = (td\<lparr>td_mutable := call_error_handler m2 e, td_event_loop := td_event_loop td\<rparr>, False)"
      using True tx c(1) failed(1) m2(1) by (simp add: end_critical_def end_transaction_def Let_def DatatypeErrorWithAction_new_def)
    then show ?thesis
      by (rule that) (use m2 in \<open>simp_all add: ended_def get_value_def call_error_handler_def\<close>)
  qed
next
  case False
  show ?thesis
  proof (cases b)
    case True
    with False p have e: "end_critical td tag b = (td\<lparr>td_mutable := td_mutable td,
        td_event_loop := send_push_transaction_with_best_effort (td_event_loop td)\<rparr>, False)" and "xs = []"
      by (simp_all add: end_critical_def end_transaction_def pending_is_def)
    then show ?thesis by (intro that [OF e]) (use True False in \<open>auto simp: ended_def get_value_def\<close>)
  next
    case nb: False
    obtain m2 where m2: "do_rollback (td_mutable td) = (m2, Ok ())" "pending (m_tx_record m2) = None" "m_state m2 = m_state (td_mutable td)"
      "m_attr m2 = m_attr (td_mutable td)" "m_push_buffer m2 = m_push_buffer (td_mutable td)"
      "crdt_value (m_crdt m2) = crdt_value (m_crdt (td_mutable td)) - sum_list xs"
      by (rule pending_is_rollback [OF p])
    then have "end_critical td tag b = (td\<lparr>td_mutable := m2, td_event_loop := td_event_loop td\<rparr>, False)"
      using nb by (simp add: end_critical_def end_transaction_def)
    then show ?thesis by (rule that) (use m2 in \<open>simp_all add: ended_def get_value_def\<close>)
  qed
qed

subsection \<open>What a step does\<close>

text \<open>A step is taken beside the transaction, or begins it, works in it, or gives it up.\<close>

definition quiet :: "nat \<Rightarrow> TransactionalDatatype \<Rightarrow> pc \<Rightarrow> pc option \<Rightarrow> TransactionalDatatype \<Rightarrow> bool" where
  "quiet addr td pc next td' =
     (\<not> owner pc \<and> td_mutable td' = td_mutable td \<and> td_tx_ctx td' = td_tx_ctx td \<and>
      (\<forall>pc'. next = Some pc' \<longrightarrow> \<not> owner pc' \<and> (\<forall>c. ctx_of pc' = Some c \<longrightarrow> ctx_of pc = Some c \<or> tc_id c = addr)))"

definition begins :: "nat \<Rightarrow> TransactionalDatatype \<Rightarrow> call \<Rightarrow> pc \<Rightarrow> pc option \<Rightarrow> TransactionalDatatype \<Rightarrow> bool" where
  "begins addr td cl pc next td' =
     (\<not> owner pc \<and> td_tx_ctx td = None \<and> td_mutable td' = td_mutable td \<and>
      (\<exists>c pc'. next = Some pc' \<and> owner pc' \<and> ran cl pc' = [] \<and> td_tx_ctx td' = Some c \<and> ctx_of pc' = ctx_of pc \<and>
         (ctx_of pc = Some c \<or> ctx_of pc = None \<and> tc_id c = addr)))"

definition works :: "TransactionalDatatype \<Rightarrow> call \<Rightarrow> pc \<Rightarrow> pc option \<Rightarrow> TransactionalDatatype \<Rightarrow> bool" where
  "works td cl pc next td' =
     (owner pc \<and> td_tx_ctx td' = td_tx_ctx td \<and>
      (\<exists>pc'. next = Some pc' \<and> owner pc' \<and> pending_is (td_mutable td') (ran cl pc') \<and> (ctx_of pc' = ctx_of pc \<or> ctx_of pc' = None)))"

definition leaves :: "TransactionalDatatype \<Rightarrow> pc \<Rightarrow> pc option \<Rightarrow> TransactionalDatatype \<Rightarrow> bool" where
  "leaves td pc next td' =
     (owner pc \<and> td_tx_ctx td' = None \<and> pending (m_tx_record (td_mutable td')) = None \<and>
      (\<exists>pc'. next = Some pc' \<and> \<not> owner pc' \<and> ctx_of pc' = None))"

lemmas step_kinds = quiet_def begins_def works_def leaves_def

definition moves :: "nat \<Rightarrow> TransactionalDatatype \<Rightarrow> call \<Rightarrow> pc \<Rightarrow> pc option \<Rightarrow> TransactionalDatatype \<Rightarrow> bool" where
  "moves addr td cl pc next td' =
     (quiet addr td pc next td' \<or> begins addr td cl pc next td' \<or> works td cl pc next td' \<or> leaves td pc next td')"

definition proper :: "nat \<Rightarrow> TransactionalDatatype \<Rightarrow> call \<Rightarrow> pc \<Rightarrow> pc option \<Rightarrow> TransactionalDatatype \<Rightarrow> bool" where
  "proper addr td cl pc next td' =
     (moves addr td cl pc next td' \<and> (\<forall>pc'. next = Some pc' \<longrightarrow> pc_ok cl pc') \<and> check_writable td' = Ok ())"

lemma pending_is_Nil [simp]: "pending_is m [] \<longleftrightarrow> pending (m_tx_record m) = None"
  by (auto simp: pending_is_def split: option.splits)

lemma frame_okE:
  assumes "frame_ok cl c f"
  obtains (outside) d where "cl = Single c d" "f = None" "\<not> has_tag c"
  | (inside) tag ds v n where "cl = Tx tag ds v" "f = Some (c, tx_guard (Some tag), n)" "tc_tag c = Some tag" "n < length ds"
  using assms by (cases "(cl, c, f)" rule: frame_ok.cases) auto

lemma tx_guard_simps [simp]:
  "dg_defer_func_lifo (tx_guard tag) = [Defer_end_transaction tag]" "dg_committed (tx_guard tag) = False"
  by (simp_all add: tx_guard_def add_defer_func_def DeferGuard_new_def)

lemma begin_transaction_simps:
  "td_tx_ctx td = None \<Longrightarrow> begin_transaction td addr c =
     (td\<lparr>td_tx_ctx := Some (if has_tag c then c else TransactionContext_default addr)\<rparr>,
      BeginTx (tx_guard (tc_tag c)))"
  "td_tx_ctx td = Some c' \<Longrightarrow> begin_transaction td addr c = (td, if tc_id c' = tc_id c then SameCtx else OtherCtx)"
  by (auto simp: begin_transaction_def tx_guard_def TransactionContext_eq_def TransactionContext_default_def has_tag_def)

lemma check_writable_frame [simp]:
  "check_writable (td\<lparr>td_tx_mutex := l\<rparr>) = check_writable td" "check_writable (td\<lparr>td_op_mutex := l\<rparr>) = check_writable td"
  "check_writable (td\<lparr>td_tx_ctx := t\<rparr>) = check_writable td" "check_writable (td\<lparr>td_event_loop := el\<rparr>) = check_writable td"
  "m_state m = m_state (td_mutable td) \<Longrightarrow> m_attr m = m_attr (td_mutable td) \<Longrightarrow> check_writable (td\<lparr>td_mutable := m\<rparr>) = check_writable td"
  by (rule check_writable_cong; simp)+

lemma is_ok_not_panic [simp]: "is_ok r \<Longrightarrow> \<not> is_panic r"
  by (cases r) simp_all

lemma exec_effect:
  assumes v: "view_ok td cl pc" and w: "check_writable td = Ok ()" and a: "advance now addr cl pc td = Some (next, td')"
    and pc: "pc = Op_exec c f dg"
  shows "proper addr td cl pc next td'"
proof -
  obtain m r where e: "execute_local_operation (td_mutable td) (new_counter_increase now (op_amount cl f)) = (m, r)"
    by (metis prod.collapse)
  from pc v have p: "pending_is (td_mutable td) (ran cl pc)" unfolding view_ok_def by (simp only: owner.simps if_True)
  from pc v have f: "frame_ok cl c f" by (simp add: view_ok_def)
  note m = pending_is_op [OF p e]
  have nt: "next = drop_start (guard_commit dg) f" "td' = td\<lparr>td_mutable := m\<rparr>"
    using a pc e m(1) by simp_all
  have w': "check_writable td' = Ok ()" using w m(3,4) nt(2) by simp
  from f show ?thesis
  proof (cases rule: frame_okE)
    case (outside d)
    have "next = Some (Dropping [Defer_unlock_op, Defer_end_transaction None] True None)"
      using nt(1) outside pc v
      by (simp add: view_ok_def drop_start_def drop_next_def guard_commit_def add_defer_func_def)
    with outside m(2) pc nt(2) w' show ?thesis by (simp add: proper_def moves_def works_def)
  next
    case (inside tag ds v' n)
    have "next = Some (Dropping [Defer_unlock_op] True f)"
      using nt(1) inside pc v
      by (simp add: view_ok_def drop_start_def drop_next_def guard_commit_def add_defer_func_def DeferGuard_new_def)
    with inside m(2) pc nt(2) w' show ?thesis by (auto simp: proper_def moves_def works_def take_Suc_conv_app_nth)
  qed
qed

lemma drop_effect:
  assumes v: "view_ok td cl pc" and w: "check_writable td = Ok ()" and a: "advance now addr cl pc td = Some (next, td')"
    and pc: "pc = Dropping fs b f"
  shows "proper addr td cl pc next td'"
proof -
  consider (unlock) gs where "fs = Defer_unlock_op # gs" | (last) tag where "fs = [Defer_end_transaction tag]" "f = None" "tag = call_tag cl"
    using v pc by (auto simp: view_ok_def split: if_splits)
  then show ?thesis
  proof cases
    case unlock
    have nt: "next = drop_next gs b f" "td' = td\<lparr>td_op_mutex := False\<rparr>" using a pc unlock by simp_all
    show ?thesis
    proof (cases f)
      case None
      with v pc unlock have "gs = [Defer_end_transaction None]" "b = call_ok cl" "call_tag cl = None"
        by (simp_all add: view_ok_def)
      with None v w nt pc show ?thesis by (simp add: proper_def moves_def view_ok_def works_def drop_next_def)
    next
      case (Some fr)
      with v pc unlock obtain c where "gs = []" "frame_ok cl c f" by (auto simp: view_ok_def)
      then show ?thesis
        by (elim frame_okE) (use Some v w nt pc in \<open>simp_all add: proper_def moves_def view_ok_def works_def drop_next_def\<close>)
    qed
  next
    case last
    from pc v have p: "pending_is (td_mutable td) (ran cl pc)" by (simp add: view_ok_def)
    from p show ?thesis
      by (rule end_critical_pending [where tag = tag and b = b]) (use pc last v w a in \<open>auto simp: proper_def moves_def view_ok_def works_def\<close>)
  qed
qed

lemma advance_effect:
  assumes v: "view_ok td cl pc" and w: "check_writable td = Ok ()" and a: "advance now addr cl pc td = Some (next, td')"
    and h: "\<forall>c hd d. td_tx_ctx td = Some c \<longrightarrow> cl = Single hd d \<longrightarrow> tc_id hd \<noteq> tc_id c"
  shows "proper addr td cl pc next td'"
proof (cases pc)
  case Tx_check
  with v w a show ?thesis by (auto simp: proper_def moves_def view_ok_def quiet_def TransactionContext_new_def)
next
  case (Tx_begin c)
  with v w a show ?thesis
    by (cases "td_tx_ctx td") (auto simp: proper_def moves_def view_ok_def quiet_def begins_def begin_transaction_simps has_tag_def)
next
  case (Tx_wait c)
  with v w a show ?thesis by (auto simp: proper_def moves_def view_ok_def quiet_def)
next
  case (Tx_waited c)
  with v w a show ?thesis by (auto simp: proper_def moves_def view_ok_def quiet_def)
next
  case (Tx_lock c dg)
  with v w a show ?thesis by (auto simp: proper_def moves_def view_ok_def works_def)
next
  case (Tx_body c dg n)
  with v w a show ?thesis
    by (auto simp: proper_def moves_def view_ok_def works_def drop_start_def drop_next_def guard_commit_def split: if_splits)
next
  case (Op_check c f)
  with v have "frame_ok cl c f" by (simp add: view_ok_def)
  then show ?thesis using Op_check v w a by (cases rule: frame_okE) (auto simp: proper_def moves_def view_ok_def quiet_def works_def)
next
  case (Op_begin c f)
  with v have "frame_ok cl c f" by (simp add: view_ok_def)
  then show ?thesis
  proof (cases rule: frame_okE)
    case (outside d)
    have "tc_id c' \<noteq> tc_id c" if "td_tx_ctx td = Some c'" for c' using h that outside(1) by auto
    then show ?thesis using outside Op_begin v w a
      by (cases "td_tx_ctx td") (auto simp: proper_def moves_def view_ok_def quiet_def begins_def begin_transaction_simps has_tag_def TransactionContext_default_def)
  next
    case (inside tag ds v' n)
    then show ?thesis using Op_begin v w a by (auto simp: proper_def moves_def view_ok_def works_def begin_transaction_simps)
  qed
next
  case (Op_wait c f)
  with v w a show ?thesis by (auto simp: proper_def moves_def view_ok_def quiet_def)
next
  case (Op_waited c f)
  with v w a show ?thesis by (auto simp: proper_def moves_def view_ok_def quiet_def)
next
  case (Op_lock c f dg)
  with v have "frame_ok cl c f" by (simp add: view_ok_def)
  then show ?thesis using Op_lock v w a by (cases rule: frame_okE) (auto simp: proper_def moves_def view_ok_def works_def)
next
  case (Op_exec c f dg)
  from exec_effect [OF v w a this] show ?thesis .
next
  case (Dropping fs b f)
  from drop_effect [OF v w a this] show ?thesis .
next
  case (End_take fs b f)
  with v w a show ?thesis by (auto simp: proper_def moves_def view_ok_def leaves_def)
next
  case (End_unlock fs b f)
  with v w a show ?thesis by (auto simp: proper_def moves_def view_ok_def quiet_def drop_next_def)
next
  case Crashed
  with a show ?thesis by simp
qed

lemma begin_transaction_mutexes:
  "begin_transaction td addr c = (td', b) \<Longrightarrow> td_tx_mutex td' = td_tx_mutex td \<and> td_op_mutex td' = td_op_mutex td"
  by (cases "td_tx_ctx td") (auto simp: begin_transaction_simps)

text \<open>A mutex that is held after a step will be freed by the call that made the step, or was held before by another.\<close>

definition held_after :: "bool \<Rightarrow> bool \<Rightarrow> (pc \<Rightarrow> bool) \<Rightarrow> pc \<Rightarrow> pc option \<Rightarrow> bool" where
  "held_after now_held was_held frees pc next =
     (now_held \<longrightarrow> (\<exists>pc'. next = Some pc' \<and> frees pc') \<or> was_held \<and> \<not> frees pc)"

lemma advance_mutexes:
  assumes v: "view_ok td cl pc" and w: "check_writable td = Ok ()" and a: "advance now addr cl pc td = Some (next, td')"
  shows "held_after (td_tx_mutex td') (td_tx_mutex td) frees_tx pc next \<and> held_after (td_op_mutex td') (td_op_mutex td) frees_op pc next"
proof -
  have ok: "pc_ok cl pc" using v by (simp add: view_ok_def)
  show ?thesis
  proof (cases pc)
    case Tx_check
    with ok w a show ?thesis by (auto simp: held_after_def)
  next
    case (Tx_begin c)
    with a begin_transaction_mutexes [of td addr c] show ?thesis
      by (auto simp: held_after_def split: prod.splits BeginTransactionResult.splits)
  next
    case (Tx_body c dg n)
    with ok a show ?thesis by (auto simp: held_after_def drop_start_def drop_next_def guard_commit_def split: if_splits)
  next
    case (Op_check c f)
    with w a show ?thesis by (auto simp: held_after_def)
  next
    case (Op_begin c f)
    show ?thesis
    proof (cases f)
      case None
      with a Op_begin begin_transaction_mutexes [of td addr c] show ?thesis
        by (auto simp: held_after_def split: prod.splits BeginTransactionResult.splits)
    next
      case (Some fr)
      with v Op_begin have "td_tx_ctx td = Some c" by (auto simp: view_ok_def elim!: frame_okE)
      with a Op_begin Some show ?thesis by (auto simp: held_after_def begin_transaction_simps)
    qed
  next
    case (Op_exec c f dg)
    obtain m r where e: "execute_local_operation (td_mutable td) (new_counter_increase now (op_amount cl f)) = (m, r)"
      by (metis prod.collapse)
    from Op_exec v have p: "pending_is (td_mutable td) (ran cl pc)" unfolding view_ok_def by (simp only: owner.simps if_True)
    from a Op_exec e pending_is_op(1) [OF p e] have "next = drop_start (guard_commit dg) f" "td' = td\<lparr>td_mutable := m\<rparr>"
      by simp_all
    moreover have "rev (dg_defer_func_lifo (guard_commit dg)) = Defer_unlock_op # (if f = None then [Defer_end_transaction None] else [])"
      using ok Op_exec by (simp add: guard_commit_def add_defer_func_def DeferGuard_new_def)
    ultimately show ?thesis using Op_exec by (simp add: held_after_def drop_start_def drop_next_def)
  next
    case (Dropping fs b f)
    show ?thesis
    proof (cases "f = None \<and> fs = [Defer_end_transaction (call_tag cl)]")
      case True
      from Dropping v have p: "pending_is (td_mutable td) (ran cl pc)" by (simp add: view_ok_def)
      from p show ?thesis
        by (rule end_critical_pending [where tag = "call_tag cl" and b = b]) (use Dropping True a in \<open>auto simp: held_after_def\<close>)
    next
      case False
      with ok Dropping obtain gs where "fs = Defer_unlock_op # gs" "Defer_unlock_op \<notin> set gs" "gs \<noteq> [] \<or> f \<noteq> None"
        by (auto split: if_splits)
      with a Dropping show ?thesis by (cases f) (auto simp: held_after_def drop_next_def)
    qed
  next
    case (End_unlock fs b f)
    with ok a show ?thesis by (auto simp: held_after_def drop_next_def)
  qed (use ok a in \<open>auto simp: held_after_def mutex_lock_def split: if_splits\<close>)
qed

subsection \<open>The invariant holds in every interleaving\<close>

definition disciplined :: "TransactionContext set \<Rightarrow> bool" where
  "disciplined Hs = (\<forall>h \<in> Hs. \<not> has_tag h)"

lemma threads_okD:
  assumes "threads_ok Hs s" and "co_threads s i = Some (cl, pc)"
  shows "view_ok (co_td s) cl pc" and "call_handle Hs cl"
  using assms unfolding threads_ok_def by blast+

lemma one_ownerD: "one_owner s \<Longrightarrow> co_threads s i = Some (cl, pc) \<Longrightarrow> co_threads s j = Some (cl', pc') \<Longrightarrow>
    owner pc \<Longrightarrow> owner pc' \<Longrightarrow> i = j"
  unfolding one_owner_def by blast

lemma ctxs_apartD: "ctxs_apart s \<Longrightarrow> co_threads s i = Some (cl, pc) \<Longrightarrow> co_threads s j = Some (cl', pc') \<Longrightarrow>
    ctx_of pc = Some c \<Longrightarrow> ctx_of pc' = Some c' \<Longrightarrow> tc_id c = tc_id c' \<Longrightarrow> i = j"
  unfolding ctxs_apart_def by blast

lemma unusedD:
  assumes "unused Hs addr s"
  shows "h \<in> Hs \<Longrightarrow> \<not> has_tag h \<Longrightarrow> tc_id h \<noteq> addr" "td_tx_ctx (co_td s) = Some c \<Longrightarrow> tc_id c \<noteq> addr"
    "co_threads s i = Some (cl, pc) \<Longrightarrow> ctx_of pc = Some c \<Longrightarrow> tc_id c \<noteq> addr"
  using assms unfolding unused_def by blast+

lemma view_ok_cong:
  "td_mutable td' = td_mutable td \<Longrightarrow> td_tx_ctx td' = td_tx_ctx td \<Longrightarrow> view_ok td' cl pc = view_ok td cl pc"
  by (simp add: view_ok_def)

lemma view_ok_owned: "view_ok td cl pc \<Longrightarrow> td_tx_ctx td = None \<Longrightarrow> \<not> owner pc"
  by (auto simp: view_ok_def)

text \<open>What the step of one thread means for another one.\<close>

lemma bystander:
  assumes inv: "threads_ok Hs s" "one_owner s" "ctxs_apart s" and i: "co_threads s i = Some (cl, pc)"
    and j: "co_threads s j = Some (cl', pc')" "j \<noteq> i" and new: "unused Hs addr s"
    and k: "moves addr (co_td s) cl pc next td'"
  shows "view_ok td' cl' pc'" and "quiet addr (co_td s) pc next td' \<or> \<not> owner pc'"
proof -
  note v = threads_okD(1) [OF inv(1) j(1)]
  have only: "\<not> owner pc'" if "owner pc" using one_ownerD [OF inv(2) i j(1) that] j(2) by auto
  show no: "quiet addr (co_td s) pc next td' \<or> \<not> owner pc'"
    using k only view_ok_owned [OF v] unfolding moves_def begins_def works_def leaves_def by blast
  consider (quiet) "quiet addr (co_td s) pc next td'" | (begins) "begins addr (co_td s) cl pc next td'" "\<not> owner pc'"
    | (works) "works (co_td s) cl pc next td'" "\<not> owner pc'" | (leaves) "leaves (co_td s) pc next td'" "\<not> owner pc'"
    using k no unfolding moves_def by blast
  then show "view_ok td' cl' pc'"
  proof cases
    case quiet
    then have "td_mutable td' = td_mutable (co_td s)" "td_tx_ctx td' = td_tx_ctx (co_td s)" by (simp_all add: quiet_def)
    from view_ok_cong [OF this] v show ?thesis by blast
  next
    case begins
    then obtain c where c: "td_tx_ctx td' = Some c" "ctx_of pc = Some c \<or> tc_id c = addr" unfolding begins_def by blast
    have "tc_id c \<noteq> tc_id c'" if c': "ctx_of pc' = Some c'" for c'
    proof
      assume eq: "tc_id c = tc_id c'"
      from c(2) show False
      proof
        assume "ctx_of pc = Some c"
        from ctxs_apartD [OF inv(3) i j(1) this c' eq] j(2) show False by simp
      next
        assume "tc_id c = addr"
        with unusedD(3) [OF new j(1) c'] eq show False by simp
      qed
    qed
    with c(1) v begins(2) show ?thesis by (simp add: view_ok_def)
  next
    case works
    with v show ?thesis by (simp add: view_ok_def works_def)
  next
    case leaves
    with v show ?thesis by (simp add: view_ok_def leaves_def)
  qed
qed

lemma set_thread_simps [simp]:
  "co_td (set_thread s i t) = co_td s" "co_threads (set_thread s i t) = (co_threads s)(i := t)"
  by (simp_all add: set_thread_def)

lemma view_ok_start: "disciplined Hs \<Longrightarrow> call_handle Hs cl \<Longrightarrow> view_ok td cl (call_start cl)"
  by (cases cl) (auto simp: view_ok_def disciplined_def)

lemma call_start_simps [simp]:
  "\<not> owner (call_start cl)" "ctx_of (call_start cl) = None" "\<not> frees_tx (call_start cl)" "\<not> frees_op (call_start cl)"
  by (cases cl; simp)+

lemma threads_upd:
  assumes "((co_threads s)(i := t)) j = Some (cl, pc)"
  obtains (self) "j = i" "t = Some (cl, pc)" | (other) "j \<noteq> i" "co_threads s j = Some (cl, pc)"
  using assms by (auto split: if_splits)

lemma conc_inv_start:
  assumes "conc_inv Hs s" and "disciplined Hs" and "co_threads s i = None" and "call_handle Hs cl"
  shows "conc_inv Hs (set_thread s i (Some (cl, call_start cl)))"
proof -
  let ?s = "set_thread s i (Some (cl, call_start cl))"
  have "threads_ok Hs ?s" using assms view_ok_start unfolding conc_inv_def threads_ok_def by auto
  moreover have "one_owner ?s" using assms unfolding conc_inv_def one_owner_def by auto
  moreover have "unowned_free ?s"
    using assms unfolding conc_inv_def unowned_free_def by (simp only: set_thread_simps) (metis fun_upd_other option.distinct(1))
  moreover have "ctxs_apart ?s" using assms unfolding conc_inv_def ctxs_apart_def by auto
  moreover have "handles_apart Hs ?s" using assms unfolding conc_inv_def handles_apart_def by auto
  moreover have "mutexes_freed ?s" using assms unfolding conc_inv_def mutexes_freed_def
    by (simp only: set_thread_simps) (metis fun_upd_other option.distinct(1))
  ultimately show ?thesis using assms(1) by (simp add: conc_inv_def)
qed

text \<open>The state after a step of thread \<open>i\<close>, part by part of the invariant.\<close>

definition after :: "conc \<Rightarrow> nat \<Rightarrow> call \<Rightarrow> pc option \<Rightarrow> TransactionalDatatype \<Rightarrow> conc" where
  "after s i cl next td' = set_thread (s\<lparr>co_td := td'\<rparr>) i (map_option (Pair cl) next)"

lemma after_simps [simp]:
  "co_td (after s i cl next td') = td'" "co_threads (after s i cl next td') = (co_threads s)(i := map_option (Pair cl) next)"
  by (simp_all add: after_def)

lemma moved_ctx:
  assumes "moves addr td cl pc next td'"
  shows "next = Some pn \<Longrightarrow> ctx_of pn = Some c \<Longrightarrow> ctx_of pc = Some c \<or> tc_id c = addr"
    and "td_tx_ctx td' = Some c \<Longrightarrow> td_tx_ctx td = Some c \<or> ctx_of pc = Some c \<or> tc_id c = addr"
  using assms unfolding moves_def step_kinds by auto

lemma free_pending:
  assumes "threads_ok Hs s" and "unowned_free s" and "td_tx_ctx (co_td s) = None"
  shows "pending (m_tx_record (td_mutable (co_td s))) = None"
  using assms(2) view_ok_owned [OF threads_okD(1) [OF assms(1)] assms(3)] unfolding unowned_free_def by blast

lemma after_own_view:
  assumes ok: "threads_ok Hs s" and un: "unowned_free s" and i: "co_threads s i = Some (cl, pc)" and new: "unused Hs addr s"
    and k: "moves addr (co_td s) cl pc next td'" and pc': "next = Some pc'" "pc_ok cl pc'"
  shows "view_ok td' cl pc'"
proof -
  note v = threads_okD(1) [OF ok i]
  consider (quiet) "quiet addr (co_td s) pc next td'" | (begins) "begins addr (co_td s) cl pc next td'"
    | (works) "works (co_td s) cl pc next td'" | (leaves) "leaves (co_td s) pc next td'" using k unfolding moves_def by blast
  then show ?thesis
  proof cases
    case quiet
    then show ?thesis using pc' v unusedD(2) [OF new] by (auto simp: view_ok_def quiet_def)
  next
    case begins
    then show ?thesis using pc' free_pending [OF ok un] by (auto simp: view_ok_def begins_def)
  next
    case works
    then show ?thesis using pc' v by (auto simp: view_ok_def works_def)
  next
    case leaves
    then show ?thesis using pc' by (auto simp: view_ok_def leaves_def)
  qed
qed

lemma after_one_owner:
  assumes inv: "threads_ok Hs s" "one_owner s" "ctxs_apart s" and i: "co_threads s i = Some (cl, pc)" and new: "unused Hs addr s"
    and k: "moves addr (co_td s) cl pc next td'"
  shows "one_owner (after s i cl next td')"
proof -
  have "\<not> owner pc'" if "next = Some pn" "owner pn" "co_threads s j = Some (cl', pc')" "j \<noteq> i" for pn j cl' pc'
    using bystander(2) [OF inv i that(3,4) new k] that(1,2) unfolding quiet_def by blast
  then show ?thesis using one_ownerD [OF inv(2)] unfolding one_owner_def by (auto elim!: threads_upd)
qed

lemma after_unowned_free:
  assumes un: "unowned_free s" and i: "co_threads s i = Some (cl, pc)" and k: "moves addr (co_td s) cl pc next td'"
  shows "unowned_free (after s i cl next td')"
  unfolding unowned_free_def
proof (intro impI)
  let ?s = "after s i cl next td'"
  assume no: "\<forall>j cl pc. co_threads ?s j = Some (cl, pc) \<longrightarrow> \<not> owner pc"
  have none: "next = Some pn \<Longrightarrow> \<not> owner pn" for pn using no [THEN spec, of i] by auto
  show "td_tx_ctx (co_td ?s) = None \<and> pending (m_tx_record (td_mutable (co_td ?s))) = None"
  proof (cases "quiet addr (co_td s) pc next td'")
    case True
    have "\<not> owner pc'" if "co_threads s j = Some (cl', pc')" for j cl' pc'
      using no [THEN spec, of j] that i True unfolding quiet_def by (cases "j = i") auto
    with un True show ?thesis unfolding unowned_free_def quiet_def by auto
  next
    case False
    with k none show ?thesis unfolding moves_def begins_def works_def leaves_def by auto
  qed
qed

lemma after_ctxs_apart:
  assumes ap: "ctxs_apart s" and i: "co_threads s i = Some (cl, pc)" and new: "unused Hs addr s"
    and k: "moves addr (co_td s) cl pc next td'"
  shows "ctxs_apart (after s i cl next td')"
proof -
  have "tc_id c \<noteq> tc_id c'" if "next = Some pn" "ctx_of pn = Some c" "co_threads s j = Some (cl', pc')" "j \<noteq> i" "ctx_of pc' = Some c'"
    for pn c j cl' pc' c'
    using moved_ctx(1) [OF k that(1,2)] ctxs_apartD [OF ap i that(3) _ that(5)] unusedD(3) [OF new that(3,5)] that(4) by metis
  then show ?thesis using ctxs_apartD [OF ap] unfolding ctxs_apart_def by (auto elim!: threads_upd) metis
qed

lemma after_handles_apart:
  assumes ha: "handles_apart Hs s" and d: "disciplined Hs" and i: "co_threads s i = Some (cl, pc)" and new: "unused Hs addr s"
    and k: "moves addr (co_td s) cl pc next td'"
  shows "handles_apart Hs (after s i cl next td')"
proof -
  have hp: "tc_id h \<noteq> addr" if "h \<in> Hs" for h using unusedD(1) [OF new that] d that unfolding disciplined_def by blast
  have "tc_id h \<noteq> tc_id c" if "td_tx_ctx td' = Some c" "h \<in> Hs" for c h
    using moved_ctx(2) [OF k that(1)] hp [OF that(2)] ha i that(2) unfolding handles_apart_def by blast
  moreover have "tc_id h \<noteq> tc_id c" if "next = Some pn" "ctx_of pn = Some c" "h \<in> Hs" for pn c h
    using moved_ctx(1) [OF k that(1,2)] hp [OF that(3)] ha i that(3) unfolding handles_apart_def by blast
  ultimately show ?thesis using ha unfolding handles_apart_def by (auto elim!: threads_upd)
qed

lemma after_freed:
  assumes i: "co_threads s i = Some (cl, pc)" and h: "held_after held was frees pc next" "held"
    and f: "was \<Longrightarrow> \<exists>j cl pc. co_threads s j = Some (cl, pc) \<and> frees pc"
  shows "\<exists>j cl' pc. co_threads (after s i cl next td') j = Some (cl', pc) \<and> frees pc"
proof (cases "\<exists>pn. next = Some pn \<and> frees pn")
  case True
  then show ?thesis by auto
next
  case False
  with h have "was" "\<not> frees pc" by (simp_all add: held_after_def)
  with f i obtain j cl' pc' where "co_threads s j = Some (cl', pc')" "frees pc'" "j \<noteq> i" by (metis Pair_inject option.inject)
  then show ?thesis by auto
qed

lemma conc_inv_run:
  assumes inv: "conc_inv Hs s" and d: "disciplined Hs" and i: "co_threads s i = Some (cl, pc)" and new: "unused Hs addr s"
    and a: "advance now addr cl pc (co_td s) = Some (next, td')"
  shows "conc_inv Hs (after s i cl next td')"
proof -
  have ok: "threads_ok Hs s" and one: "one_owner s" and un: "unowned_free s" and ap: "ctxs_apart s" and ha: "handles_apart Hs s"
    and fr: "mutexes_freed s" and w: "check_writable (co_td s) = Ok ()"
    using inv unfolding conc_inv_def by blast+
  note v = threads_okD(1) [OF ok i] and ch = threads_okD(2) [OF ok i]
  have "\<forall>c hd d. td_tx_ctx (co_td s) = Some c \<longrightarrow> cl = Single hd d \<longrightarrow> tc_id hd \<noteq> tc_id c"
    using ha ch unfolding handles_apart_def by auto
  from advance_effect [OF v w a this] have k: "moves addr (co_td s) cl pc next td'"
    and own: "next = Some pc' \<Longrightarrow> view_ok td' cl pc'" and w': "check_writable td' = Ok ()" for pc'
    using after_own_view [OF ok un i new] unfolding proper_def by blast+
  have "threads_ok Hs (after s i cl next td')"
    using bystander(1) [OF ok one ap i _ _ new k] own ch threads_okD(2) [OF ok] unfolding threads_ok_def by (auto elim!: threads_upd)
  moreover have h: "held_after (td_tx_mutex td') (td_tx_mutex (co_td s)) frees_tx pc next"
      "held_after (td_op_mutex td') (td_op_mutex (co_td s)) frees_op pc next"
    using advance_mutexes [OF v w a] by blast+
  have "mutexes_freed (after s i cl next td')"
    using after_freed [OF i h(1), of td'] after_freed [OF i h(2), of td'] fr unfolding mutexes_freed_def by auto
  ultimately show ?thesis
    using after_one_owner [OF ok one ap i new k] after_unowned_free [OF un i k] after_ctxs_apart [OF ap i new k]
      after_handles_apart [OF ha d i new k] w'
    by (simp add: conc_inv_def)
qed

lemma pulled_frame:
  assumes "m_state m = Subscribed" and "accepted m q" "no_snapshot m q"
  shows "m_tx_record (fst (apply_pull q m)) = m_tx_record m" "m_state (fst (apply_pull q m)) = m_state m"
    "m_attr (fst (apply_pull q m)) = m_attr m" "oid_cuid (m_op_id (fst (apply_pull q m))) = oid_cuid (m_op_id m)"
    "m_push_buffer (fst (apply_pull q m)) = m_push_buffer m"
    "crdt_value (m_crdt (fst (apply_pull q m))) = crdt_value (m_crdt m) + txs_delta (unskipped (m_checkpoint m) q)"
  using apply_pull_accepted [OF assms(2,3)] assms(1) by (simp_all add: set_state_def pulled_into_def Let_def)

lemma conc_inv_pull:
  assumes inv: "conc_inv Hs s" and st: "m_state (td_mutable (co_td s)) = Subscribed"
    and q: "accepted (td_mutable (co_td s)) q" "no_snapshot (td_mutable (co_td s)) q"
  shows "conc_inv Hs (s\<lparr>co_td := (co_td s)\<lparr>td_mutable := fst (apply_pull q (td_mutable (co_td s)))\<rparr>\<rparr>)"
proof -
  let ?m = "td_mutable (co_td s)" let ?m' = "fst (apply_pull q ?m)"
  let ?s = "\<lambda>m. s\<lparr>co_td := (co_td s)\<lparr>td_mutable := m\<rparr>\<rparr>"
  note m' = pulled_frame [OF st q]
  then have p: "pending_is ?m' xs = pending_is ?m xs" for xs
    by (cases "pending (m_tx_record ?m)") (simp_all add: pending_is_def)
  have "view_ok ((co_td s)\<lparr>td_mutable := ?m'\<rparr>) cl pc = view_ok (co_td s) cl pc" for cl pc
    by (simp add: view_ok_def p)
  then have "threads_ok Hs (?s ?m') = threads_ok Hs s" by (simp add: threads_ok_def)
  moreover have "unowned_free (?s ?m') = unowned_free s" by (simp add: unowned_free_def m')
  moreover have "handles_apart Hs (?s ?m') = handles_apart Hs s" "mutexes_freed (?s ?m') = mutexes_freed s"
      "one_owner (?s ?m') = one_owner s" "ctxs_apart (?s ?m') = ctxs_apart s"
    by (simp_all add: handles_apart_def mutexes_freed_def one_owner_def ctxs_apart_def)
  ultimately show ?thesis using inv m'(2,3) by (simp add: conc_inv_def)
qed

lemma conc_inv_step: "conc_inv Hs s \<Longrightarrow> disciplined Hs \<Longrightarrow> conc_step Hs s s' \<Longrightarrow> conc_inv Hs s'"
  by (erule conc_step.cases) (auto intro: conc_inv_start conc_inv_run [unfolded after_def] conc_inv_pull)

lemma conc_inv_init: "idle td \<Longrightarrow> conc_inv Hs (conc_init td)"
  by (simp add: conc_inv_def conc_init_def idle_def threads_ok_def one_owner_def unowned_free_def ctxs_apart_def
      handles_apart_def mutexes_freed_def)

lemma conc_inv_steps:
  assumes "conc_steps Hs s s'" and "conc_inv Hs s" and "disciplined Hs"
  shows "conc_inv Hs s'"
  using assms by (induction) (auto intro: conc_inv_step)

end
