(* ===== verification/Thread_Safety.thy ===== *)
theory Thread_Safety
  imports Threads
begin

text \<open>
  What the threads of a process can rely on: in every interleaving the calls of a counter take effect one
  at a time and as a whole, no call can block the others for good, and what goes wrong when the handle
  that a transaction's closure is given is still used after the closure has returned.
\<close>

subsection \<open>Every step is a step of the atomic counter\<close>

text \<open>What the counter has settled: its value without the transaction in progress, and its buffer.\<close>

definition settled :: "TransactionalDatatype \<Rightarrow> i64" where
  "settled td = get_value td - pending_delta (td_mutable td)"

definition buffered :: "TransactionalDatatype \<Rightarrow> Transaction list" where
  "buffered td = pb_transaction (m_push_buffer (td_mutable td))"

lemma pending_is_delta: "pending_is m xs \<Longrightarrow> pending_delta m = sum_list xs"
  by (auto simp: pending_is_def pending_delta_def ops_delta_def split: option.splits)

lemma settled_view: "view_ok td cl pc \<Longrightarrow> owner pc \<Longrightarrow> settled td = get_value td - sum_list (ran cl pc)"
  by (auto simp: settled_def view_ok_def dest: pending_is_delta)

definition atomic_call :: "call \<Rightarrow> TransactionalDatatype \<Rightarrow> TransactionalDatatype \<Rightarrow> bool" where
  "atomic_call cl td td' =
     (call_ok cl \<and> settled td' = settled td + sum_list (call_ops cl) \<and>
      (\<exists>tx. buffered td' = buffered td @ [tx] \<and> tx_tag tx = call_tag cl \<and> map op_delta (tx_operations tx) = call_ops cl))"

lemma end_is_atomic:
  assumes p: "pending_is (td_mutable td) xs" and e: "ended td tag b xs td'" and n: "pending (m_tx_record (td_mutable td')) = None"
  shows "settled td' = settled td \<and> buffered td' = buffered td \<or>
    b \<and> settled td' = settled td + sum_list xs \<and>
    (\<exists>tx. buffered td' = buffered td @ [tx] \<and> tx_tag tx = tag \<and> map op_delta (tx_operations tx) = xs)"
proof -
  have "pending_delta (td_mutable td') = 0" using n by (simp add: pending_delta_def)
  with e pending_is_delta [OF p] show ?thesis by (auto simp: settled_def buffered_def ended_def)
qed

lemma advance_settles:
  assumes v: "view_ok td cl pc" and a: "advance now addr cl pc td = Some (next, td')"
  shows "settled td' = settled td \<and> buffered td' = buffered td \<or> owner pc \<and> atomic_call cl td td'"
proof -
  have ok: "pc_ok cl pc" using v by (simp add: view_ok_def)
  have same: ?thesis if "td_mutable td' = td_mutable td"
    using that by (simp add: settled_def buffered_def get_value_def)
  show ?thesis
  proof (cases pc)
    case (Tx_begin c)
    with a show ?thesis
      by (intro same) (auto simp: begin_transaction_def Let_def split: option.splits if_splits)
  next
    case (Op_begin c f)
    with a show ?thesis
      by (intro same) (auto simp: begin_transaction_def Let_def split: option.splits if_splits)
  next
    case (Op_exec c f dg)
    obtain m r where e: "execute_local_operation (td_mutable td) (new_counter_increase now (op_amount cl f)) = (m, r)"
      by (metis prod.collapse)
    from Op_exec v have p: "pending_is (td_mutable td) (ran cl pc)" unfolding view_ok_def by (simp only: owner.simps if_True)
    from a Op_exec e have "td' = td\<lparr>td_mutable := m\<rparr>" by simp
    with pending_is_op [OF p e] pending_is_delta [OF p] pending_is_delta [OF pending_is_op(2) [OF p e]] show ?thesis
      by (simp add: settled_def buffered_def get_value_def)
  next
    case (Dropping fs b f)
    show ?thesis
    proof (cases "f = None \<and> fs = [Defer_end_transaction (call_tag cl)]")
      case True
      with Dropping ok v have p: "pending_is (td_mutable td) (call_ops cl)" and b: "b = call_ok cl" by (simp_all add: view_ok_def)
      obtain m' el where e: "end_critical td (call_tag cl) b = (td\<lparr>td_mutable := m', td_event_loop := el\<rparr>, False)"
          "pending (m_tx_record m') = None" "ended td (call_tag cl) b (call_ops cl) (td\<lparr>td_mutable := m', td_event_loop := el\<rparr>)"
        using end_critical_pending [OF p, of "call_tag cl" b] by blast
      have "td' = td\<lparr>td_mutable := m', td_event_loop := el\<rparr>" using a Dropping True e(1) by simp
      with end_is_atomic [OF p e(3)] e(2) b Dropping show ?thesis by (simp add: atomic_call_def)
    next
      case False
      with ok Dropping obtain gs where "fs = Defer_unlock_op # gs" by (auto split: if_splits)
      with a Dropping show ?thesis by (intro same) auto
    qed
  qed (use ok a in \<open>auto simp: settled_def buffered_def get_value_def\<close>)
qed

lemma pull_settles:
  fixes td :: TransactionalDatatype
  defines "m \<equiv> td_mutable td"
  assumes q: "m_state m = Subscribed" "accepted m q" "no_snapshot m q"
  shows "settled (td\<lparr>td_mutable := fst (apply_pull q m)\<rparr>) = settled td + txs_delta (unskipped (m_checkpoint m) q)"
    and "buffered (td\<lparr>td_mutable := fst (apply_pull q m)\<rparr>) = buffered td"
  using pulled_frame [OF q] by (simp_all add: settled_def buffered_def get_value_def pending_delta_def m_def)

subsection \<open>Completion\<close>

text \<open>How many steps a call has left when nothing is in its way.\<close>

fun frame_rank :: "call \<Rightarrow> frame \<Rightarrow> nat" where
  "frame_rank cl None = 3"
| "frame_rank cl (Some (c, dg, n)) = 6 * (length (call_ops cl) - Suc n) + 4"

fun rank :: "call \<Rightarrow> pc \<Rightarrow> nat" where
  "rank cl Tx_check = 6 * length (call_ops cl) + 9"
| "rank cl (Tx_wait c) = 6 * length (call_ops cl) + 8"
| "rank cl (Tx_waited c) = 6 * length (call_ops cl) + 7"
| "rank cl (Tx_begin c) = 6 * length (call_ops cl) + 6"
| "rank cl (Tx_lock c dg) = 6 * length (call_ops cl) + 5"
| "rank cl (Tx_body c dg n) = 6 * (length (call_ops cl) - n) + 4"
| "rank cl (Op_wait c f) = frame_rank cl f + 6"
| "rank cl (Op_waited c f) = frame_rank cl f + 5"
| "rank cl (Op_check c f) = frame_rank cl f + 5"
| "rank cl (Op_begin c f) = frame_rank cl f + 4"
| "rank cl (Op_lock c f dg) = frame_rank cl f + 3"
| "rank cl (Op_exec c f dg) = frame_rank cl f + 2"
| "rank cl (Dropping fs b f) = (if Defer_unlock_op \<in> set fs then frame_rank cl f + 1 else 3)"
| "rank cl (End_take fs b f) = 2"
| "rank cl (End_unlock fs b f) = 1"
| "rank cl Crashed = 0"

definition rank_option :: "call \<Rightarrow> pc option \<Rightarrow> nat" where
  "rank_option cl next = (case next of None \<Rightarrow> 0 | Some pc \<Rightarrow> rank cl pc)"

text \<open>A call whose mutex is free and which does not wait for another transaction makes progress.\<close>

fun unblocked :: "TransactionalDatatype \<Rightarrow> pc \<Rightarrow> bool" where
  "unblocked td (Tx_begin c) = (td_tx_ctx td = None)"
| "unblocked td (Tx_wait c) = (\<not> td_tx_mutex td)"
| "unblocked td (Tx_lock c dg) = (\<not> td_tx_mutex td)"
| "unblocked td (Op_begin c f) = (f \<noteq> None \<or> td_tx_ctx td = None)"
| "unblocked td (Op_wait c f) = (\<not> td_op_mutex td)"
| "unblocked td (Op_lock c f dg) = (\<not> td_op_mutex td)"
| "unblocked td pc = True"

lemma advance_progress:
  assumes v: "view_ok td cl pc" and w: "check_writable td = Ok ()" and u: "unblocked td pc"
  shows "\<exists>next td'. advance now addr cl pc td = Some (next, td') \<and> rank_option cl next < rank cl pc"
proof -
  have ok: "pc_ok cl pc" using v by (simp add: view_ok_def)
  show ?thesis
  proof (cases pc)
    case Tx_check
    with ok w show ?thesis by (auto simp: rank_option_def)
  next
    case (Tx_begin c)
    with u show ?thesis by (simp add: begin_transaction_simps rank_option_def)
  next
    case (Tx_body c dg n)
    with ok show ?thesis by (auto simp: rank_option_def drop_start_def drop_next_def guard_commit_def)
  next
    case (Op_check c f)
    with w show ?thesis by (simp add: rank_option_def)
  next
    case (Op_begin c f)
    show ?thesis
    proof (cases f)
      case None
      with Op_begin u show ?thesis by (simp add: begin_transaction_simps rank_option_def)
    next
      case (Some fr)
      with v Op_begin have "td_tx_ctx td = Some c" by (auto simp: view_ok_def elim!: frame_okE)
      with Op_begin show ?thesis by (simp add: begin_transaction_simps rank_option_def)
    qed
  next
    case (Op_exec c f dg)
    obtain m r where e: "execute_local_operation (td_mutable td) (new_counter_increase now (op_amount cl f)) = (m, r)"
      by (metis prod.collapse)
    from Op_exec v have p: "pending_is (td_mutable td) (ran cl pc)" unfolding view_ok_def by (simp only: owner.simps if_True)
    have "rev (dg_defer_func_lifo (guard_commit dg)) = Defer_unlock_op # (if f = None then [Defer_end_transaction None] else [])"
      using ok Op_exec by (simp add: guard_commit_def add_defer_func_def DeferGuard_new_def)
    with pending_is_op(1) [OF p e] e Op_exec show ?thesis by (simp add: rank_option_def drop_start_def drop_next_def)
  next
    case (Dropping fs b f)
    show ?thesis
    proof (cases "f = None \<and> fs = [Defer_end_transaction (call_tag cl)]")
      case True
      with Dropping v have p: "pending_is (td_mutable td) (call_ops cl)" by (simp add: view_ok_def)
      obtain td' where "end_critical td (call_tag cl) b = (td', False)"
        using end_critical_pending [OF p, of "call_tag cl" b] by blast
      with Dropping True show ?thesis by (simp add: rank_option_def)
    next
      case False
      then show ?thesis using ok Dropping
        by (cases "(f, cl)" rule: prod.exhaust; cases f) (auto simp: rank_option_def drop_next_def split: if_splits elim!: frame_okE)
    qed
  next
    case (End_unlock fs b f)
    with ok show ?thesis by (simp add: rank_option_def drop_next_def)
  qed (use ok u in \<open>auto simp: rank_option_def mutex_lock_def\<close>)
qed

definition active :: "conc \<Rightarrow> nat set" where
  "active s = {i. co_threads s i \<noteq> None}"

lemma active_upd: "active (set_thread s i t) \<subseteq> insert i (active s)" "active (s\<lparr>co_td := td\<rparr>) = active s"
  by (auto simp: active_def)

lemma finite_active_step: "conc_step Hs s s' \<Longrightarrow> finite (active s) \<Longrightarrow> finite (active s')"
  by (erule conc_step.cases) (auto intro: finite_subset [OF active_upd(1)] simp: active_upd(2))

lemma finite_active: "conc_steps Hs s s' \<Longrightarrow> finite (active s) \<Longrightarrow> finite (active s')"
  by (induction rule: conc_steps.induct) (auto intro: finite_active_step)

lemma unused_exists:
  assumes "finite (active s)" and "finite Hs"
  obtains addr where "unused Hs addr s"
proof -
  let ?used = "tc_id ` Hs \<union> tc_id ` set_option (td_tx_ctx (co_td s)) \<union>
      (\<Union>i \<in> active s. tc_id ` set_option (ctx_of (snd (the (co_threads s i)))))"
  have "finite ?used" using assms by auto
  from ex_new_if_finite [OF infinite_UNIV_nat this] obtain addr where a: "addr \<notin> ?used" ..
  have "unused Hs addr s"
    unfolding unused_def
  proof (intro conjI allI impI ballI)
    fix i cl pc c
    assume "co_threads s i = Some (cl, pc)" "ctx_of pc = Some c"
    then have "tc_id c \<in> tc_id ` set_option (ctx_of (snd (the (co_threads s i))))" "i \<in> active s" by (auto simp: active_def)
    with a show "tc_id c \<noteq> addr" by blast
  qed (use a in auto)
  then show ?thesis by (rule that)
qed

fun passing :: "pc \<Rightarrow> bool" where
  "passing (Tx_waited c) = True"
| "passing (Op_waited c f) = True"
| "passing (End_unlock fs b f) = True"
| "passing pc = False"

lemma freeing: "frees_tx pc \<Longrightarrow> owner pc \<or> passing pc" "frees_op pc \<Longrightarrow> owner pc \<or> passing pc"
  by (cases pc; simp)+

lemma unblocked_passing: "passing pc \<Longrightarrow> unblocked td pc"
  by (cases pc) simp_all

text \<open>Some call in progress is never in the way of itself: one that is about to pass, the owner, or any.\<close>

lemma unblocked_exists:
  assumes inv: "conc_inv Hs s" and act: "active s \<noteq> {}"
  obtains i cl pc where "co_threads s i = Some (cl, pc)" "unblocked (co_td s) pc"
proof -
  have ok: "threads_ok Hs s" and one: "one_owner s" and un: "unowned_free s" and fr: "mutexes_freed s"
    using inv unfolding conc_inv_def by blast+
  consider (passing) i cl pc where "co_threads s i = Some (cl, pc)" "passing pc"
    | (owner) i cl pc where "co_threads s i = Some (cl, pc)" "owner pc" "\<forall>j cl pc. co_threads s j = Some (cl, pc) \<longrightarrow> \<not> passing pc"
    | (free) i cl pc where "co_threads s i = Some (cl, pc)"
        "\<forall>j cl pc. co_threads s j = Some (cl, pc) \<longrightarrow> \<not> passing pc \<and> \<not> owner pc"
    using act unfolding active_def by fastforce
  then show ?thesis
  proof cases
    case passing
    then show ?thesis by (blast intro: that unblocked_passing)
  next
    case owner
    have me: "cl' = cl \<and> pc' = pc" if "co_threads s j = Some (cl', pc')" "owner pc'" for j cl' pc'
      using one_ownerD [OF one owner(1) that(1) owner(2) that(2)] owner(1) that(1) by simp
    have "frees_tx pc" if "td_tx_mutex (co_td s)"
      using fr that freeing(1) owner(3) me unfolding mutexes_freed_def by blast
    moreover have "frees_op pc" if "td_op_mutex (co_td s)"
      using fr that freeing(2) owner(3) me unfolding mutexes_freed_def by blast
    ultimately have "unblocked (co_td s) pc" using owner(2) by (cases pc) auto
    with owner(1) show ?thesis by (rule that)
  next
    case free
    have "td_tx_ctx (co_td s) = None" using un free(2) unfolding unowned_free_def by blast
    moreover have "\<not> td_tx_mutex (co_td s)" "\<not> td_op_mutex (co_td s)"
      using fr free(2) freeing unfolding mutexes_freed_def by blast+
    ultimately have "unblocked (co_td s) pc" by (cases pc) auto
    with free(1) show ?thesis by (rule that)
  qed
qed

lemma conc_steps_trans: "conc_steps Hs s' s'' \<Longrightarrow> conc_steps Hs s s' \<Longrightarrow> conc_steps Hs s s''"
  by (induction rule: conc_steps.induct) (auto intro: conc_steps.step)

definition work :: "conc \<Rightarrow> nat" where
  "work s = (\<Sum>i \<in> active s. case co_threads s i of None \<Rightarrow> 0 | Some (cl, pc) \<Rightarrow> rank cl pc)"

lemma work_after:
  assumes "finite (active s)" and i: "co_threads s i = Some (cl, pc)" and r: "rank_option cl next < rank cl pc"
  shows "work (after s i cl next td') < work s"
proof -
  let ?f = "\<lambda>s i. case co_threads s i of None \<Rightarrow> 0 | Some (cl, pc) \<Rightarrow> rank cl pc"
  let ?s = "after s i cl next td'"
  have sub: "active ?s \<subseteq> active s" using i by (auto simp: active_def)
  have "work ?s = (\<Sum>j \<in> active s. ?f ?s j)"
    unfolding work_def by (rule sum.mono_neutral_left) (use assms(1) sub in \<open>auto simp: active_def split: option.splits\<close>)
  also have "\<dots> < (\<Sum>j \<in> active s. ?f s j)"
    by (rule sum_strict_mono_ex1) (use assms in \<open>auto simp: active_def rank_option_def split: option.splits\<close>)
  finally show ?thesis by (simp add: work_def)
qed

lemma completes:
  assumes "conc_inv Hs s" and "disciplined Hs" "finite Hs" and "finite (active s)"
  shows "\<exists>s'. conc_steps Hs s s' \<and> active s' = {} \<and> conc_inv Hs s'"
  using assms(1,4)
proof (induction "work s" arbitrary: s rule: less_induct)
  case less
  show ?case
  proof (cases "active s = {}")
    case True
    with less.prems(1) show ?thesis by (blast intro: conc_steps.refl)
  next
    case False
    obtain i cl pc where i: "co_threads s i = Some (cl, pc)" "unblocked (co_td s) pc"
      by (rule unblocked_exists [OF less.prems(1) False])
    obtain addr where addr: "unused Hs addr s" by (rule unused_exists [OF less.prems(2) assms(3)])
    have "view_ok (co_td s) cl pc" "check_writable (co_td s) = Ok ()"
      using less.prems(1) i(1) unfolding conc_inv_def by (auto dest: threads_okD)
    from advance_progress [OF this i(2)] obtain "next" td' where
      a: "advance 0 addr cl pc (co_td s) = Some (next, td')" "rank_option cl next < rank cl pc" by blast
    let ?s = "after s i cl next td'"
    have st: "conc_step Hs s ?s" unfolding after_def using i(1) addr a(1) by (rule conc_step.run)
    obtain s' where "conc_steps Hs ?s s'" "active s' = {}" "conc_inv Hs s'"
      using less.hyps [OF work_after [OF less.prems(2) i(1) a(2)]] conc_inv_step [OF less.prems(1) assms(2) st]
        finite_active_step [OF st less.prems(2)] by blast
    with conc_steps_trans [OF _ conc_steps.step [OF conc_steps.refl st]] show ?thesis by blast
  qed
qed

subsection \<open>A thread on its own\<close>

text \<open>
  With no other thread around, the steps of a call add up to the call as the theories Transactional and
  Counter define it.
\<close>

fun alone :: "nat \<Rightarrow> SystemTime \<Rightarrow> nat \<Rightarrow> call \<Rightarrow> pc \<Rightarrow> TransactionalDatatype \<Rightarrow> TransactionalDatatype option" where
  "alone 0 now addr cl pc td = None"
| "alone (Suc k) now addr cl pc td =
     (case advance now addr cl pc td of
        None \<Rightarrow> None
      | Some (None, td') \<Rightarrow> Some td'
      | Some (Some pc', td') \<Rightarrow> alone k now addr cl pc' td')"

fun call_alone :: "SystemTime \<Rightarrow> nat \<Rightarrow> nat \<Rightarrow> call \<Rightarrow> TransactionalDatatype \<Rightarrow> TransactionalDatatype option" where
  "call_alone now addr core (Single h d) td = map_option fst (increase_by now addr \<lparr>ct_datatype = core, ct_tx_ctx = h\<rparr> d td)"
| "call_alone now addr core (Tx tag ds v) td =
     map_option fst (transaction addr (Counter_new core addr) tag (script now ds v) td)"

lemma alone_end:
  assumes "pending_is (td_mutable td) xs"
  shows "alone (Suc (Suc (Suc k))) now addr cl (Dropping [Defer_end_transaction tag] b None) td = Some (td_end_transaction td tag b)"
proof -
  obtain td1 where "end_critical td tag b = (td1, False)" using end_critical_pending [OF assms, of tag b] by blast
  then show ?thesis by (simp add: td_end_transaction_def drop_next_def)
qed

lemma alone_body:
  assumes "in_tx c td" and "n \<le> length ds"
  shows "alone (6 * (length ds - n) + k) now addr (Tx tag ds v) (Tx_body c dg n) td =
    alone k now addr (Tx tag ds v) (Tx_body c dg (length ds))
      (td\<lparr>td_mutable := fst (execute_local_operations (td_mutable td) (increases now (drop n ds)))\<rparr>)"
  using assms
proof (induction "length ds - n" arbitrary: n td)
  case (Suc l)
  then have n: "n < length ds" "l = length ds - Suc n" "6 * (length ds - n) + k = Suc (Suc (Suc (Suc (Suc (Suc (6 * (length ds - Suc n) + k))))))"
    by simp_all
  let ?op = "new_counter_increase now (ds ! n)"
  obtain m' r where e: "execute_local_operation (td_mutable td) ?op = (m', Ok (Return_Counter r))"
    by (simp add: execute_local_operation_counter)
  have td: "td_tx_ctx td = Some c" "\<not> td_op_mutex td" "check_writable td = Ok ()" using Suc.prems(1) by (simp_all add: in_tx_def)
  have same: "td\<lparr>td_mutable := m', td_op_mutex := False\<rparr> = td\<lparr>td_mutable := m'\<rparr>" using td(2) by simp
  have "in_tx c (td\<lparr>td_mutable := m'\<rparr>)" using in_tx_op [OF Suc.prems(1), of ?op] e by simp
  moreover have "alone (6 * (length ds - n) + k) now addr (Tx tag ds v) (Tx_body c dg n) td =
      alone (6 * (length ds - Suc n) + k) now addr (Tx tag ds v) (Tx_body c dg (Suc n)) (td\<lparr>td_mutable := m'\<rparr>)"
    unfolding n(3) using n(1) td e
    by (simp add: begin_transaction_simps mutex_lock_def drop_start_def drop_next_def guard_commit_def add_defer_func_def DeferGuard_new_def)
      (simp only: same)
  moreover have "increases now (drop n ds) = ?op # increases now (drop (Suc n) ds)"
    using n(1) by (simp flip: Cons_nth_drop_Suc)
  ultimately show ?case
    using Suc.hyps(1) [OF n(2), of "td\<lparr>td_mutable := m'\<rparr>"] n(1) e by (simp add: execute_local_operations_Cons [OF e] del: execute_local_operations.simps)
qed simp

lemma pending_is_ops:
  "pending_is m xs \<Longrightarrow> pending_is (fst (execute_local_operations m (increases now ds))) (xs @ ds)"
proof (induction ds arbitrary: m xs)
  case (Cons d ds)
  obtain m' r where e: "execute_local_operation m (new_counter_increase now d) = (m', Ok (Return_Counter r))"
    by (simp add: execute_local_operation_counter)
  from Cons.IH [OF pending_is_op(2) [OF Cons.prems e]] show ?case
    by (simp add: execute_local_operations_Cons [OF e] del: execute_local_operations.simps)
qed simp

lemma call_alone_tx:
  assumes "idle td"
  shows "alone (rank (Tx tag ds v) Tx_check) now addr (Tx tag ds v) Tx_check td = call_alone now addr core (Tx tag ds v) td"
proof -
  let ?c = "TransactionContext_new addr tag" and ?cl = "Tx tag ds v"
  let ?td1 = "td\<lparr>td_tx_ctx := Some ?c, td_tx_mutex := True\<rparr>"
  let ?m = "fst (execute_local_operations (td_mutable td) (increases now ds))"
  let ?td2 = "?td1\<lparr>td_mutable := ?m\<rparr>"
  have i: "td_tx_ctx td = None" "\<not> td_tx_mutex td" "check_writable td = Ok ()" "pending (m_tx_record (td_mutable td)) = None"
    using assms by (simp_all add: idle_def)
  have tx: "in_tx ?c ?td1" using assms by (simp add: in_tx_def idle_def)
  have p: "pending_is (td_mutable ?td2) ds" using pending_is_ops [of "td_mutable td" "[]"] i(4) by simp
  have "alone (rank ?cl Tx_check) now addr ?cl Tx_check td = alone (6 * length ds + 6) now addr ?cl (Tx_body ?c (tx_guard (Some tag)) 0) ?td1"
    using i by (simp add: eval_nat_numeral begin_transaction_simps has_tag_def TransactionContext_new_def mutex_lock_def)
  also have "\<dots> = alone 6 now addr ?cl (Tx_body ?c (tx_guard (Some tag)) (length ds)) ?td2"
    using alone_body [OF tx, of 0 ds 6 now addr tag v "tx_guard (Some tag)"] by simp
  also have "\<dots> = Some (td_end_transaction ?td2 (Some tag) (is_ok v))"
  proof -
    have "alone (Suc k) now addr ?cl (Tx_body ?c (tx_guard (Some tag)) (length ds)) ?td2 =
        alone k now addr ?cl (Dropping [Defer_end_transaction (Some tag)] (is_ok v) None) ?td2" for k
      by (simp add: drop_start_def drop_next_def guard_commit_def)
    from this [of "Suc (Suc (Suc 2))"] alone_end [OF p, of 2 now addr ?cl "Some tag" "is_ok v"] show ?thesis
      by (simp only: flip: numeral_eq_Suc) (simp add: numeral_eq_Suc del: alone.simps)
  qed
  also have "\<dots> = call_alone now addr core ?cl td"
    using script_in_tx [OF tx, of now ds v "Counter_new core addr"] i
    by (cases v) (simp_all add: transaction_def do_transaction_def begin_transaction_simps has_tag_def TransactionContext_new_def
        mutex_lock_def drop_guard_def guard_commit_def Let_def)
  finally show ?thesis .
qed

lemma call_alone_single:
  assumes "idle td" and "\<not> has_tag h"
  shows "alone (rank (Single h d) (Op_check h None)) now addr (Single h d) (Op_check h None) td = call_alone now addr core (Single h d) td"
proof -
  let ?op = "new_counter_increase now d"
  obtain m' r where e: "execute_local_operation (td_mutable td) ?op = (m', Ok (Return_Counter r))"
    by (simp add: execute_local_operation_counter)
  have i: "td_tx_ctx td = None" "\<not> td_op_mutex td" "check_writable td = Ok ()" "pending_is (td_mutable td) []"
    using assms by (simp_all add: idle_def)
  let ?td = "td\<lparr>td_tx_ctx := Some (TransactionContext_default addr), td_mutable := m', td_op_mutex := False\<rparr>"
  have p: "pending_is (td_mutable ?td) [d]" using pending_is_op(2) [OF i(4) e] by simp
  have "alone (rank (Single h d) (Op_check h None)) now addr (Single h d) (Op_check h None) td =
      alone 3 now addr (Single h d) (Dropping [Defer_end_transaction None] True None) ?td"
    using i e assms(2) by (simp add: eval_nat_numeral begin_transaction_simps mutex_lock_def drop_start_def drop_next_def guard_commit_def
        add_defer_func_def has_tag_def)
  also have "\<dots> = Some (td_end_transaction ?td None True)"
    using alone_end [OF p, of 0 now addr "Single h d" None True] by (simp only: numeral_3_eq_3)
  also have "\<dots> = call_alone now addr core (Single h d) td"
    using idle_op [OF assms(1), of addr h ?op] e assms(2) by (simp add: increase_by_def has_tag_def)
  finally show ?thesis .
qed

lemma thread_alone:
  assumes "idle td" and "\<And>h d. cl = Single h d \<Longrightarrow> \<not> has_tag h"
  shows "alone (rank cl (call_start cl)) now addr cl (call_start cl) td = call_alone now addr core cl td"
proof (cases cl)
  case (Single h d)
  with call_alone_single [OF assms(1)] assms(2) show ?thesis by (simp del: rank.simps alone.simps call_alone.simps)
next
  case (Tx tag ds v)
  with call_alone_tx [OF assms(1)] show ?thesis by (simp del: rank.simps alone.simps call_alone.simps)
qed

subsection \<open>Concrete schedules\<close>

text \<open>All contexts a state refers to, to choose addresses for concrete runs.\<close>

fun frame_ids :: "frame \<Rightarrow> nat set" where
  "frame_ids None = {}"
| "frame_ids (Some (c, dg, n)) = {tc_id c}"

fun pc_ids :: "pc \<Rightarrow> nat set" where
  "pc_ids (Tx_begin c) = {tc_id c}"
| "pc_ids (Tx_wait c) = {tc_id c}"
| "pc_ids (Tx_waited c) = {tc_id c}"
| "pc_ids (Tx_lock c dg) = {tc_id c}"
| "pc_ids (Tx_body c dg n) = {tc_id c}"
| "pc_ids (Op_check c f) = insert (tc_id c) (frame_ids f)"
| "pc_ids (Op_begin c f) = insert (tc_id c) (frame_ids f)"
| "pc_ids (Op_wait c f) = insert (tc_id c) (frame_ids f)"
| "pc_ids (Op_waited c f) = insert (tc_id c) (frame_ids f)"
| "pc_ids (Op_lock c f dg) = insert (tc_id c) (frame_ids f)"
| "pc_ids (Op_exec c f dg) = insert (tc_id c) (frame_ids f)"
| "pc_ids (Dropping fs b f) = frame_ids f"
| "pc_ids (End_take fs b f) = frame_ids f"
| "pc_ids (End_unlock fs b f) = frame_ids f"
| "pc_ids pc = {}"

definition below :: "TransactionContext set \<Rightarrow> nat \<Rightarrow> conc \<Rightarrow> bool" where
  "below Hs n s =
     ((\<forall>h \<in> Hs. tc_id h < n) \<and> (\<forall>c. td_tx_ctx (co_td s) = Some c \<longrightarrow> tc_id c < n) \<and>
      (\<forall>i cl pc. co_threads s i = Some (cl, pc) \<longrightarrow> (\<forall>a \<in> pc_ids pc. a < n)))"

lemma ctx_of_ids: "ctx_of pc = Some c \<Longrightarrow> tc_id c \<in> pc_ids pc"
proof -
  have "frame_ctx f = Some c \<Longrightarrow> tc_id c \<in> frame_ids f" for f by (cases f rule: frame_ids.cases) auto
  then show "ctx_of pc = Some c \<Longrightarrow> tc_id c \<in> pc_ids pc" by (cases pc) auto
qed

lemma below_unused: "below Hs n s \<Longrightarrow> unused Hs n s"
  unfolding below_def unused_def by (metis ctx_of_ids order_less_irrefl)

lemma resume_ids: "resume f = Some pc \<Longrightarrow> pc_ids pc = frame_ids f" "drop_next fs b f = Some pc \<Longrightarrow> pc_ids pc = frame_ids f"
  by (cases f rule: resume.cases; auto simp: drop_next_def split: if_splits)+

lemma end_critical_ctx: "end_critical td tag b = (td', p) \<Longrightarrow> td_tx_ctx td' = td_tx_ctx td"
  by (auto simp: end_critical_def Let_def split: prod.splits result.splits bool.splits if_splits)

lemma begin_ctx:
  "begin_transaction td addr c = (td', b) \<Longrightarrow> td_tx_ctx td' = Some c' \<Longrightarrow> td_tx_ctx td = Some c' \<or> tc_id c' \<in> {addr, tc_id c}"
  by (cases "td_tx_ctx td") (auto simp: begin_transaction_simps TransactionContext_default_def)

lemma advance_ids:
  assumes "advance now addr cl pc td = Some (next, td')"
  shows "(\<forall>pc'. next = Some pc' \<longrightarrow> pc_ids pc' \<subseteq> insert addr (pc_ids pc)) \<and>
    (\<forall>c. td_tx_ctx td' = Some c \<longrightarrow> td_tx_ctx td = Some c \<or> tc_id c \<in> insert addr (pc_ids pc))"
proof (cases pc)
  case Tx_check
  with assms show ?thesis by (cases cl) (auto simp: TransactionContext_new_def split: if_splits)
next
  case (Tx_begin c)
  obtain td1 b where "begin_transaction td addr c = (td1, b)" by (metis prod.collapse)
  with assms Tx_begin begin_ctx [OF this] show ?thesis by (cases b) auto
next
  case (Op_begin c f)
  obtain td1 b where "begin_transaction td addr c = (td1, b)" by (metis prod.collapse)
  with assms Op_begin begin_ctx [OF this] show ?thesis by (cases b) auto
next
  case (Tx_body c dg n)
  with assms show ?thesis by (cases cl) (auto simp: drop_start_def drop_next_def split: if_splits)
next
  case (Op_exec c f dg)
  obtain m r where "execute_local_operation (td_mutable td) (new_counter_increase now (op_amount cl f)) = (m, r)" by (metis prod.collapse)
  with assms Op_exec show ?thesis by (auto simp: drop_start_def dest: resume_ids split: if_splits)
next
  case (Dropping fs b f)
  show ?thesis
  proof (cases "(fs, f)" rule: prod.exhaust)
    case (Pair gs g)
    show ?thesis
    proof (cases fs)
      case (Cons x xs)
      with Dropping assms show ?thesis
        by (cases x) (auto dest: resume_ids end_critical_ctx split: prod.splits if_splits)
    qed (use Dropping assms in \<open>auto dest: resume_ids\<close>)
  qed
qed (use assms in \<open>auto dest: resume_ids split: if_splits\<close>)

text \<open>Running the threads of a list one after the other, each allocation at the next address.\<close>

primrec schedule :: "nat \<Rightarrow> nat list \<Rightarrow> conc \<Rightarrow> conc option" where
  "schedule n [] s = Some s"
| "schedule n (i # is) s =
     (case co_threads s i of
        None \<Rightarrow> None
      | Some (cl, pc) \<Rightarrow>
          (case advance 0 n cl pc (co_td s) of
             None \<Rightarrow> None
           | Some (next, td') \<Rightarrow> schedule (Suc n) is (after s i cl next td')))"

lemma below_after:
  assumes "below Hs n s" and "co_threads s i = Some (cl, pc)" and "advance 0 n cl pc (co_td s) = Some (next, td')"
  shows "below Hs (Suc n) (after s i cl next td')"
proof -
  have b: "\<forall>h \<in> Hs. tc_id h < Suc n" "\<forall>c. td_tx_ctx (co_td s) = Some c \<longrightarrow> tc_id c < Suc n"
      "\<forall>j cl pc. co_threads s j = Some (cl, pc) \<longrightarrow> (\<forall>a \<in> pc_ids pc. a < Suc n)"
    using assms(1) unfolding below_def by (meson less_SucI)+
  then have new: "\<forall>a \<in> insert n (pc_ids pc). a < Suc n" using assms(2) by blast
  note ids = conjunct1 [OF advance_ids [OF assms(3)]] conjunct2 [OF advance_ids [OF assms(3)]]
  have "\<forall>c. td_tx_ctx td' = Some c \<longrightarrow> tc_id c < Suc n" using ids(2) b(2) new by blast
  moreover have "\<forall>a \<in> pc_ids pc'. a < Suc n" if "next = Some pc'" for pc' using ids(1) that new by blast
  ultimately show ?thesis unfolding below_def using b(1,3) by (auto elim!: threads_upd)
qed

lemma schedule_steps: "schedule n is s = Some s' \<Longrightarrow> below Hs n s \<Longrightarrow> conc_steps Hs s s'"
proof (induction "is" arbitrary: n s)
  case (Cons i "is")
  from Cons.prems(1) obtain cl pc "next" td' where a: "co_threads s i = Some (cl, pc)"
      "advance 0 n cl pc (co_td s) = Some (next, td')" "schedule (Suc n) is (after s i cl next td') = Some s'"
    by (auto split: option.splits)
  have "conc_step Hs s (after s i cl next td')" unfolding after_def using a(1) below_unused [OF Cons.prems(2)] a(2) by (rule conc_step.run)
  with Cons.IH [OF a(3) below_after [OF Cons.prems(2) a(1,2)]] show ?case by (blast intro: conc_steps_trans conc_steps.intros)
qed (simp add: conc_steps.refl)

lemma below_start: "below Hs n s \<Longrightarrow> call_handle Hs cl \<Longrightarrow> below Hs n (set_thread s i (Some (cl, call_start cl)))"
  unfolding below_def by (cases cl) (auto elim!: threads_upd)

lemma below_init: "idle td \<Longrightarrow> \<forall>h \<in> Hs. tc_id h < n \<Longrightarrow> below Hs n (conc_init td)"
  by (simp add: below_def conc_init_def idle_def)

text \<open>Two threads: a transaction with one increment, and an increment beside it.\<close>

definition two_calls :: "TransactionalDatatype \<Rightarrow> call \<Rightarrow> call \<Rightarrow> conc" where
  "two_calls td cl0 cl1 = set_thread (set_thread (conc_init td) 0 (Some (cl0, call_start cl0))) 1 (Some (cl1, call_start cl1))"

lemma two_calls_run:
  assumes "idle td" and "\<forall>h \<in> Hs. tc_id h < n" and "call_handle Hs cl0" "call_handle Hs cl1"
    and "schedule n is (two_calls td cl0 cl1) = Some s"
  shows "conc_steps Hs (conc_init td) s"
proof -
  let ?s0 = "set_thread (conc_init td) 0 (Some (cl0, call_start cl0))"
  have "conc_step Hs (conc_init td) ?s0" using assms(3) by (intro conc_step.start) (simp_all add: conc_init_def)
  moreover have "conc_step Hs ?s0 (two_calls td cl0 cl1)"
    unfolding two_calls_def using assms(4) by (intro conc_step.start) (simp_all add: conc_init_def)
  ultimately have two: "conc_steps Hs (conc_init td) (two_calls td cl0 cl1)" by (blast intro: conc_steps.intros)
  have "below Hs n (two_calls td cl0 cl1)"
    unfolding two_calls_def using assms by (intro below_start below_init) auto
  from conc_steps_trans [OF schedule_steps [OF assms(5) this] two] show ?thesis .
qed

definition ex_handle :: TransactionContext where
  "ex_handle = TransactionContext_default 0"

definition ex_pair :: "nat list \<Rightarrow> conc option" where
  "ex_pair is = schedule 1 is (two_calls ex_td (Tx ''t'' [4, 5] (Ok ())) (Single ex_handle 7))"

lemma ex_pair_mid:
  "map_option (\<lambda>s. (co_threads s 0, get_value (co_td s), settled (co_td s)))
     (ex_pair [0, 0, 0, 0, 0, 1, 1, 1, 1, 0, 0, 0, 0, 0, 0, 0, 0, 0, 0, 0]) =
   Some (Some (Tx ''t'' [4, 5] (Ok ()), Dropping [Defer_end_transaction (Some ''t'')] True None), 9, 0)"
  by code_simp

lemma ex_pair_reached:
  assumes "ex_pair is = Some s"
  shows "conc_steps {ex_handle} (conc_init ex_td) s"
  by (rule two_calls_run [OF ex_td_idle(1) _ _ _ assms [unfolded ex_pair_def]]) (simp_all add: ex_handle_def TransactionContext_default_def)

lemma ex_disciplined: "disciplined {ex_handle}"
  by (simp add: disciplined_def ex_handle_def has_tag_def TransactionContext_default_def)

subsection \<open>Properties\<close>

text \<open>
  C9: Concurrent calls are atomic. Increments outside a closure go through handles that are not those of a transaction (no handle escapes its closure), and what
  the event loop applies meanwhile are accepted answers without a snapshot to a subscribed replica. Then, however the steps of any number of threads interleave with each other and
  with these answers, no call panics, at most one call owns the transaction in
  progress, and its record holds exactly what that call has run so far. And every step either leaves the
  settled value and the buffer alone, or makes the owner's whole call take effect at once, as one transaction
  with its tag and all its increments in order, or applies an answer of the server, of which the transactions that are not skipped as duplicates are added.
\<close>

theorem concurrent_calls_are_atomic:
  assumes "idle td" and "disciplined Hs" and "conc_steps Hs (conc_init td) s"
  shows "(\<forall>i cl pc. co_threads s i = Some (cl, pc) \<longrightarrow> pc \<noteq> Crashed \<and>
      (owner pc \<longrightarrow> pending_is (td_mutable (co_td s)) (ran cl pc) \<and>
         (\<forall>j cl' pc'. co_threads s j = Some (cl', pc') \<longrightarrow> owner pc' \<longrightarrow> j = i))) \<and>
    (\<forall>s'. conc_step Hs s s' \<longrightarrow>
       settled (co_td s') = settled (co_td s) \<and> buffered (co_td s') = buffered (co_td s) \<or>
       (\<exists>i cl pc. co_threads s i = Some (cl, pc) \<and> owner pc \<and> atomic_call cl (co_td s) (co_td s')) \<or>
       (\<exists>q. co_td s' = (co_td s)\<lparr>td_mutable := fst (apply_pull q (td_mutable (co_td s)))\<rparr> \<and> buffered (co_td s') = buffered (co_td s) \<and>
          settled (co_td s') = settled (co_td s) + txs_delta (unskipped (m_checkpoint (td_mutable (co_td s))) q)))"
proof -
  have inv: "conc_inv Hs s" using conc_inv_steps [OF assms(3) conc_inv_init [OF assms(1)] assms(2)] .
  have ok: "threads_ok Hs s" and one: "one_owner s" using inv unfolding conc_inv_def by blast+
  have "pc \<noteq> Crashed \<and> (owner pc \<longrightarrow> pending_is (td_mutable (co_td s)) (ran cl pc) \<and>
         (\<forall>j cl' pc'. co_threads s j = Some (cl', pc') \<longrightarrow> owner pc' \<longrightarrow> j = i))" if "co_threads s i = Some (cl, pc)" for i cl pc
    using threads_okD(1) [OF ok that] one_ownerD [OF one that] unfolding view_ok_def by (metis pc_ok.simps(16))
  moreover have "settled (co_td s') = settled (co_td s) \<and> buffered (co_td s') = buffered (co_td s) \<or>
       (\<exists>i cl pc. co_threads s i = Some (cl, pc) \<and> owner pc \<and> atomic_call cl (co_td s) (co_td s')) \<or>
       (\<exists>q. co_td s' = (co_td s)\<lparr>td_mutable := fst (apply_pull q (td_mutable (co_td s)))\<rparr> \<and> buffered (co_td s') = buffered (co_td s) \<and>
          settled (co_td s') = settled (co_td s) + txs_delta (unskipped (m_checkpoint (td_mutable (co_td s))) q))"
    if "conc_step Hs s s'" for s'
    using that
  proof cases
    case (run i cl pc addr now "next" td')
    with advance_settles [OF threads_okD(1) [OF ok run(2)] run(4)] show ?thesis by auto
  next
    case (pull q)
    with pull_settles [OF pull(2-4)] show ?thesis by auto
  qed simp
  ultimately show ?thesis by blast
qed

theorem concurrent_calls_are_atomic_witness:
  "\<exists>s. conc_steps {ex_handle} (conc_init ex_td) s \<and> get_value (co_td s) = 9 \<and> settled (co_td s) = 0 \<and>
     pending_is (td_mutable (co_td s)) [4, 5]"
proof -
  obtain s where s: "ex_pair [0, 0, 0, 0, 0, 1, 1, 1, 1, 0, 0, 0, 0, 0, 0, 0, 0, 0, 0, 0] = Some s"
    "co_threads s 0 = Some (Tx ''t'' [4, 5] (Ok ()), Dropping [Defer_end_transaction (Some ''t'')] True None)"
    "get_value (co_td s) = 9" "settled (co_td s) = 0"
    using ex_pair_mid by (auto simp del: schedule.simps)
  note run = ex_pair_reached [OF s(1)]
  from concurrent_calls_are_atomic [OF ex_td_idle(1) ex_disciplined run] s(2)
  have "pending_is (td_mutable (co_td s)) [4, 5]" by fastforce
  with run s show ?thesis by blast
qed

text \<open>
  C10: No call blocks the others for good. Under the same two conditions (no handle escapes its closure; accepted answers without a snapshot to a subscribed
  replica), and with finitely many handles, from every state that the threads can reach there is a way for all
  calls in progress to return, and the counter is then idle again: no transaction is left open and no mutex
  held.
\<close>

theorem calls_can_complete:
  assumes "idle td" and "disciplined Hs" and "finite Hs" and "conc_steps Hs (conc_init td) s"
  shows "\<exists>s'. conc_steps Hs s s' \<and> (\<forall>i. co_threads s' i = None) \<and> idle (co_td s')"
proof -
  have "finite (active s)" using finite_active [OF assms(4)] by (simp add: active_def conc_init_def)
  from completes [OF conc_inv_steps [OF assms(4) conc_inv_init [OF assms(1)] assms(2)] assms(2,3) this]
  obtain s' where s': "conc_steps Hs s s'" "active s' = {}" "conc_inv Hs s'" by blast
  then have "co_threads s' i = None" for i unfolding active_def by blast
  moreover from this s'(3) have "idle (co_td s')" by (auto simp: conc_inv_def idle_def unowned_free_def mutexes_freed_def)
  ultimately show ?thesis using s'(1) by blast
qed

theorem calls_can_complete_witness:
  "\<exists>s s'. conc_steps {ex_handle} (conc_init ex_td) s \<and> co_threads s 0 \<noteq> None \<and> conc_steps {ex_handle} s s' \<and> idle (co_td s')"
proof -
  obtain s where s: "ex_pair [0, 0, 0, 0, 0, 1, 1, 1, 1, 0, 0, 0, 0, 0, 0, 0, 0, 0, 0, 0] = Some s" "co_threads s 0 \<noteq> None"
    using ex_pair_mid by (auto simp del: schedule.simps)
  note run = ex_pair_reached [OF s(1)]
  from calls_can_complete [OF ex_td_idle(1) ex_disciplined _ run] run s(2) show ?thesis by blast
qed

text \<open>The run in which an increment outlives its transaction.\<close>

definition leak_init :: "TransactionalDatatype \<Rightarrow> string \<Rightarrow> i64 \<Rightarrow> conc" where
  "leak_init td tag d = \<lparr>co_td = td, co_threads = (\<lambda>_. None)
     (0 := Some (Tx tag [] (Ok ()), Tx_begin (TransactionContext_new 1 tag)),
      1 := Some (Single (TransactionContext_new 1 tag) d, Op_check (TransactionContext_new 1 tag) None))\<rparr>"

lemma leak_init_reached:
  assumes "idle td"
  shows "conc_steps {TransactionContext_new 1 tag} (conc_init td) (leak_init td tag d)"
    and "below {TransactionContext_new 1 tag} 2 (leak_init td tag d)"
proof -
  let ?H = "{TransactionContext_new 1 tag}" and ?cl = "Tx tag [] (Ok ())"
  let ?s0 = "set_thread (conc_init td) 0 (Some (?cl, Tx_check))"
  let ?s1 = "after ?s0 0 ?cl (Some (Tx_begin (TransactionContext_new 1 tag))) td"
  have "conc_step ?H (conc_init td) ?s0"
    using conc_step.start [of "conc_init td" 0 ?H ?cl] by (simp add: conc_init_def)
  moreover have "conc_step ?H ?s0 ?s1"
    unfolding after_def
  proof (rule conc_step.run)
    show "unused ?H 1 ?s0"
      using assms by (auto simp: unused_def idle_def conc_init_def has_tag_def TransactionContext_new_def)
    show "advance 0 1 ?cl Tx_check (co_td ?s0) = Some (Some (Tx_begin (TransactionContext_new 1 tag)), td)"
      using assms by (simp add: idle_def conc_init_def)
  qed simp
  moreover have "conc_step ?H ?s1 (leak_init td tag d)"
  proof -
    have "leak_init td tag d = set_thread ?s1 1 (Some (Single (TransactionContext_new 1 tag) d, call_start (Single (TransactionContext_new 1 tag) d)))"
      by (simp add: leak_init_def set_thread_def after_def conc_init_def)
    then show ?thesis using conc_step.start [of ?s1 1 ?H "Single (TransactionContext_new 1 tag) d"]
      by (simp add: conc_init_def)
  qed
  ultimately show "conc_steps ?H (conc_init td) (leak_init td tag d)" by (blast intro: conc_steps.intros)
  show "below ?H 2 (leak_init td tag d)"
    using assms by (simp add: below_def leak_init_def idle_def TransactionContext_new_def)
qed

definition leaked :: "TransactionalDatatype \<Rightarrow> i64 \<Rightarrow> TransactionalDatatype" where
  "leaked td d = td\<lparr>td_event_loop := send_push_transaction_with_best_effort (td_event_loop td),
     td_mutable := fst (execute_local_operation (td_mutable td) (new_counter_increase 0 d))\<rparr>"

lemma leak_schedule:
  assumes "idle td"
  shows "\<exists>s. schedule 2 [0, 0, 1, 1, 0, 0, 0, 0, 1, 1, 1] (leak_init td tag d) = Some s \<and> co_td s = leaked td d \<and> (\<forall>i. co_threads s i = None)"
proof -
  have i: "td_tx_ctx td = None" "\<not> td_op_mutex td" "\<not> td_tx_mutex td" "pending (m_tx_record (td_mutable td)) = None" "check_writable td = Ok ()"
    using assms by (simp_all add: idle_def)
  have e: "end_critical td' t True = (td'\<lparr>td_event_loop := send_push_transaction_with_best_effort (td_event_loop td')\<rparr>, False)"
    if "td_mutable td' = td_mutable td" for td' t
    using that i(4) by (simp add: end_critical_def end_transaction_def)
  show ?thesis
    by (simp add: leak_init_def i e begin_transaction_simps TransactionContext_new_def has_tag_def mutex_lock_def drop_start_def drop_next_def
        guard_commit_def after_def set_thread_def execute_local_operation_counter add_defer_func_def DeferGuard_new_def leaked_def)
qed

lemma leaked_record:
  assumes "idle td"
  shows "free (leaked td d)" "pending_is (td_mutable (leaked td d)) [d]" "buffered (leaked td d) = buffered td"
    "crdt_value (m_crdt (td_mutable (leaked td d))) = crdt_value (m_crdt (td_mutable td)) + d"
    "m_state (td_mutable td) = m_state (td_mutable (leaked td d))" "m_attr (td_mutable td) = m_attr (td_mutable (leaked td d))"
proof -
  let ?td = "leaked td d"
  obtain r where e: "execute_local_operation (td_mutable td) (new_counter_increase 0 d) = (td_mutable ?td, r)"
    by (cases "execute_local_operation (td_mutable td) (new_counter_increase 0 d)") (simp add: leaked_def)
  have "pending_is (td_mutable td) []" using assms by (simp add: idle_def)
  note p = pending_is_op [OF this e]
  show "free ?td" using assms check_writable_cong [OF p(3,4)] by (simp add: idle_def free_def leaked_def)
  show "pending_is (td_mutable ?td) [d]" "buffered ?td = buffered td"
    "crdt_value (m_crdt (td_mutable ?td)) = crdt_value (m_crdt (td_mutable td)) + d"
    "m_state (td_mutable td) = m_state (td_mutable ?td)" "m_attr (td_mutable td) = m_attr (td_mutable ?td)"
    using p by (simp_all add: buffered_def)
qed

text \<open>
  C35: A handle that escapes its closure. If an increment through the handle of a transaction is under way in
  another thread when the closure returns, it can be executed after the transaction has been ended: the call
  returns and the increment shows in the value, but it is in no transaction of the buffer. All calls have
  returned and yet a record is left open, whose fate the next transaction decides: if that one fails, even without running anything
  itself, it takes the increment back; if it succeeds and the buffer has room, the increment is committed as its first operation, under its tag.
\<close>

theorem escaped_handle_leaks:
  assumes "idle td" and reach: "mutable_reachable (td_mutable td)"
  shows "\<exists>s. conc_steps {TransactionContext_new 1 tag} (conc_init td) s \<and> (\<forall>i. co_threads s i = None) \<and>
    get_value (co_td s) = get_value td + d \<and> buffered (co_td s) = buffered td \<and>
    td_tx_ctx (co_td s) = None \<and> pending (m_tx_record (td_mutable (co_td s))) \<noteq> None \<and>
    (\<exists>td'. transaction fresh c tag' (script now [] (Err msg)) (co_td s) = Some (td', Err (TransactionFailed msg)) \<and>
       get_value td' = get_value td) \<and>
    (\<exists>td'. transaction fresh c tag' (script now ds (Ok ())) (co_td s) = Some (td', Ok ()) \<and>
       (let b = m_push_buffer (td_mutable td);
            tx = set_tag (tx_of (m_op_id (td_mutable td)) (increases 0 [d] @ increases now ds)) (Some tag')
        in map op_delta (tx_operations tx) = d # ds \<and>
           (pb_mem_size b + Transaction_size tx \<le> max_mem_size_of_push_buffer (pb_option b) \<longrightarrow>
            buffered td' = buffered td @ [tx] \<and> get_value td' = get_value td + d + sum_list ds)))"
proof -
  let ?td = "leaked td d" and ?m = "td_mutable td"
  obtain s where s: "schedule 2 [0, 0, 1, 1, 0, 0, 0, 0, 1, 1, 1] (leak_init td tag d) = Some s" "co_td s = ?td" "\<forall>i. co_threads s i = None"
    using leak_schedule [OF assms(1)] by blast
  have run: "conc_steps {TransactionContext_new 1 tag} (conc_init td) s"
    by (rule conc_steps_trans [OF schedule_steps [OF s(1) leak_init_reached(2) [OF assms(1)]] leak_init_reached(1) [OF assms(1)]])
  note l = leaked_record [OF assms(1), of d]
  obtain m' where m': "do_rollback (td_mutable ?td) = (m', Ok ())" "crdt_value (m_crdt m') = crdt_value (m_crdt (td_mutable ?td)) - sum_list [d]"
    using pending_is_rollback [OF l(2)] by blast
  have "transaction fresh c tag' (script now [] (Err msg)) ?td =
      Some (?td\<lparr>td_mutable := m', td_tx_ctx := None, td_tx_mutex := False\<rparr>, Err (TransactionFailed msg))"
    using l(1) td_end_rollback [of "?td\<lparr>td_tx_ctx := Some (TransactionContext_new fresh tag'), td_tx_mutex := True\<rparr>" m' "Some tag'"] m'(1)
    by (simp add: transaction_def do_transaction_def begin_transaction_def has_tag_def TransactionContext_new_def mutex_lock_def
        drop_guard_def add_defer_func_def DeferGuard_new_def Let_def free_def)
  then have undone: "\<exists>td'. transaction fresh c tag' (script now [] (Err msg)) ?td = Some (td', Err (TransactionFailed msg)) \<and> get_value td' = get_value td"
    using m'(2) l(4) by (simp add: get_value_def)
  have none: "pending (m_tx_record ?m) = None" using assms(1) by (simp add: idle_def)
  have deltas: "map op_delta (tx_operations (set_tag (tx_of (m_op_id ?m) (increases 0 [d] @ increases now ds)) (Some tag'))) = d # ds"
    by (simp add: tx_of_def)
  have e: "fst (execute_local_operations ?m (increases 0 [d])) = td_mutable ?td" "increases 0 [d] @ increases now ds \<noteq> []"
    by (simp_all add: leaked_def execute_local_operation_counter)
  have total: "v + ops_delta (increases 0 [d] @ increases now ds) = v + d + sum_list ds" for v
    using increases_simps(4) [of now ds] by (simp add: ops_delta_def)
  from transaction_commits [OF l(1) reach none l(5,6) increases_simps(3) e, where tag = tag' and fresh = fresh and c = c]
  obtain td' where td': "transaction fresh c tag' (script now ds (Ok ())) ?td = Some (td', Ok ())"
    "pb_mem_size (m_push_buffer ?m) + Transaction_size (set_tag (tx_of (m_op_id ?m) (increases 0 [d] @ increases now ds)) (Some tag'))
       \<le> max_mem_size_of_push_buffer (pb_option (m_push_buffer ?m)) \<longrightarrow>
     buffered td' = buffered td @ [set_tag (tx_of (m_op_id ?m) (increases 0 [d] @ increases now ds)) (Some tag')] \<and>
     get_value td' = get_value td + d + sum_list ds"
    unfolding commits_def Let_def buffered_def get_value_def total by (auto split: if_splits)
  have "pending (m_tx_record (td_mutable ?td)) \<noteq> None" using l(2) by (auto simp: pending_is_def split: option.splits)
  moreover have "get_value ?td = get_value td + d" "td_tx_ctx ?td = None" using l(1,4) by (simp_all add: get_value_def free_def)
  ultimately show ?thesis
    unfolding Let_def deltas using run s(3) l(3) undone td' by (intro exI [of _ s]) (simp only: s(2) simp_thms, blast)
qed

theorem escaped_handle_leaks_witness:
  "\<exists>s. conc_steps {TransactionContext_new 1 ''t''} (conc_init ex_td) s \<and> (\<forall>i. co_threads s i = None) \<and>
     get_value (co_td s) = 7 \<and> buffered (co_td s) = []"
proof -
  have "get_value ex_td = 0" "buffered ex_td = []" "mutable_reachable (td_mutable ex_td)"
    by (simp_all add: get_value_def buffered_def ex_td_def CounterCrdt_default_def MemoryPushBuffer_new_def ex_mut_reachable)
  with escaped_handle_leaks [OF ex_td_idle(1) this(3), of "''t''" 7 0 "Counter_new 0 3" "''u''" 0 "''no''" "[2]"] show ?thesis by auto
qed

end
