(* ===== verification/Spec2Isabelle.thy ===== *)
theory Spec2Isabelle
  imports Loop_Sync Backend_Threads Lock_Order Protocol_Gaps Datatype_Api Runtime Observability Thread_Safety
begin

text \<open>
  Verification of the replicated datatypes of qortoo (\<open>src/src\<close>, Rust).

  \<^bold>\<open>The program.\<close> A client process holds datatypes, at present counters. Each datatype is a replica: a
  CRDT, an operation id, a buffer of committed transactions that have to reach the server, a checkpoint
  (\<open>sseq\<close>: how far the server's order has been seen; \<open>cseq\<close>: how many of the own transactions the server has
  acknowledged) and a lifecycle state. User calls run operations inside transactions, which are committed
  to the buffer or rolled back. A thread per datatype, the event loop, exchanges packs with a backend: it
  pushes transactions the server has not acknowledged and applies those of other clients. The server
  of the in-memory backend puts the transactions of all clients into one history.

  \<^bold>\<open>The model.\<close> One theory per component, in the order in which the code is layered; definitions keep the names
  of the source, with the type's name in front where two types share one.

  \<^item> Prelude: integers at their width (\<open>u64\<close>, \<open>i64\<close>, \<open>usize\<close> as \<open>64 word\<close>), \<open>result\<close> with
    \<open>Panic\<close> as a third value, hash maps and ordered maps as association lists, decimal printing, and
    \<open>extern\<close>, the record of what third-party crates provide (byte units, the regular expression matcher,
    formatters, the iteration order of a hash map, backoff delays), which is an argument of every
    definition that uses one of them.
  \<^item> Types (\<open>types/\<close>, \<open>defaults.rs\<close>, \<open>datatypes/option.rs\<close>), Operations (\<open>operations/\<close>), Errors
    (\<open>errors/\<close>), Crdts (\<open>datatypes/crdts\<close>), Push_Buffer (\<open>push_buffer.rs\<close>), Attributes
    (\<open>datatypes/common.rs\<close>, \<open>handler.rs\<close>).
  \<^item> Mutable (\<open>mutable.rs\<close>, \<open>tx_record.rs\<close>): the replica, record \<open>MutableDatatype\<close>.
  \<^item> Pull_Handler (\<open>push_pull_pack.rs\<close>, \<open>pull_handler.rs\<close>): how an answer is applied.
  \<^item> Wired (\<open>wired.rs\<close>, \<open>wired_interceptor.rs\<close>): an exchange; \<open>heap\<close> maps the address of a replica to it,
    as the server reads the creator's replica for a snapshot.
  \<^item> Null_Connectivity, Local_Datatype_Server, Local_Connectivity (\<open>connectivity/\<close>): the two backends.
  \<^item> Event_Loop (\<open>event_loop.rs\<close>): the channels, the mode of the loop, \<open>loop_round\<close> for one round.
  \<^item> Transactional (\<open>transactional.rs\<close>, \<open>defer_guard.rs\<close>, \<open>no_guard_mutex.rs\<close>), Counter (\<open>counter.rs\<close>),
    Datatype_Api (\<open>datatype.rs\<close>): the calls of a user, for one thread at a time.
  \<^item> Threads: the same calls for any number of threads, cut at their lock operations: \<open>advance\<close> is one
    critical section of a call, \<open>conc_step\<close> interleaves them with each other and with pulls.
  \<^item> Backend_Threads: \<open>register\<close> and \<open>push_pull\<close> of the in-memory backend for any number of threads, cut where they
    take the lock of the server table or of a server; \<open>backend_step\<close> interleaves the sections.
  \<^item> Name_Validator, Client, Runtime (\<open>name_validator.rs\<close>, \<open>clients/\<close>, \<open>builder.rs\<close>, \<open>datatype_set.rs\<close>,
    \<open>runtime.rs\<close>): clients, their registry of datatypes, their thread pools.
  \<^item> Lock_Order: the calls of any number of clients that take the lock of a registry, of a datatype or of a server while they
    hold another one, cut at these lock operations and interleaved by \<open>client_step\<close>.
  \<^item> Observability (\<open>observability/\<close>, \<open>errors/mod.rs\<close>, \<open>constants.rs\<close>): the log line and the context it shows, the
    metrics, the stack trace of an error, the agent name.
  \<^item> Convergence: the replicas of one datatype, the requests and answers under way, and the server, as the
    step relation \<open>sys_step\<close> over the operations above. Steps interleave freely and messages get lost.

  \<^bold>\<open>The interfaces\<close> are locales, interpreted on the model's own operations: \<open>push_queue\<close> (what the mutable
  layer expects of the push buffer), \<open>reversible_ops\<close>, \<open>commutative_ops\<close> and \<open>replicated_ops\<close> (what the
  transaction and replication layers expect of a CRDT; also the Lamport clock), \<open>sync_join\<close> (checkpoints
  form a join semilattice), \<open>connectivity\<close> (what an exchange expects of a backend; both backends keep it),
  \<open>acknowledging\<close> (what the event loop needs to drain the buffer; both backends keep it) and its extension
  \<open>syncing\<close> (what it needs to answer \<open>sync\<close>; the in-memory backend keeps it).

  \<^bold>\<open>What is shown.\<close>

  \<^item> Replication: in every state the system reaches within the guards below, a live replica's value is the sum of a prefix of
    the server's order plus its own unacknowledged work (refinement of the server's total order), replicas
    that are caught up are equal, one exchange without losses catches up, and one that unsubscribes hands
    everything over. The invariant is proved in Convergence, step by step.
  \<^item> Loop_Sync puts loop, wired layer, backend and system together: a \<open>sync\<close> request is answered within a
    bounded number of rounds and the replica has then caught up; replicas that sync in turn, twice, hold the
    same value, with every transaction of each of them in it.
  \<^item> Transactions: a commit is all or nothing, a rollback restores the replica and keeps remote work, a user
    transaction that fails leaves nothing behind, and one that succeeds is one transaction of the buffer exactly if the
    buffer has room for it.
  \<^item> Threads (Thread_Safety): in every interleaving calls are atomic and no call can block the others for good; a
    handle that is used after its closure returned breaks this, which is shown as well. The answers applied meanwhile are
    accepted ones without a snapshot, to a subscribed replica. A thread on its
    own does what Transactional and Counter say (\<open>thread_alone\<close>).
  \<^item> Concurrent backend (Backend_Threads): the server histories keep their order in every interleaving, a registered client is
    found as long as nobody unsubscribes; a client that registers while an emptied server is being removed is lost.
    Calls without a concurrent one do what Local_Connectivity says (\<open>backend_calls_alone\<close>).
  \<^item> Lock order (Lock_Order): a build under a taken key and the disabling of that datatype can wait for each other for ever; every
    deadlock on these locks has a datatype that is being disabled and waits for a manager a build holds.
  \<^item> The server: its history has no gaps, no duplicates, and keeps the order of each client; pushing is
    idempotent; a subscriber finds the creator as long as there are subscribers; a replica of another
    type is refused without an effect on either side.
  \<^item> Applying answers: the transactions of others that the replica has not seen, in terms of the server's order, are applied exactly once; duplicates change nothing; refusals
    change only the lifecycle state; snapshots round trip.
  \<^item> The buffer: what is pushed is the longest prefix that fits, acknowledged transactions can be removed,
    the memory limit holds in unbounded arithmetic although the code adds 64-bit numbers.
  \<^item> The event loop: it drains the buffer and then serves its channels (Loop_Liveness), a stopped loop
    never pushes, and each error of an exchange takes the route the error table gives it.
  \<^item> The interface: what is accepted in which lifecycle state, one datatype per key, names that can be
    recovered from resource ids, handlers in order of priority, one runtime per client.
  \<^item> Observability: the context of a log line is, field by field, that of the innermost span that has it; a stack trace has one
    line for each frame of the crate.

  \<^bold>\<open>Bounds and guards.\<close> Arithmetic wraps, as in a build without overflow checks, and debug assertions are left out.
  Sequence numbers are 64-bit and wrap; the system relation admits a step only while
  the number of transactions stays below \<open>2 ^ 64\<close>. It further excludes four situations in which the
  implementation loses or repeats updates, listed in theory Convergence. Protocol_Gaps shows that they
  are real: a snapshot of a creator with unacknowledged work, a creation request answered late, a client that
  returns under its old id (the fourth, a rollback to an older lifecycle state, is read off \<open>do_rollback\<close>). It
  also shows what early writes and an unsubscribe call that overtakes an exchange lead to. Loop_Liveness
  shows that a transaction larger than the transmission limit starves the loop.

  \<^bold>\<open>Termination.\<close> All loops are total functions, with one convention: \<open>None\<close> stands for a call that
  would block for ever, namely a mutex already held or a channel without an event. The results say
  \<open>Some\<close> where the code returns. \<open>loop_run\<close> runs a given list of rounds; the bound in
  \<open>loop_drains_and_stops\<close> and \<open>sync_catches_up\<close> is the number of unacknowledged transactions (and one).

  \<^bold>\<open>Not modelled.\<close> The forwarding of span events to \<open>opentelemetry\<close> (\<open>observability/trace.rs\<close>) and the calls that emit metrics
  and log lines inside the layers: output only, built on crates outside the sources. Tests, examples, the build script, re-exports. The locks
  themselves (\<open>parking_lot\<close>), beyond being held or free; the test and the release in \<open>NoGuardMutex::unlock\<close> are one step; readers share a lock in the code, and here a reader takes and
  releases it in one step. Durations of timeouts and backoff, beyond the choice they lead to. The bodies of user handlers: a call
  of a handler is recorded with its arguments. The removal of a server without clients as a step of the
  system relation (it is a part of Local_Connectivity and Backend_Threads).
\<close>

end
